(* ===== verification/Prelude.thy ===== *)
theory Prelude
  imports Main "HOL-Library.Word"
begin

text \<open>
  Shared vocabulary of the development: bytes and byte strings, the arithmetic of \<open>usize\<close> that
  the sources use (checked, saturating and wrapping), the result of a poll, sub-slices of byte
  strings, and the generic lemmas the components share. A Rust panic (an \<open>expect\<close>, an index out
  of range, a failing \<open>assert!\<close> or \<open>debug_assert!\<close>) is the value \<open>None\<close> of an operation's
  result; the component theories show that the operations never return it under their invariants.
\<close>

section \<open>Bytes and sizes\<close>

type_synonym byte = "8 word"
type_synonym bytes = "byte list"

text \<open>Time points and durations are nanoseconds.\<close>

type_synonym instant = nat
type_synonym duration = nat

text \<open>
  The targets of the program are 64-bit: \<open>usize\<close> and \<open>u64\<close> have the same largest value.
\<close>

definition usize_max :: nat where
  "usize_max = 18446744073709551615"

definition u128_max :: nat where
  "u128_max = 340282366920938463463374607431768211455"

definition saturating_add :: "nat \<Rightarrow> nat \<Rightarrow> nat" where
  "saturating_add a b = min (a + b) usize_max"

definition checked_add :: "nat \<Rightarrow> nat \<Rightarrow> nat option" where
  "checked_add a b = (if a + b \<le> usize_max then Some (a + b) else None)"

definition wrapping_sub :: "nat \<Rightarrow> nat \<Rightarrow> nat" where
  "wrapping_sub a b = (if b \<le> a then a - b else a + (usize_max + 1) - b)"

definition wrapping_add :: "nat \<Rightarrow> nat \<Rightarrow> nat" where
  "wrapping_add a b = (a + b) mod (usize_max + 1)"

datatype 'a poll = Ready 'a | Pending

text \<open>The kinds of \<open>io::Error\<close> the modelled code raises or inspects.\<close>

datatype io_error =
    Would_Block
  | Broken_Pipe
  | Write_Zero
  | Invalid_Input
  | Invalid_Data
  | Unexpected_Eof
  | Other_Error

text \<open>
  A fallible operation returns \<open>Inl\<close> an error or \<open>Inr\<close> a value; \<open>try_res\<close> is the \<open>?\<close> operator and
  \<open>ensure\<close> the macro of the same name.
\<close>

fun try_res :: "'e + 'a \<Rightarrow> ('a \<Rightarrow> 'e + 'b) \<Rightarrow> 'e + 'b" where
  "try_res (Inl e) f = Inl e"
| "try_res (Inr a) f = f a"

definition ensure :: "bool \<Rightarrow> 'e \<Rightarrow> 'e + 'b \<Rightarrow> 'e + 'b" where
  "ensure c e k = (if c then k else Inl e)"

definition or_error :: "'a option \<Rightarrow> 'e \<Rightarrow> 'e + 'a" where
  "or_error x e = (case x of None \<Rightarrow> Inl e | Some a \<Rightarrow> Inr a)"

lemma try_res_Inr: "try_res r f = Inr b \<longleftrightarrow> (\<exists>a. r = Inr a \<and> f a = Inr b)"
  by (cases r) auto

lemma ensure_Inr: "ensure c e k = Inr b \<longleftrightarrow> c \<and> k = Inr b"
  by (simp add: ensure_def)

lemma ensure_True [simp]: "c \<Longrightarrow> ensure c e k = k"
  by (simp add: ensure_def)

lemma or_error_Inr: "or_error x e = Inr a \<longleftrightarrow> x = Some a"
  by (cases x) (auto simp: or_error_def)

lemma or_error_Some [simp]: "or_error (Some a) e = Inr a"
  by (simp add: or_error_def)

lemmas result_Inr = try_res_Inr ensure_Inr or_error_Inr

section \<open>Collections of facts\<close>

named_theorems koto_defs \<open>definitions of small operations, unfolded together\<close>
named_theorems koto_inv \<open>invariant preservation, used as introduction rules\<close>

section \<open>Arithmetic\<close>

lemma saturating_add_le [simp]: "saturating_add a b \<le> usize_max"
  by (simp add: saturating_add_def)

lemma saturating_add_exact: "a + b \<le> usize_max \<Longrightarrow> saturating_add a b = a + b"
  by (simp add: saturating_add_def)

lemma checked_add_Some [simp]: "checked_add a b = Some c \<longleftrightarrow> c = a + b \<and> a + b \<le> usize_max"
  by (auto simp: checked_add_def)

lemma checked_add_None [simp]: "checked_add a b = None \<longleftrightarrow> usize_max < a + b"
  by (auto simp: checked_add_def)

lemma wrapping_sub_exact [simp]: "b \<le> a \<Longrightarrow> wrapping_sub a b = a - b"
  by (simp add: wrapping_sub_def)

lemma wrapping_add_exact: "a + b \<le> usize_max \<Longrightarrow> wrapping_add a b = a + b"
  by (simp add: wrapping_add_def)

section \<open>Sums over lists\<close>

lemma sum_list_update_nat:
  assumes "i < length xs"
  shows "sum_list (map f (xs[i := y])) + f (xs ! i) = sum_list (map f xs) + (f y :: nat)"
  using assms
proof (induction xs arbitrary: i)
  case (Cons a xs)
  then show ?case by (cases i) (auto simp: ac_simps)
qed simp

lemma sum_list_ge_nth: "i < length xs \<Longrightarrow> f (xs ! i) \<le> sum_list (map f xs)" for f :: "'a \<Rightarrow> nat"
  by (simp add: member_le_sum_list)

section \<open>Slices of byte strings\<close>

text \<open>
  \<open>rslice a b xs\<close> is \<open>xs[a..b]\<close> where the range lies in \<open>xs\<close>; the operations that slice check
  the range first.
\<close>

definition rslice :: "nat \<Rightarrow> nat \<Rightarrow> 'a list \<Rightarrow> 'a list" where
  "rslice a b xs = take (b - a) (drop a xs)"

lemma length_slice: "b \<le> length xs \<Longrightarrow> length (rslice a b xs) = b - a"
  by (simp add: rslice_def)

lemma length_slice_min [simp]: "length (rslice a b xs) = min (b - a) (length xs - a)"
  by (simp add: rslice_def)

lemma nth_slice: "i < b - a \<Longrightarrow> b \<le> length xs \<Longrightarrow> rslice a b xs ! i = xs ! (a + i)"
  by (simp add: rslice_def)

lemma slice_full [simp]: "rslice 0 (length xs) xs = xs"
  by (simp add: rslice_def)

lemma slice_empty [simp]: "b \<le> a \<Longrightarrow> rslice a b xs = []"
  by (simp add: rslice_def)

lemma slice_append: "a \<le> b \<Longrightarrow> b \<le> c \<Longrightarrow> rslice a b xs @ rslice b c xs = rslice a c xs"
proof -
  assume "a \<le> b" "b \<le> c"
  then have "drop b xs = drop (b - a) (drop a xs)" and "(c - a) = (b - a) + (c - b)"
    by simp_all
  then show ?thesis
    unfolding rslice_def by (metis take_add)
qed

lemma slice_from_0 [simp]: "rslice 0 b xs = take b xs"
  by (simp add: rslice_def)

lemma slice_to_end: "length xs \<le> b \<Longrightarrow> rslice a b xs = drop a xs"
  by (simp add: rslice_def)

lemma slice_map_upt: "rslice a b (map f [0..<n]) = map f [a..<min b n]"
  by (cases "a \<le> b") (auto simp: rslice_def take_map drop_map min_def take_upt)

lemma map_upt_append: "a \<le> b \<Longrightarrow> b \<le> c \<Longrightarrow> map f [a..<b] @ map f [b..<c] = map f [a..<c]"
  by (metis map_append le_add_diff_inverse upt_add_eq_append)

section \<open>Big-endian integers\<close>

text \<open>\<open>u16\<close> and \<open>u32\<close> on the wire; a value is a \<open>nat\<close> below the width's bound.\<close>

definition be16 :: "nat \<Rightarrow> bytes" where
  "be16 n = [of_nat (n div 256), of_nat n]"

definition u16_of :: "byte \<Rightarrow> byte \<Rightarrow> nat" where
  "u16_of a b = unat a * 256 + unat b"

definition be32 :: "nat \<Rightarrow> bytes" where
  "be32 n = [of_nat (n div 16777216), of_nat (n div 65536), of_nat (n div 256), of_nat n]"

definition u32_of :: "byte \<Rightarrow> byte \<Rightarrow> byte \<Rightarrow> byte \<Rightarrow> nat" where
  "u32_of a b c d = ((unat a * 256 + unat b) * 256 + unat c) * 256 + unat d"

lemma unat_of_nat_byte: "unat (of_nat n :: byte) = n mod 256"
  by (simp add: unat_of_nat)

lemma length_be16 [simp]: "length (be16 n) = 2"
  by (simp add: be16_def)

lemma length_be32 [simp]: "length (be32 n) = 4"
  by (simp add: be32_def)

lemma u16_of_be16: "n < 65536 \<Longrightarrow> u16_of (be16 n ! 0) (be16 n ! 1) = n"
  by (simp add: be16_def u16_of_def unat_of_nat_byte)

lemma unat_byte_less: "unat (a :: byte) < 256"
proof -
  have "unsigned a < (2 :: nat) ^ LENGTH(8)" by (rule unsigned_less)
  then show ?thesis by simp
qed

lemma u16_of_less: "u16_of a b < 65536"
  using unat_byte_less [of a] unat_byte_less [of b] by (simp add: u16_of_def)

lemma u32_of_be32:
  "n < 4294967296 \<Longrightarrow> u32_of (be32 n ! 0) (be32 n ! 1) (be32 n ! 2) (be32 n ! 3) = n"
proof -
  assume n: "n < 4294967296"
  have "n div 16777216 mod 256 = n div 16777216" using n by simp
  moreover have "n div 16777216 = n div 65536 div 256" "n div 65536 = n div 256 div 256"
    by (simp_all add: div_mult2_eq [symmetric])
  then have "n div 16777216 * 256 + n div 65536 mod 256 = n div 65536"
    "n div 65536 * 256 + n div 256 mod 256 = n div 256"
    by (simp_all only: div_mult_mod_eq)
  moreover have "n div 256 * 256 + n mod 256 = n" by (rule div_mult_mod_eq)
  ultimately show ?thesis
    by (simp add: be32_def u32_of_def unat_of_nat_byte numeral_2_eq_2 numeral_3_eq_3)
qed

section \<open>Chunks of a slice\<close>

text \<open>\<open>slice::chunks\<close> and \<open>div_ceil\<close> of the standard library.\<close>

function chunks_of :: "nat \<Rightarrow> 'a list \<Rightarrow> 'a list list" where
  "chunks_of n xs = (if n = 0 \<or> xs = [] then [] else take n xs # chunks_of n (drop n xs))"
  by pat_completeness auto
termination by (relation "measure (\<lambda>(n, xs). length xs)") auto

declare chunks_of.simps [simp del]

definition div_ceil :: "nat \<Rightarrow> nat \<Rightarrow> nat" where
  "div_ceil a b = (a + b - 1) div b"

lemma concat_chunks: "0 < n \<Longrightarrow> concat (chunks_of n xs) = xs"
proof (induction n xs rule: chunks_of.induct)
  case (1 n xs)
  then show ?case by (cases "xs = []") (simp_all add: chunks_of.simps [of n xs] chunks_of.simps [of n "[]"])
qed

lemma chunks_bounded: "x \<in> set (chunks_of n xs) \<Longrightarrow> 0 < length x \<and> length x \<le> n"
proof (induction n xs rule: chunks_of.induct)
  case (1 n xs)
  then show ?case by (cases "n = 0 \<or> xs = []") (auto simp: chunks_of.simps [of n xs])
qed

lemma div_ceil_step:
  assumes "0 < n" "0 < m"
  shows "div_ceil m n = Suc (div_ceil (m - n) n)"
proof (cases "n \<le> m")
  case True
  then have "m + n - 1 = (m - n + n - 1) + n" using assms by linarith
  then show ?thesis using assms unfolding div_ceil_def by (metis div_add_self2 less_numeral_extra(3) Suc_eq_plus1)
next
  case False
  have "m + n - 1 = (m - 1) + n" using assms by simp
  then have "div_ceil m n = (m - 1) div n + 1" using assms unfolding div_ceil_def by (metis div_add_self2 less_numeral_extra(3))
  moreover have "(m - 1) div n = 0" using False by (intro div_less) simp
  moreover have "div_ceil (m - n) n = 0" using False assms by (simp add: div_ceil_def)
  ultimately show ?thesis by simp
qed

lemma length_chunks: "0 < n \<Longrightarrow> length (chunks_of n xs) = div_ceil (length xs) n"
proof (induction n xs rule: chunks_of.induct)
  case (1 n xs)
  show ?case
  proof (cases "xs = []")
    case True
    then show ?thesis using "1.prems" by (simp add: chunks_of.simps [of n "[]"] div_ceil_def)
  next
    case False
    then have "length (chunks_of n xs) = Suc (div_ceil (length xs - n) n)"
      using "1.IH" "1.prems" by (simp add: chunks_of.simps [of n xs])
    then show ?thesis using div_ceil_step [OF "1.prems", of "length xs"] False by simp
  qed
qed

lemma nth_chunks: "i < length (chunks_of n xs) \<Longrightarrow> chunks_of n xs ! i = take n (drop (i * n) xs)"
proof (induction n xs arbitrary: i rule: chunks_of.induct)
  case (1 n xs)
  have ne: "\<not> (n = 0 \<or> xs = [])" using "1.prems" by (auto simp: chunks_of.simps [of n xs] split: if_splits)
  with 1 show ?case by (cases i) (auto simp: chunks_of.simps [of n xs] add.commute)
qed

section \<open>Step systems\<close>

text \<open>
  A component whose handlers run one at a time is a step relation with an initial state. What holds initially and
  is kept by every step holds in every reachable state.
\<close>

locale step_system =
  fixes step :: "'s \<Rightarrow> 's \<Rightarrow> bool" and init :: 's and inv :: "'s \<Rightarrow> bool"
  assumes init_inv: "inv init"
    and step_inv: "step s s' \<Longrightarrow> inv s \<Longrightarrow> inv s'"
begin

lemma reachable_inv: "step\<^sup>*\<^sup>* init s \<Longrightarrow> inv s"
  by (induction rule: rtranclp_induct) (auto intro: init_inv step_inv)

end

end
