(* ===== verification/Ordered_Map.thy ===== *)
theory Ordered_Map
  imports Prelude
begin

text \<open>
  The part of \<open>std::collections::BTreeMap\<close> with \<open>usize\<close> keys that the program uses, as a list of
  entries in ascending key order: insertion, removal, and the two ends of a range query. The
  locale \<open>btree_map\<close> is the contract its clients rely on, stated over the lookup function; the
  interpretation discharges it for the list of entries.
\<close>

section \<open>Operations\<close>

type_synonym 'v omap = "(nat \<times> 'v) list"

definition om_lookup :: "'v omap \<Rightarrow> nat \<Rightarrow> 'v option" where
  "om_lookup m = map_of m"

fun om_insert :: "nat \<Rightarrow> 'v \<Rightarrow> 'v omap \<Rightarrow> 'v omap" where
  "om_insert k v [] = [(k, v)]"
| "om_insert k v ((a, b) # m) =
     (if k < a then (k, v) # (a, b) # m
      else if k = a then (k, v) # m
      else (a, b) # om_insert k v m)"

definition om_remove :: "nat \<Rightarrow> 'v omap \<Rightarrow> 'v omap" where
  "om_remove k m = filter (\<lambda>(a, b). a \<noteq> k) m"

text \<open>\<open>range(..s).next_back()\<close>, \<open>range(..=p).next_back()\<close> and \<open>range(a..b).next()\<close>.\<close>

definition om_before :: "nat \<Rightarrow> 'v omap \<Rightarrow> (nat \<times> 'v) option" where
  "om_before s m = (let xs = filter (\<lambda>(k, v). k < s) m in if xs = [] then None else Some (last xs))"

definition om_upto :: "nat \<Rightarrow> 'v omap \<Rightarrow> (nat \<times> 'v) option" where
  "om_upto p m = om_before (Suc p) m"

definition om_first_in :: "nat \<Rightarrow> nat \<Rightarrow> 'v omap \<Rightarrow> (nat \<times> 'v) option" where
  "om_first_in a b m = List.find (\<lambda>(k, v). a \<le> k \<and> k < b) m"

text \<open>\<open>first_key_value()\<close>: the entry with the least key.\<close>

definition om_first :: "'v omap \<Rightarrow> (nat \<times> 'v) option" where
  "om_first m = (case m of [] \<Rightarrow> None | e # _ \<Rightarrow> Some e)"

definition om_count_in :: "nat \<Rightarrow> nat \<Rightarrow> 'v omap \<Rightarrow> nat" where
  "om_count_in a b m = length (filter (\<lambda>(k, v). a \<le> k \<and> k < b) m)"

definition om_invar :: "'v omap \<Rightarrow> bool" where
  "om_invar m = sorted_wrt (<) (map fst m)"

section \<open>The contract of an ordered map\<close>

locale btree_map =
  fixes empty :: "'m"
    and lookup :: "'m \<Rightarrow> nat \<Rightarrow> 'v option"
    and insert :: "nat \<Rightarrow> 'v \<Rightarrow> 'm \<Rightarrow> 'm"
    and remove :: "nat \<Rightarrow> 'm \<Rightarrow> 'm"
    and before :: "nat \<Rightarrow> 'm \<Rightarrow> (nat \<times> 'v) option"
    and first_in :: "nat \<Rightarrow> nat \<Rightarrow> 'm \<Rightarrow> (nat \<times> 'v) option"
    and least :: "'m \<Rightarrow> (nat \<times> 'v) option"
    and invar :: "'m \<Rightarrow> bool"
  assumes lookup_empty: "lookup empty = Map.empty"
    and lookup_insert: "invar m \<Longrightarrow> lookup (insert k v m) = (lookup m)(k \<mapsto> v)"
    and lookup_remove: "invar m \<Longrightarrow> lookup (remove k m) = (lookup m)(k := None)"
    and before_None: "invar m \<Longrightarrow> before s m = None \<longleftrightarrow> (\<forall>k < s. lookup m k = None)"
    and before_Some: "invar m \<Longrightarrow> before s m = Some (k, v) \<longleftrightarrow>
          k < s \<and> lookup m k = Some v \<and> (\<forall>j. k < j \<and> j < s \<longrightarrow> lookup m j = None)"
    and first_None: "invar m \<Longrightarrow> first_in a b m = None \<longleftrightarrow>
          (\<forall>k. a \<le> k \<and> k < b \<longrightarrow> lookup m k = None)"
    and first_Some: "invar m \<Longrightarrow> first_in a b m = Some (k, v) \<longleftrightarrow>
          a \<le> k \<and> k < b \<and> lookup m k = Some v \<and> (\<forall>j. a \<le> j \<and> j < k \<longrightarrow> lookup m j = None)"
    and least_None: "invar m \<Longrightarrow> least m = None \<longleftrightarrow> lookup m = Map.empty"
    and least_Some: "invar m \<Longrightarrow> least m = Some (k, v) \<longleftrightarrow>
          lookup m k = Some v \<and> (\<forall>j < k. lookup m j = None)"
    and invar_empty: "invar empty"
    and invar_insert: "invar m \<Longrightarrow> invar (insert k v m)"
    and invar_remove: "invar m \<Longrightarrow> invar (remove k m)"
begin

lemmas map_specs = lookup_empty lookup_insert lookup_remove invar_empty invar_insert invar_remove

text \<open>An entry of the map that starts before \<open>s\<close> starts no later than the one \<open>before\<close> finds.\<close>

lemma before_greatest:
  assumes "invar m" "before s m = Some (k, v)" "lookup m j = Some w" "j < s"
  shows "j \<le> k"
  using assms by (metis before_Some option.distinct(1) not_le)

lemma before_exists:
  assumes "invar m" "lookup m j = Some w" "j < s"
  shows "\<exists>k v. before s m = Some (k, v) \<and> j \<le> k"
  using assms before_None before_greatest by (metis option.exhaust surj_pair option.distinct(1))

end

section \<open>The list of entries satisfies the contract\<close>

lemma om_insert_keys: "fst ` set (om_insert k v m) = insert k (fst ` set m)"
  by (induction k v m rule: om_insert.induct) auto

lemma om_invar_insert: "om_invar m \<Longrightarrow> om_invar (om_insert k v m)"
proof (induction k v m rule: om_insert.induct)
  case (1 k v)
  then show ?case by (simp add: om_invar_def)
next
  case (2 k v a b m)
  then have "om_invar m" and "\<forall>x \<in> fst ` set m. a < x"
    by (auto simp: om_invar_def)
  with 2 om_insert_keys [of k v m] show ?case
    by (fastforce simp: om_invar_def)
qed

lemma om_lookup_insert: "om_lookup (om_insert k v m) = (om_lookup m)(k \<mapsto> v)"
  if "om_invar m" for m :: "'v omap"
  using that
proof (induction k v m rule: om_insert.induct)
  case (2 k v a b m)
  then show ?case by (auto simp: om_lookup_def om_invar_def fun_eq_iff)
qed (simp add: om_lookup_def)

lemma om_lookup_remove: "om_lookup (om_remove k m) = (om_lookup m)(k := None)"
  by (induction m) (auto simp: om_lookup_def om_remove_def fun_eq_iff)

lemma om_invar_filter: "om_invar m \<Longrightarrow> om_invar (filter P m)"
  by (induction m) (auto simp: om_invar_def)

lemma om_lookup_mem: "om_invar m \<Longrightarrow> om_lookup m k = Some v \<longleftrightarrow> (k, v) \<in> set m"
  unfolding om_lookup_def om_invar_def
  by (metis map_of_eq_Some_iff strict_sorted_iff)

lemma om_lookup_None: "om_lookup m k = None \<longleftrightarrow> k \<notin> fst ` set m"
  by (simp add: om_lookup_def map_of_eq_None_iff)

lemma om_last_greatest:
  assumes "om_invar m" "m \<noteq> []"
  shows "last m \<in> set m \<and> (\<forall>e \<in> set m. fst e \<le> fst (last m))"
  using assms by (induction m) (auto simp: om_invar_def less_imp_le dest: last_in_set)

lemma om_before_iff:
  assumes "om_invar m"
  shows "om_before s m = Some (k, v) \<longleftrightarrow>
    k < s \<and> om_lookup m k = Some v \<and> (\<forall>j. k < j \<and> j < s \<longrightarrow> om_lookup m j = None)"
proof -
  let ?xs = "filter (\<lambda>(k, v). k < s) m"
  have inv: "om_invar ?xs" using assms by (rule om_invar_filter)
  have mem: "\<And>a b. (a, b) \<in> set ?xs \<longleftrightarrow> a < s \<and> om_lookup m a = Some b"
    using assms by (auto simp: om_lookup_mem)
  show ?thesis
  proof
    assume "om_before s m = Some (k, v)"
    then have ne: "?xs \<noteq> []" and last: "last ?xs = (k, v)"
      by (auto simp: om_before_def Let_def split: if_splits)
    from om_last_greatest [OF inv ne] last mem
    show "k < s \<and> om_lookup m k = Some v \<and> (\<forall>j. k < j \<and> j < s \<longrightarrow> om_lookup m j = None)"
      by (metis fst_conv not_None_eq not_le)
  next
    assume R: "k < s \<and> om_lookup m k = Some v \<and> (\<forall>j. k < j \<and> j < s \<longrightarrow> om_lookup m j = None)"
    then have kv: "(k, v) \<in> set ?xs" using mem by blast
    then have ne: "?xs \<noteq> []" by (metis empty_iff empty_set)
    obtain a b where ab: "last ?xs = (a, b)" by fastforce
    from om_last_greatest [OF inv ne] ab kv have "(a, b) \<in> set ?xs" "k \<le> a" by force+
    with R mem have "a = k" "b = v" by (metis option.distinct(1) le_neq_implies_less option.inject)+
    with ne ab show "om_before s m = Some (k, v)" by (simp add: om_before_def)
  qed
qed

lemma om_before_None: "om_before s m = None \<longleftrightarrow> (\<forall>k < s. om_lookup m k = None)"
  by (force simp: om_before_def Let_def om_lookup_None filter_empty_conv)

lemma om_first_None:
  "om_first_in a b m = None \<longleftrightarrow> (\<forall>k. a \<le> k \<and> k < b \<longrightarrow> om_lookup m k = None)"
  by (force simp: om_first_in_def find_None_iff om_lookup_None)

lemma om_first_iff:
  "om_invar m \<Longrightarrow> om_first_in a b m = Some (k, v) \<longleftrightarrow>
    a \<le> k \<and> k < b \<and> om_lookup m k = Some v \<and> (\<forall>j. a \<le> j \<and> j < k \<longrightarrow> om_lookup m j = None)"
proof (induction m)
  case Nil
  then show ?case by (simp add: om_first_in_def om_lookup_def)
next
  case (Cons e m)
  obtain x y where e: "e = (x, y)" by fastforce
  from Cons.prems have inv: "om_invar m" and less: "\<forall>z \<in> fst ` set m. x < z"
    by (auto simp: om_invar_def e)
  have later: "om_lookup m j = Some w \<Longrightarrow> x < j" for j w
    using less inv by (force simp: om_lookup_mem)
  show ?case
  proof (cases "a \<le> x \<and> x < b")
    case True
    moreover have "j < x \<Longrightarrow> om_lookup m j = None" for j
      using later by (metis not_None_eq less_asym)
    ultimately show ?thesis
      using later by (auto simp: e om_first_in_def om_lookup_def)
  next
    case False
    then have "om_first_in a b (e # m) = om_first_in a b m"
      by (auto simp: om_first_in_def e)
    with Cons.IH [OF inv] False show ?thesis
      using later by (auto simp: e om_lookup_def)
  qed
qed

lemma om_least_iff:
  assumes "om_invar m"
  shows "om_first m = Some (k, v) \<longleftrightarrow> om_lookup m k = Some v \<and> (\<forall>j < k. om_lookup m j = None)"
proof (cases m)
  case Nil
  then show ?thesis by (simp add: om_first_def om_lookup_def)
next
  case (Cons e m')
  obtain x y where e: "e = (x, y)" by fastforce
  have ge: "x \<le> j" if "om_lookup m j = Some w" for j w
    using that assms by (auto simp: om_lookup_mem Cons e) (auto simp: om_invar_def e Cons)
  have x: "om_lookup m x = Some y" by (simp add: Cons e om_lookup_def)
  have "om_first m = Some (k, v) \<longleftrightarrow> k = x \<and> v = y"
    by (auto simp: Cons e om_first_def)
  also have "\<dots> \<longleftrightarrow> om_lookup m k = Some v \<and> (\<forall>j < k. om_lookup m j = None)"
    using ge x by (metis linorder_neqE_nat not_None_eq not_le option.inject)
  finally show ?thesis .
qed

interpretation bt: btree_map "[]" om_lookup om_insert om_remove om_before om_first_in om_first om_invar
proof unfold_locales
  fix m :: "'a omap" and k v s a b
  show "om_lookup [] = Map.empty" by (simp add: om_lookup_def)
  show "om_invar []" by (simp add: om_invar_def)
  assume inv: "om_invar m"
  show "om_lookup (om_insert k v m) = (om_lookup m)(k \<mapsto> v)" using inv by (rule om_lookup_insert)
  show "om_lookup (om_remove k m) = (om_lookup m)(k := None)" by (rule om_lookup_remove)
  show "(om_before s m = None) = (\<forall>k < s. om_lookup m k = None)" by (rule om_before_None)
  show "(om_before s m = Some (k, v)) = (k < s \<and> om_lookup m k = Some v \<and>
      (\<forall>j. k < j \<and> j < s \<longrightarrow> om_lookup m j = None))"
    using inv by (rule om_before_iff)
  show "(om_first_in a b m = None) = (\<forall>k. a \<le> k \<and> k < b \<longrightarrow> om_lookup m k = None)"
    by (rule om_first_None)
  show "(om_first_in a b m = Some (k, v)) = (a \<le> k \<and> k < b \<and> om_lookup m k = Some v \<and>
      (\<forall>j. a \<le> j \<and> j < k \<longrightarrow> om_lookup m j = None))"
    using inv by (rule om_first_iff)
  show "(om_first m = None) = (om_lookup m = Map.empty)"
    by (cases m) (auto simp: om_first_def om_lookup_def)
  show "(om_first m = Some (k, v)) = (om_lookup m k = Some v \<and> (\<forall>j < k. om_lookup m j = None))"
    using inv by (rule om_least_iff)
  show "om_invar (om_insert k v m)" using inv by (rule om_invar_insert)
  show "om_invar (om_remove k m)" unfolding om_remove_def using inv by (rule om_invar_filter)
qed

section \<open>Measures for loops over a range\<close>

lemma om_count_remove:
  "om_first_in a b m = Some (k, v) \<Longrightarrow> om_count_in a b (om_remove k m) < om_count_in a b m"
proof -
  assume "om_first_in a b m = Some (k, v)"
  then have k: "(k, v) \<in> set m" "a \<le> k" "k < b"
    by (auto simp: om_first_in_def find_Some_iff) (metis nth_mem)
  have "filter (\<lambda>(k, v). a \<le> k \<and> k < b) (om_remove k m)
      = filter (\<lambda>(j, v). j \<noteq> k) (filter (\<lambda>(k, v). a \<le> k \<and> k < b) m)"
    by (auto simp: om_remove_def intro: filter_cong)
  moreover have "length \<dots> < length (filter (\<lambda>(k, v). a \<le> k \<and> k < b) m)"
    by (rule length_filter_less [where x = "(k, v)"]) (use k in auto)
  ultimately show ?thesis by (simp add: om_count_in_def)
qed

lemma om_count_insert_outside:
  "\<not> (a \<le> k \<and> k < b) \<Longrightarrow> om_count_in a b (om_insert k v m) \<le> om_count_in a b m"
  by (induction k v m rule: om_insert.induct) (auto simp: om_count_in_def)

lemma om_count_card:
  assumes "om_invar m"
  shows "om_count_in a b m = card {k. a \<le> k \<and> k < b \<and> om_lookup m k \<noteq> None}"
proof -
  have "distinct (map fst m)" using assms by (simp add: om_invar_def strict_sorted_iff)
  then have "distinct (map fst (filter (\<lambda>(k, v). a \<le> k \<and> k < b) m))"
    by (rule distinct_map_filter)
  then have "om_count_in a b m = card (fst ` set (filter (\<lambda>(k, v). a \<le> k \<and> k < b) m))"
    by (metis om_count_in_def distinct_card length_map set_map)
  also have "fst ` set (filter (\<lambda>(k, v). a \<le> k \<and> k < b) m)
      = {k. a \<le> k \<and> k < b \<and> om_lookup m k \<noteq> None}"
    by (force simp: om_lookup_None)
  finally show ?thesis .
qed

lemma om_count_step:
  assumes "om_invar m" "a \<le> c" "\<And>k. a < k \<Longrightarrow> k < c \<Longrightarrow> om_lookup m k = None" "a < c" "c \<le> b"
  shows "om_count_in a b m = (if om_lookup m a = None then 0 else 1) + om_count_in c b m"
proof -
  let ?K = "\<lambda>x. {k. x \<le> k \<and> k < b \<and> om_lookup m k \<noteq> None}"
  have fin: "finite (?K c)" by (rule finite_subset [of _ "{..<b}"]) auto
  have "?K a = (if om_lookup m a = None then {} else {a}) \<union> ?K c"
    using assms(3-5) by (auto simp: not_le) (metis le_neq_implies_less not_le option.distinct(1))+
  moreover have "a \<notin> ?K c" using assms(4) by simp
  ultimately have "card (?K a) = (if om_lookup m a = None then 0 else 1) + card (?K c)"
    using card_insert_disjoint [OF fin, of a] by (cases "om_lookup m a = None") simp_all
  then show ?thesis using assms(1) by (simp add: om_count_card)
qed

end
