(* ===== verification/Tcp_Storage.thy ===== *)
theory Tcp_Storage
  imports Ordered_Map
begin

text \<open>
  TCP payload storage of the TUN stack (\<open>crates/tun/src/tcp_storage.rs\<close>, with \<open>view\<close> of
  \<open>crates/tun/src/storage.rs\<close>). A storage keeps immutable blocks of bytes at sparse logical
  offsets: the contiguous published prefix starts at \<open>st_head\<close> and has \<open>st_len\<close> bytes, blocks
  beyond it hold out-of-order data. The lemmas relate every operation to the byte found at each
  logical offset (\<open>byte_at\<close>): insertion overlays exactly the written range, consumption drops
  exactly the consumed prefix, and none of the \<open>expect\<close>s, \<open>debug_assert!\<close>s and slice bounds of
  the source can fail. The locale \<open>tcp_buffer\<close> is what the TCP socket relies on; its client lemma
  shows that segments written in any order and with any overlap deliver the original stream.

  \<open>Pool::copy\<close> returns the bytes it is given, so \<open>pool.copy(data)\<close> is \<open>data\<close>. The three counters
  behind \<open>Arc<AtomicUsize>\<close> are fields of the record.
\<close>

section \<open>State\<close>

text \<open>A borrowed slice of memory: the address of its first byte and its contents.\<close>

type_synonym region = "nat \<times> bytes"

record storage =
  st_blocks :: "bytes omap"
  st_head :: nat
  st_len :: nat
  st_target :: nat
  st_outstanding :: nat
  st_released :: nat
  st_tx :: bool
  st_scratch :: bytes
  st_source :: "region option"

definition st_new :: "nat \<Rightarrow> bool \<Rightarrow> nat \<Rightarrow> nat \<Rightarrow> storage" where
  "st_new target tx outstanding released =
     \<lparr>st_blocks = [], st_head = 0, st_len = 0, st_target = target, st_outstanding = outstanding,
      st_released = released, st_tx = tx, st_scratch = [], st_source = None\<rparr>"

section \<open>Operations\<close>

text \<open>\<open>view\<close>: share a slice of the received frame when the data lies inside it.\<close>

definition view :: "region \<Rightarrow> region \<Rightarrow> bytes option" where
  "view source data =
     (if fst data < fst source then None
      else let start = fst data - fst source in
        case checked_add start (length (snd data)) of
          None \<Rightarrow> None
        | Some e \<Rightarrow> if e \<le> length (snd source) then Some (rslice start e (snd source)) else None)"

definition st_segment_count :: "storage \<Rightarrow> nat \<Rightarrow> nat \<Rightarrow> nat" where
  "st_segment_count s lo hi =
     (let start = st_head s + lo; e = st_head s + hi;
          prefix = (case om_before start (st_blocks s) of
                      None \<Rightarrow> False | Some (key, b) \<Rightarrow> start < key + length b)
      in (if prefix then 1 else 0) + om_count_in start e (st_blocks s))"

function st_segments_loop :: "bytes omap \<Rightarrow> nat \<Rightarrow> nat \<Rightarrow> bytes list option" where
  "st_segments_loop m position e =
     (if position < e then
        case om_upto position m of
          None \<Rightarrow> None
        | Some (start, b) \<Rightarrow>
            if start + length b < position then None
            else let count = min (e - position) (start + length b - position) in
              if count = 0 then None
              else map_option ((#) (rslice (position - start) (position - start + count) b))
                     (st_segments_loop m (position + count) e)
      else Some [])"
  by pat_completeness auto
termination
  by (relation "measure (\<lambda>(m, position, e). e - position)") auto

definition st_segments :: "storage \<Rightarrow> nat \<Rightarrow> nat \<Rightarrow> bytes list option" where
  "st_segments s lo hi = st_segments_loop (st_blocks s) (st_head s + lo) (st_head s + hi)"

definition st_push :: "storage \<Rightarrow> bytes \<Rightarrow> storage \<times> nat" where
  "st_push s b =
     (if length b \<noteq> 0
      then (s\<lparr>st_blocks := om_insert (st_head s + st_len s) b (st_blocks s),
              st_len := st_len s + length b\<rparr>, length b)
      else (s, length b))"

definition st_take :: "storage \<Rightarrow> (bytes option \<times> storage) option" where
  "st_take s =
     (if st_len s = 0 then Some (None, s)
      else case om_first (st_blocks s) of
        None \<Rightarrow> None
      | Some (start, b) \<Rightarrow>
          if start \<noteq> st_head s then None
          else let rest = om_remove start (st_blocks s);
                   count = min (length b) (st_len s);
                   rest' = (if count < length b then om_insert (start + count) (drop count b) rest
                            else rest)
            in Some (Some (take count b),
                     s\<lparr>st_blocks := rest', st_head := st_head s + count,
                       st_len := st_len s - count\<rparr>))"

text \<open>\<open>insert\<close>: split the block that reaches into the range, then remove the ones inside it.\<close>

function st_insert_clear :: "nat \<Rightarrow> nat \<Rightarrow> bytes omap \<Rightarrow> bytes omap" where
  "st_insert_clear start e m =
     (case om_first_in start e m of
        None \<Rightarrow> m
      | Some (key, old) \<Rightarrow>
          let m' = om_remove key m in
          st_insert_clear start e
            (if e < key + length old then om_insert e (drop (e - key) old) m' else m'))"
  by pat_completeness auto
termination
proof (relation "measure (\<lambda>(start, e, m). om_count_in start e m)", goal_cases)
  case 1
  show ?case by simp
next
  case (2 start e m p key old m')
  then have "om_count_in start e m' < om_count_in start e m"
    using om_count_remove by metis
  then show ?case
    using om_count_insert_outside [of start e e "drop (e - key) old" m'] by auto
qed

definition st_insert :: "bytes omap \<Rightarrow> nat \<Rightarrow> bytes \<Rightarrow> bytes omap" where
  "st_insert m start b =
     (let e = start + length b;
          m1 = (case om_before start m of
                  None \<Rightarrow> m
                | Some (key, old) \<Rightarrow>
                    if start < key + length old
                    then let m' = om_remove key m;
                             m'' = (if e < key + length old
                                    then om_insert e (drop (e - key) old) m' else m')
                         in om_insert key (take (start - key) old) m''
                    else m)
      in om_insert start b (st_insert_clear start e m1))"

definition st_capacity :: "storage \<Rightarrow> nat" where
  "st_capacity s = st_target s"

definition st_window :: "storage \<Rightarrow> nat" where
  "st_window s =
     st_capacity s - (if st_tx s then st_outstanding s else st_len s + st_outstanding s)"

definition st_enqueue_slice :: "storage \<Rightarrow> bytes \<Rightarrow> storage \<times> nat" where
  "st_enqueue_slice s data =
     (let n = min (min (length data) (st_window s)) 65536
      in if n > 0 then (fst (st_push s (take n data)), n) else (s, n))"

definition st_get_allocated :: "storage \<Rightarrow> nat \<Rightarrow> nat \<Rightarrow> bytes option" where
  "st_get_allocated s offset sz =
     (if st_len s \<le> offset then Some []
      else let pos = st_head s + offset in
        case om_upto pos (st_blocks s) of
          None \<Rightarrow> None
        | Some (start, b) \<Rightarrow>
            let local = pos - start in
            if \<not> local < length b then None
            else Some (rslice local (min (length b) (local + min sz (st_len s - offset))) b))"

fun st_segment_len_loop :: "nat \<Rightarrow> storage \<Rightarrow> nat \<Rightarrow> nat \<Rightarrow> nat option" where
  "st_segment_len_loop 0 s position e = Some position"
| "st_segment_len_loop (Suc n) s position e =
     (if position = e then Some position
      else case st_get_allocated s position (e - position) of
        None \<Rightarrow> None
      | Some part \<Rightarrow>
          if part = [] then None else st_segment_len_loop n s (position + length part) e)"

definition st_segment_len :: "storage \<Rightarrow> nat \<Rightarrow> nat \<Rightarrow> nat option" where
  "st_segment_len s offset sz =
     map_option (\<lambda>position. position - offset)
       (st_segment_len_loop 64 s offset (offset + min sz (st_len s - offset)))"

text \<open>The closure of \<open>get_segment\<close> that gathers a segment crossing block boundaries.\<close>

function st_gather :: "storage \<Rightarrow> nat \<Rightarrow> nat \<Rightarrow> nat \<Rightarrow> bytes option" where
  "st_gather s offset wanted n =
     (if n < wanted then
        case st_get_allocated s (offset + n) (wanted - n) of
          None \<Rightarrow> None
        | Some b \<Rightarrow> if b = [] then None
                    else map_option ((@) b) (st_gather s offset wanted (n + length b))
      else Some [])"
  by pat_completeness auto
termination
  by (relation "measure (\<lambda>(s, offset, wanted, n). wanted - n)") (auto simp: neq_Nil_conv)

definition st_get_segment :: "storage \<Rightarrow> nat \<Rightarrow> nat \<Rightarrow> (bytes \<times> storage) option" where
  "st_get_segment s offset sz =
     (let wanted = min sz (st_len s - offset) in
      case st_get_allocated s offset wanted of
        None \<Rightarrow> None
      | Some part \<Rightarrow>
          if length part = wanted then Some (part, s)
          else map_option (\<lambda>out. (out, s\<lparr>st_scratch := out\<rparr>)) (st_gather s offset wanted 0))"

function st_read_loop :: "storage \<Rightarrow> nat \<Rightarrow> nat \<Rightarrow> nat \<Rightarrow> bytes option" where
  "st_read_loop s offset out_len n =
     (if n < out_len then
        case st_get_allocated s (offset + n) (out_len - n) of
          None \<Rightarrow> None
        | Some part \<Rightarrow> if part = [] then Some []
                       else map_option ((@) part) (st_read_loop s offset out_len (n + length part))
      else Some [])"
  by pat_completeness auto
termination
  by (relation "measure (\<lambda>(s, offset, out_len, n). out_len - n)") (auto simp: neq_Nil_conv)

text \<open>\<open>read_allocated\<close> gives the bytes it copied into \<open>out\<close>; their number is its result.\<close>

definition st_read_allocated :: "storage \<Rightarrow> nat \<Rightarrow> nat \<Rightarrow> bytes option" where
  "st_read_allocated s offset out_len = st_read_loop s offset out_len 0"

definition st_write_unallocated :: "storage \<Rightarrow> nat \<Rightarrow> region \<Rightarrow> storage \<times> nat" where
  "st_write_unallocated s offset data =
     (if snd data \<noteq> [] then
        let shared = (case st_source s of None \<Rightarrow> None | Some source \<Rightarrow> view source data);
            b = (case shared of None \<Rightarrow> snd data | Some b \<Rightarrow> b)
        in (s\<lparr>st_blocks := st_insert (st_blocks s) (st_head s + st_len s + offset) b\<rparr>,
            length (snd data))
      else (s, length (snd data)))"

definition st_enqueue_unallocated :: "storage \<Rightarrow> nat \<Rightarrow> storage" where
  "st_enqueue_unallocated s count = s\<lparr>st_len := st_len s + count\<rparr>"

function st_dequeue_loop :: "nat \<Rightarrow> bytes omap \<Rightarrow> bytes omap" where
  "st_dequeue_loop e m =
     (case om_first m of
        None \<Rightarrow> m
      | Some (start, b) \<Rightarrow>
          if e \<le> start then m
          else let m' = om_remove start m in
            st_dequeue_loop e
              (if e < start + length b then om_insert e (drop (e - start) b) m' else m'))"
  by pat_completeness auto
termination
proof (relation "measure (\<lambda>(e, m). om_count_in 0 e m)", goal_cases)
  case 1
  show ?case by simp
next
  case (2 e m p start b m')
  then have "om_first_in 0 e m = Some (start, b)"
    by (auto simp: om_first_def om_first_in_def split: list.splits)
  then have "om_count_in 0 e m' < om_count_in 0 e m"
    using om_count_remove 2 by metis
  then show ?case
    using om_count_insert_outside [of 0 e e "drop (e - start) b" m'] by auto
qed

definition st_dequeue_allocated :: "storage \<Rightarrow> nat \<Rightarrow> storage option" where
  "st_dequeue_allocated s count =
     (if st_len s < count then None
      else
        let e = st_head s + count;
            s1 = s\<lparr>st_blocks := st_dequeue_loop e (st_blocks s), st_head := e,
                   st_len := st_len s - count\<rparr>;
            s2 = (if st_len s1 = 0 then s1\<lparr>st_scratch := []\<rparr> else s1)
        in if st_tx s \<and> count \<noteq> 0
           then if st_outstanding s < count then None
                else Some (s2\<lparr>st_outstanding := st_outstanding s - count,
                              st_released := wrapping_add (st_released s) count\<rparr>)
           else Some s2)"

definition st_dequeue_slice :: "storage \<Rightarrow> nat \<Rightarrow> (bytes \<times> storage) option" where
  "st_dequeue_slice s out_len =
     (case st_read_allocated s 0 out_len of
        None \<Rightarrow> None
      | Some out \<Rightarrow> map_option (Pair out) (st_dequeue_allocated s (length out)))"

definition st_clear :: "storage \<Rightarrow> storage option" where
  "st_clear s =
     map_option (\<lambda>s'. s'\<lparr>st_blocks := [], st_head := 0, st_len := 0\<rparr>)
       (if st_tx s then st_dequeue_allocated s (st_len s) else Some s)"

declare st_segments_loop.simps [simp del] st_insert_clear.simps [simp del]
  st_gather.simps [simp del] st_read_loop.simps [simp del] st_dequeue_loop.simps [simp del]

section \<open>The byte at a logical offset\<close>

definition byte_at :: "bytes omap \<Rightarrow> nat \<Rightarrow> byte option" where
  "byte_at m p =
     (case om_upto p m of
        None \<Rightarrow> None
      | Some (start, b) \<Rightarrow> if p - start < length b then Some (b ! (p - start)) else None)"

text \<open>Blocks are not empty and do not overlap.\<close>

definition blocks_ok :: "bytes omap \<Rightarrow> bool" where
  "blocks_ok m \<longleftrightarrow> sorted_wrt (\<lambda>x y. fst x + length (snd x) \<le> fst y) m \<and> list_all (\<lambda>x. snd x \<noteq> []) m"

definition st_ok :: "storage \<Rightarrow> bool" where
  "st_ok s \<longleftrightarrow> blocks_ok (st_blocks s) \<and> list_all (\<lambda>(k, b). st_head s \<le> k) (st_blocks s) \<and>
     list_all (\<lambda>p. byte_at (st_blocks s) p \<noteq> None) [st_head s ..< st_head s + st_len s]"

definition published :: "storage \<Rightarrow> bytes" where
  "published s = map (\<lambda>p. the (byte_at (st_blocks s) p)) [st_head s ..< st_head s + st_len s]"

text \<open>The out-of-order byte at an offset behind the published prefix.\<close>

definition ahead :: "storage \<Rightarrow> nat \<Rightarrow> byte option" where
  "ahead s i = byte_at (st_blocks s) (st_head s + st_len s + i)"

section \<open>Blocks through the contract of the ordered map\<close>

lemma blocks_ok_invar [simp]: "blocks_ok m \<Longrightarrow> om_invar m"
  by (induction m) (force simp: blocks_ok_def om_invar_def neq_Nil_conv)+

lemma blocks_ok_pairs:
  assumes "blocks_ok m" "(k, b) \<in> set m" "(k', b') \<in> set m" "k < k'"
  shows "k + length b \<le> k'"
proof -
  obtain i j where i: "i < length m" "m ! i = (k, b)" and j: "j < length m" "m ! j = (k', b')"
    using assms(2,3) by (metis in_set_conv_nth)
  have R: "i' < j' \<Longrightarrow> j' < length m \<Longrightarrow> fst (m ! i') + length (snd (m ! i')) \<le> fst (m ! j')" for i' j'
    using assms(1) by (auto simp: blocks_ok_def dest: sorted_wrt_nth_less)
  show ?thesis
  proof (cases "i < j")
    case True
    with R [of i j] i j show ?thesis by simp
  next
    case False
    then have "i = j \<or> j < i" by linarith
    with R [of j i] i j \<open>k < k'\<close> show ?thesis by auto
  qed
qed

lemma blocks_ok_iff:
  "blocks_ok m \<longleftrightarrow> om_invar m \<and> (\<forall>k b. om_lookup m k = Some b \<longrightarrow> b \<noteq> []) \<and>
     (\<forall>k b k' b'. om_lookup m k = Some b \<longrightarrow> om_lookup m k' = Some b' \<longrightarrow> k < k' \<longrightarrow> k + length b \<le> k')"
  (is "_ \<longleftrightarrow> _ \<and> ?ne \<and> ?dis")
proof
  assume ok: "blocks_ok m"
  then have inv: "om_invar m" by simp
  have "?ne" using ok by (fastforce simp: om_lookup_mem inv blocks_ok_def list_all_iff)
  moreover have "?dis" using blocks_ok_pairs [OF ok] by (simp add: om_lookup_mem inv)
  ultimately show "om_invar m \<and> ?ne \<and> ?dis" using inv by blast
next
  assume R: "om_invar m \<and> ?ne \<and> ?dis"
  then have "sorted_wrt (\<lambda>x y. fst x < fst y) m" by (simp add: om_invar_def sorted_wrt_map)
  then have "sorted_wrt (\<lambda>x y. fst x + length (snd x) \<le> fst y) m"
    by (rule sorted_wrt_mono_rel [rotated]) (metis R om_lookup_mem prod.collapse)
  moreover have "list_all (\<lambda>x. snd x \<noteq> []) m" using R by (auto simp: om_lookup_mem list_all_iff)
  ultimately show "blocks_ok m" by (simp add: blocks_ok_def)
qed

lemma blocks_ok_nonempty: "blocks_ok m \<Longrightarrow> om_lookup m k = Some b \<Longrightarrow> b \<noteq> []"
  by (simp add: blocks_ok_iff)

lemma blocks_ok_disjoint:
  "blocks_ok m \<Longrightarrow> om_lookup m k = Some b \<Longrightarrow> om_lookup m k' = Some b' \<Longrightarrow> k < k' \<Longrightarrow>
     k + length b \<le> k'"
  by (simp add: blocks_ok_iff)

lemma upto_Some:
  "blocks_ok m \<Longrightarrow> om_upto p m = Some (k, b) \<longleftrightarrow>
     k \<le> p \<and> om_lookup m k = Some b \<and> (\<forall>j. k < j \<and> j \<le> p \<longrightarrow> om_lookup m j = None)"
  by (simp add: om_upto_def bt.before_Some less_Suc_eq_le)

lemma upto_covering:
  assumes "blocks_ok m" "om_lookup m k = Some b" "k \<le> p" "p < k + length b"
  shows "om_upto p m = Some (k, b)"
proof -
  have "om_lookup m j = None" if "k < j" "j \<le> p" for j
    using that assms blocks_ok_disjoint [of m k b j] by (cases "om_lookup m j") auto
  with assms show ?thesis by (auto simp: upto_Some)
qed

lemma byte_at_iff:
  assumes "blocks_ok m"
  shows "byte_at m p = Some x \<longleftrightarrow>
    (\<exists>k b. om_lookup m k = Some b \<and> k \<le> p \<and> p < k + length b \<and> b ! (p - k) = x)"
proof
  assume "byte_at m p = Some x"
  then obtain k b where kb: "om_upto p m = Some (k, b)" "p - k < length b" "b ! (p - k) = x"
    by (auto simp: byte_at_def split: option.splits prod.splits if_splits)
  moreover have "k \<le> p" "om_lookup m k = Some b" using kb(1) assms by (simp_all add: upto_Some)
  ultimately show "\<exists>k b. om_lookup m k = Some b \<and> k \<le> p \<and> p < k + length b \<and> b ! (p - k) = x"
    by (intro exI [of _ k] exI [of _ b]) linarith
next
  assume "\<exists>k b. om_lookup m k = Some b \<and> k \<le> p \<and> p < k + length b \<and> b ! (p - k) = x"
  then show "byte_at m p = Some x"
    using upto_covering [OF assms] by (fastforce simp: byte_at_def)
qed

lemma byte_at_in_block:
  "blocks_ok m \<Longrightarrow> om_lookup m k = Some b \<Longrightarrow> k \<le> p \<Longrightarrow> p < k + length b \<Longrightarrow>
     byte_at m p = Some (b ! (p - k))"
  by (auto simp: byte_at_iff)

lemma byte_at_None:
  "blocks_ok m \<Longrightarrow> byte_at m p = None \<longleftrightarrow>
     (\<forall>k b. om_lookup m k = Some b \<longrightarrow> k \<le> p \<longrightarrow> k + length b \<le> p)"
  by (metis byte_at_iff not_None_eq not_le)

text \<open>The range \<open>[s, s + n)\<close> holds no byte of a block.\<close>

definition free_range :: "bytes omap \<Rightarrow> nat \<Rightarrow> nat \<Rightarrow> bool" where
  "free_range m s n \<longleftrightarrow> (\<forall>k b. om_lookup m k = Some b \<longrightarrow> k + length b \<le> s \<or> s + n \<le> k)"

lemma blocks_ok_remove [simp]: "blocks_ok m \<Longrightarrow> blocks_ok (om_remove k m)"
  by (auto simp: blocks_ok_iff bt.lookup_remove bt.invar_remove split: if_splits)

lemma byte_at_remove:
  assumes "blocks_ok m" "om_lookup m k = Some b"
  shows "byte_at (om_remove k m) p = (if k \<le> p \<and> p < k + length b then None else byte_at m p)"
proof (cases "k \<le> p \<and> p < k + length b")
  case True
  have "j + length c \<le> p" if "om_lookup m j = Some c" "j \<noteq> k" "j \<le> p" for j c
    using that True assms blocks_ok_disjoint [of m j c k b] blocks_ok_disjoint [of m k b j c]
    by (cases "j < k") auto
  with True assms show ?thesis by (simp add: byte_at_None bt.lookup_remove)
next
  case False
  have "byte_at (om_remove k m) p = Some x \<longleftrightarrow> byte_at m p = Some x" for x
    unfolding byte_at_iff [OF blocks_ok_remove [OF assms(1)]] byte_at_iff [OF assms(1)]
    using False assms(2) bt.lookup_remove [OF blocks_ok_invar [OF assms(1)], of k]
    by (metis fun_upd_apply option.distinct(1) option.inject)
  with False show ?thesis by (metis not_None_eq)
qed

lemma free_range_lookup:
  assumes "free_range m s n" "0 < n" "blocks_ok m"
  shows "om_lookup m s = None"
proof (cases "om_lookup m s")
  case (Some b)
  moreover have "s + length b \<le> s \<or> s + n \<le> s" using assms(1) Some unfolding free_range_def by blast
  ultimately show ?thesis using assms blocks_ok_nonempty [of m s b] by simp
qed

lemma blocks_ok_insert:
  assumes "blocks_ok m" "b \<noteq> []" "free_range m s (length b)"
  shows "blocks_ok (om_insert s b m)"
proof -
  have s: "om_lookup m s = None" using assms by (simp add: free_range_lookup)
  have inv: "om_invar m" using assms by simp
  have "j + length c \<le> s" if "om_lookup m j = Some c" "j < s" for j c
    using that assms(3) by (force simp: free_range_def)
  moreover have "s + length b \<le> j" if "om_lookup m j = Some c" "s < j" for j c
    using that assms(3) by (force simp: free_range_def)
  ultimately show ?thesis
    using assms(1,2) inv
    by (simp add: blocks_ok_iff bt.lookup_insert bt.invar_insert) blast
qed

lemma byte_at_insert:
  assumes "blocks_ok m" "b \<noteq> []" "free_range m s (length b)"
  shows "byte_at (om_insert s b m) p =
    (if s \<le> p \<and> p < s + length b then Some (b ! (p - s)) else byte_at m p)"
proof -
  have s: "om_lookup m s = None" using assms by (simp add: free_range_lookup)
  have ok: "blocks_ok (om_insert s b m)" using assms by (rule blocks_ok_insert)
  have lk: "om_lookup (om_insert s b m) = (om_lookup m)(s \<mapsto> b)"
    using assms by (simp add: bt.lookup_insert)
  show ?thesis
  proof (cases "s \<le> p \<and> p < s + length b")
    case True
    then show ?thesis using byte_at_in_block [OF ok, of s b] lk by simp
  next
    case False
    have "byte_at (om_insert s b m) p = Some x \<longleftrightarrow> byte_at m p = Some x" for x
      unfolding byte_at_iff [OF ok] byte_at_iff [OF assms(1)] lk
      using False s by (metis fun_upd_apply option.distinct(1) option.inject)
    with False show ?thesis by (metis not_None_eq)
  qed
qed

section \<open>Cutting blocks\<close>

text \<open>
  The step the three loops share: take out a block that starts before \<open>e\<close> and put back the part
  of it from \<open>e\<close> on.
\<close>

abbreviation trim :: "nat \<Rightarrow> bytes \<Rightarrow> nat \<Rightarrow> bytes omap \<Rightarrow> bytes omap" where
  "trim key old e m \<equiv>
     (if e < key + length old then om_insert e (drop (e - key) old) (om_remove key m)
      else om_remove key m)"

lemma trim_free:
  assumes "blocks_ok m" "om_lookup m key = Some old" "key < e" "e < key + length old"
  shows "free_range (om_remove key m) e (length (drop (e - key) old))"
  unfolding free_range_def
proof (intro allI impI)
  fix k b assume "om_lookup (om_remove key m) k = Some b"
  then have k: "om_lookup m k = Some b" "k \<noteq> key"
    using assms by (auto simp: bt.lookup_remove split: if_splits)
  show "k + length b \<le> e \<or> e + length (drop (e - key) old) \<le> k"
    using k assms blocks_ok_disjoint [of m k b key old] blocks_ok_disjoint [of m key old k b]
    by (cases "k < key") auto
qed

lemma blocks_ok_trim:
  assumes "blocks_ok m" "om_lookup m key = Some old" "key < e"
  shows "blocks_ok (trim key old e m)"
proof (cases "e < key + length old")
  case True
  then have "blocks_ok (om_insert e (drop (e - key) old) (om_remove key m))"
    using trim_free [OF assms True] assms by (intro blocks_ok_insert) auto
  with True show ?thesis by simp
next
  case False
  with assms show ?thesis by simp
qed

lemma byte_at_trim:
  assumes "blocks_ok m" "om_lookup m key = Some old" "key < e"
  shows "byte_at (trim key old e m) p =
    (if key \<le> p \<and> p < e \<and> p < key + length old then None else byte_at m p)"
proof (cases "e < key + length old")
  case True
  have "byte_at (om_insert e (drop (e - key) old) (om_remove key m)) p =
      (if e \<le> p \<and> p < e + length (drop (e - key) old) then Some (drop (e - key) old ! (p - e))
       else byte_at (om_remove key m) p)"
    using True assms by (intro byte_at_insert trim_free) auto
  then show ?thesis
    using True assms byte_at_remove [OF assms(1,2), of p] byte_at_in_block [OF assms(1,2), of p]
    by auto
next
  case False
  then show ?thesis using assms byte_at_remove [OF assms(1,2), of p] by auto
qed

lemma lookup_trim:
  assumes "blocks_ok m"
  shows "om_lookup (trim key old e m) k =
    (if e < key + length old \<and> k = e then Some (drop (e - key) old)
     else if k = key then None else om_lookup m k)"
  using assms by (simp add: bt.lookup_insert bt.lookup_remove bt.invar_remove)

subsection \<open>Insertion overlays the written range\<close>

lemma st_insert_clear_ok:
  assumes "blocks_ok m" "start \<le> e" "\<forall>k b. om_lookup m k = Some b \<longrightarrow> k < start \<longrightarrow> k + length b \<le> start"
  shows "blocks_ok (st_insert_clear start e m) \<and>
    free_range (st_insert_clear start e m) start (e - start) \<and>
    (\<forall>p. p < start \<or> e \<le> p \<longrightarrow> byte_at (st_insert_clear start e m) p = byte_at m p)"
  using assms
proof (induction start e m rule: st_insert_clear.induct)
  case (1 start e m)
  show ?case
  proof (cases "om_first_in start e m")
    case None
    then have "\<And>k. start \<le> k \<Longrightarrow> k < e \<Longrightarrow> om_lookup m k = None"
      using "1.prems" by (simp add: bt.first_None)
    then have "free_range m start (e - start)"
      using "1.prems" unfolding free_range_def
      by (metis le_add_diff_inverse not_le option.distinct(1))
    with None "1.prems" show ?thesis by (simp add: st_insert_clear.simps [of start e m])
  next
    case (Some entry)
    then obtain key old where f: "om_first_in start e m = Some (key, old)" by (cases entry) auto
    then have key: "start \<le> key" "key < e" "om_lookup m key = Some old"
      using "1.prems" by (simp_all add: bt.first_Some)
    let ?t = "trim key old e m"
    have ok: "blocks_ok ?t" using "1.prems" key by (intro blocks_ok_trim)
    have low: "\<forall>k b. om_lookup ?t k = Some b \<longrightarrow> k < start \<longrightarrow> k + length b \<le> start"
      using "1.prems" key lookup_trim [OF "1.prems"(1), where key = key and old = old and e = e] by (auto split: if_splits)
    note IH = "1.IH" [OF f refl refl ok "1.prems"(2) low]
    have keep: "p < start \<or> e \<le> p \<Longrightarrow> byte_at ?t p = byte_at m p" for p
      using byte_at_trim [OF "1.prems"(1) key(3,2), of p] key(1) by auto
    show ?thesis
      using IH keep by (simp add: st_insert_clear.simps [of start e m] f Let_def)
  qed
qed

lemma st_insert_ok_aux:
  assumes "blocks_ok m" "start \<le> e"
  defines "m1 \<equiv> (case om_before start m of
      None \<Rightarrow> m
    | Some (key, old) \<Rightarrow>
        if start < key + length old
        then om_insert key (take (start - key) old) (trim key old e m) else m)"
  shows "blocks_ok m1 \<and> (\<forall>k b. om_lookup m1 k = Some b \<longrightarrow> k < start \<longrightarrow> k + length b \<le> start) \<and>
    (\<forall>p. p < start \<or> e \<le> p \<longrightarrow> byte_at m1 p = byte_at m p)"
proof (cases "om_before start m")
  case None
  with assms(1) have "\<forall>k < start. om_lookup m k = None" by (simp add: bt.before_None)
  with None assms(1) show ?thesis by (auto simp: m1_def)
next
  case (Some entry)
  then obtain key old where f: "om_before start m = Some (key, old)" by (cases entry) auto
  have key: "key < start" "om_lookup m key = Some old"
    and latest: "\<And>j. key < j \<Longrightarrow> j < start \<Longrightarrow> om_lookup m j = None"
    using f assms(1) by (simp_all add: bt.before_Some)
  have low: "k + length b \<le> key" if "om_lookup m k = Some b" "k < start" "k \<noteq> key" for k b
    using that latest [of k] key blocks_ok_disjoint [OF assms(1), of k b key old]
    by (cases "k < key") auto
  show ?thesis
  proof (cases "start < key + length old")
    case False
    with low key have "k + length b \<le> start" if "om_lookup m k = Some b" "k < start" for k b
      using that by (cases "k = key") fastforce+
    with False f assms(1) show ?thesis by (simp add: m1_def)
  next
    case True
    let ?t = "trim key old e m" and ?b = "take (start - key) old"
    have ke: "key < e" using key assms(2) by simp
    have len: "length ?b = start - key" using True key by simp
    have ne: "?b \<noteq> []" using key True by auto
    have ok: "blocks_ok ?t" using assms(1) key(2) ke by (rule blocks_ok_trim)
    have free: "free_range ?t key (length ?b)"
      unfolding free_range_def len lookup_trim [OF assms(1)]
      using low assms(2) True latest key
      by (auto split: if_splits)
    have m1: "m1 = om_insert key ?b ?t" using True f by (simp add: m1_def)
    have lk: "om_lookup m1 k = Some b \<Longrightarrow> k < start \<Longrightarrow> k + length b \<le> start" for k b
      using low [of k b] key len assms(2) lookup_trim [OF assms(1), where key = key and old = old and e = e and k = k]
      by (auto simp: m1 bt.lookup_insert [OF blocks_ok_invar [OF ok]] split: if_splits)
    have "byte_at m1 p = byte_at m p" if "p < start \<or> e \<le> p" for p
      using that len key byte_at_trim [OF assms(1) key(2) ke, of p] True
        byte_at_in_block [OF assms(1) key(2), of p] byte_at_insert [OF ok ne free, of p]
      by (auto simp: m1)
    then show ?thesis using blocks_ok_insert [OF ok ne free] lk by (auto simp: m1)
  qed
qed

lemma st_insert_overlay:
  assumes "blocks_ok m" "b \<noteq> []"
  shows "blocks_ok (st_insert m start b)"
    and "byte_at (st_insert m start b) p =
      (if start \<le> p \<and> p < start + length b then Some (b ! (p - start)) else byte_at m p)"
proof -
  let ?e = "start + length b"
  define m1 where "m1 = (case om_before start m of
      None \<Rightarrow> m
    | Some (key, old) \<Rightarrow>
        if start < key + length old
        then om_insert key (take (start - key) old) (trim key old ?e m) else m)"
  have se: "start \<le> ?e" by simp
  have m1: "blocks_ok m1" "\<forall>k b. om_lookup m1 k = Some b \<longrightarrow> k < start \<longrightarrow> k + length b \<le> start"
      "\<forall>p. p < start \<or> ?e \<le> p \<longrightarrow> byte_at m1 p = byte_at m p"
    using st_insert_ok_aux [OF assms(1) se] unfolding m1_def by blast+
  let ?c = "st_insert_clear start ?e m1"
  note c = st_insert_clear_ok [OF m1(1) se m1(2)]
  then have free: "free_range ?c start (length b)" by simp
  have eq: "st_insert m start b = om_insert start b ?c"
    unfolding st_insert_def m1_def Let_def ..
  show "blocks_ok (st_insert m start b)"
    unfolding eq using c assms(2) free by (intro blocks_ok_insert) auto
  show "byte_at (st_insert m start b) p =
      (if start \<le> p \<and> p < start + length b then Some (b ! (p - start)) else byte_at m p)"
    unfolding eq using c m1(3) byte_at_insert [of ?c b start p] assms(2) free by auto
qed

section \<open>The published prefix\<close>

definition span :: "bytes omap \<Rightarrow> nat \<Rightarrow> nat \<Rightarrow> bytes" where
  "span m a b = map (\<lambda>p. the (byte_at m p)) [a..<b]"

lemma published_span: "published s = span (st_blocks s) (st_head s) (st_head s + st_len s)"
  by (simp add: published_def span_def)

lemma length_span [simp]: "length (span m a b) = b - a"
  by (simp add: span_def)

lemma length_published [simp]: "length (published s) = st_len s"
  by (simp add: published_span)

lemma span_append: "a \<le> b \<Longrightarrow> b \<le> c \<Longrightarrow> span m a b @ span m b c = span m a c"
  unfolding span_def by (rule map_upt_append)

lemma span_empty [simp]: "b \<le> a \<Longrightarrow> span m a b = []"
  by (simp add: span_def)

lemma span_eq_Nil [simp]: "span m a b = [] \<longleftrightarrow> b \<le> a"
  by (auto simp: span_def)

lemma take_span: "take n (span m a b) = span m a (min (a + n) b)"
  by (cases "a + n \<le> b") (simp_all add: span_def take_map take_upt min_def)

lemma drop_span: "drop n (span m a b) = span m (a + n) b"
  by (simp add: span_def drop_map)

lemma span_cong: "(\<And>p. a \<le> p \<Longrightarrow> p < b \<Longrightarrow> byte_at m p = byte_at m' p) \<Longrightarrow> span m a b = span m' a b"
  by (simp add: span_def)

lemma slice_block_span:
  assumes "blocks_ok m" "om_lookup m start = Some b" "start \<le> p" "p + n \<le> start + length b"
  shows "rslice (p - start) (p - start + n) b = span m p (p + n)"
proof (rule nth_equalityI)
  show "length (rslice (p - start) (p - start + n) b) = length (span m p (p + n))"
    using assms by simp
next
  fix i assume "i < length (rslice (p - start) (p - start + n) b)"
  then have i: "i < n" by simp
  then have "rslice (p - start) (p - start + n) b ! i = b ! (p - start + i)"
    using assms by (simp add: nth_slice)
  moreover have "byte_at m (p + i) = Some (b ! (p + i - start))"
    using assms i by (intro byte_at_in_block) auto
  ultimately show "rslice (p - start) (p - start + n) b ! i = span m p (p + n) ! i"
    using i assms(3) by (simp add: span_def)
qed

lemma st_ok_byte: "st_ok s \<Longrightarrow> st_head s \<le> p \<Longrightarrow> p < st_head s + st_len s \<Longrightarrow> byte_at (st_blocks s) p \<noteq> None"
  by (auto simp: st_ok_def list_all_iff)

lemma st_ok_blocks [simp]: "st_ok s \<Longrightarrow> blocks_ok (st_blocks s)"
  by (simp add: st_ok_def)

lemma st_ok_above: "st_ok s \<Longrightarrow> om_lookup (st_blocks s) k = Some b \<Longrightarrow> st_head s \<le> k"
  by (auto simp: st_ok_def list_all_iff om_lookup_mem)

lemma st_okI:
  assumes "blocks_ok (st_blocks s)"
    and "\<And>k b. om_lookup (st_blocks s) k = Some b \<Longrightarrow> st_head s \<le> k"
    and "\<And>p. st_head s \<le> p \<Longrightarrow> p < st_head s + st_len s \<Longrightarrow> byte_at (st_blocks s) p \<noteq> None"
  shows "st_ok s"
proof -
  have "\<forall>(k, b) \<in> set (st_blocks s). st_head s \<le> k"
    using assms(2) om_lookup_mem [OF blocks_ok_invar [OF assms(1)]] by fast
  with assms(1,3) show ?thesis by (simp add: st_ok_def list_all_iff)
qed

lemma covering_block:
  assumes "blocks_ok m" "byte_at m p \<noteq> None"
  obtains start b where "om_upto p m = Some (start, b)" "om_lookup m start = Some b"
    "start \<le> p" "p < start + length b"
proof -
  obtain x where "byte_at m p = Some x" using assms(2) by auto
  then obtain k b where kb: "om_lookup m k = Some b" "k \<le> p" "p < k + length b"
    using assms(1) by (auto simp: byte_at_iff)
  from upto_covering [OF assms(1) kb] kb show ?thesis by (intro that)
qed

subsection \<open>Reading\<close>

lemma min_shift: "q \<le> l \<Longrightarrow> min l (q + z) = q + min (l - q) z" for l q z :: nat
  by auto

lemma st_get_allocated_spec:
  assumes "st_ok s" "offset < st_len s"
  shows "\<exists>n. st_get_allocated s offset sz = Some (take n (drop offset (published s))) \<and>
    n \<le> sz \<and> n \<le> st_len s - offset \<and> (0 < sz \<longrightarrow> 0 < n)"
proof -
  let ?p = "st_head s + offset"
  have "byte_at (st_blocks s) ?p \<noteq> None" using assms by (intro st_ok_byte) auto
  then obtain start b where f: "om_upto ?p (st_blocks s) = Some (start, b)"
    "om_lookup (st_blocks s) start = Some b" "start \<le> ?p" "?p < start + length b"
    using assms(1) by (metis covering_block st_ok_blocks)
  define n where "n = min (length b - (?p - start)) (min sz (st_len s - offset))"
  have n: "n \<le> length b - (?p - start)" "n \<le> sz" "n \<le> st_len s - offset"
    by (simp_all add: n_def)
  have pos: "0 < sz \<Longrightarrow> 0 < n" using f(3,4) assms(2) by (simp add: n_def)
  have eq: "min (length b) (?p - start + min sz (st_len s - offset)) = ?p - start + n"
    unfolding n_def using f(3,4) by (intro min_shift) simp
  have "\<not> st_len s \<le> offset" "?p - start < length b" using assms(2) f(3,4) by auto
  then have "st_get_allocated s offset sz = Some (rslice (?p - start) (?p - start + n) b)"
    unfolding st_get_allocated_def Let_def f(1) option.case prod.case eq by simp
  also have "rslice (?p - start) (?p - start + n) b = span (st_blocks s) ?p (?p + n)"
    using assms(1) f(2-4) n(1) by (intro slice_block_span) simp_all
  also have "\<dots> = take n (drop offset (published s))"
    using n(3) assms(2) by (simp add: published_span take_span drop_span)
  finally show ?thesis using n pos by blast
qed

lemma st_get_allocated_end [simp]: "st_len s \<le> offset \<Longrightarrow> st_get_allocated s offset sz = Some []"
  by (simp add: st_get_allocated_def)

lemma take_append_drop_take:
  "k \<le> n \<Longrightarrow> take k (drop i xs) @ take (n - k) (drop (i + k) xs) = take n (drop i xs)"
  using take_add [of k "n - k" "drop i xs"] by (simp add: add.commute)

lemma st_read_loop_spec:
  assumes "st_ok s"
  shows "st_read_loop s offset out_len n = Some (take (out_len - n) (drop (offset + n) (published s)))"
  using assms
proof (induction s offset out_len n rule: st_read_loop.induct)
  case (1 s offset out_len n)
  show ?case
  proof (cases "n < out_len \<and> offset + n < st_len s")
    case True
    then obtain k where k: "st_get_allocated s (offset + n) (out_len - n) =
        Some (take k (drop (offset + n) (published s)))"
      "k \<le> out_len - n" "k \<le> st_len s - (offset + n)" "0 < k"
      using st_get_allocated_spec [OF "1.prems", of "offset + n" "out_len - n"] by auto
    have len: "length (take k (drop (offset + n) (published s))) = k" using k(3) by simp
    have ne: "take k (drop (offset + n) (published s)) \<noteq> []" using len k(4) by auto
    have "st_read_loop s offset out_len (n + k) =
        Some (take (out_len - (n + k)) (drop (offset + (n + k)) (published s)))"
      using "1.IH" [OF _ k(1) ne] True "1.prems" unfolding len by simp
    then have "st_read_loop s offset out_len n =
        Some (take k (drop (offset + n) (published s)) @
          take (out_len - n - k) (drop (offset + n + k) (published s)))"
      using True ne unfolding st_read_loop.simps [of s offset out_len n] k(1)
      by (simp only: option.case len if_True if_False) (simp add: add.assoc)
    then show ?thesis using take_append_drop_take [OF k(2)] by simp
  next
    case False
    then show ?thesis by (auto simp: st_read_loop.simps [of s offset out_len n])
  qed
qed

lemma st_read_allocated_spec:
  assumes "st_ok s"
  shows "st_read_allocated s offset n = Some (take n (drop offset (published s)))"
  unfolding st_read_allocated_def by (simp add: st_read_loop_spec [OF assms])

lemma st_gather_spec:
  assumes "st_ok s" "offset + wanted \<le> st_len s"
  shows "st_gather s offset wanted n = Some (take (wanted - n) (drop (offset + n) (published s)))"
  using assms
proof (induction s offset wanted n rule: st_gather.induct)
  case (1 s offset wanted n)
  show ?case
  proof (cases "n < wanted")
    case True
    with "1.prems" have "offset + n < st_len s" by simp
    then obtain k where k: "st_get_allocated s (offset + n) (wanted - n) =
        Some (take k (drop (offset + n) (published s)))"
      "k \<le> wanted - n" "k \<le> st_len s - (offset + n)" "0 < k"
      using st_get_allocated_spec [OF "1.prems"(1), of "offset + n" "wanted - n"] True by auto
    have len: "length (take k (drop (offset + n) (published s))) = k" using k(3) by simp
    have ne: "take k (drop (offset + n) (published s)) \<noteq> []" using len k(4) by auto
    have "st_gather s offset wanted (n + k) =
        Some (take (wanted - (n + k)) (drop (offset + (n + k)) (published s)))"
      using "1.IH" [OF True k(1) ne] "1.prems" unfolding len by simp
    then have "st_gather s offset wanted n =
        Some (take k (drop (offset + n) (published s)) @
          take (wanted - n - k) (drop (offset + n + k) (published s)))"
      using True ne unfolding st_gather.simps [of s offset wanted n] k(1)
      by (simp only: option.case len if_True if_False) (simp add: add.assoc)
    then show ?thesis using take_append_drop_take [OF k(2)] by simp
  next
    case False
    then show ?thesis by (simp add: st_gather.simps [of s offset wanted n])
  qed
qed

lemma st_get_segment_spec:
  assumes "st_ok s"
  shows "\<exists>s'. st_get_segment s offset sz = Some (take sz (drop offset (published s)), s') \<and>
    (s' = s \<or> (\<exists>out. s' = s\<lparr>st_scratch := out\<rparr>))"
proof (cases "offset < st_len s")
  case False
  then show ?thesis by (simp add: st_get_segment_def)
next
  case True
  define w where "w = min sz (st_len s - offset)"
  obtain n where n: "st_get_allocated s offset w = Some (take n (drop offset (published s)))"
    "n \<le> w" "n \<le> st_len s - offset"
    using st_get_allocated_spec [OF assms True, of w] by blast
  have w: "take sz (drop offset (published s)) = take w (drop offset (published s))"
    by (simp add: w_def min_def)
  have "offset + w \<le> st_len s" using True by (simp add: w_def)
  then have g: "st_gather s offset w 0 = Some (take w (drop offset (published s)))"
    using st_gather_spec [OF assms, of offset w 0] by simp
  show ?thesis
  proof (cases "n = w")
    case True
    then show ?thesis using n by (simp add: st_get_segment_def w flip: w_def)
  next
    case False
    then show ?thesis using n g by (simp add: st_get_segment_def w flip: w_def) blast
  qed
qed

subsection \<open>Consuming\<close>

lemma st_dequeue_loop_ok:
  assumes "blocks_ok m"
  shows "blocks_ok (st_dequeue_loop e m) \<and>
    (\<forall>k b. om_lookup (st_dequeue_loop e m) k = Some b \<longrightarrow> e \<le> k) \<and>
    (\<forall>p. e \<le> p \<longrightarrow> byte_at (st_dequeue_loop e m) p = byte_at m p)"
  using assms
proof (induction e m rule: st_dequeue_loop.induct)
  case (1 e m)
  show ?case
  proof (cases "om_first m")
    case None
    then have "om_lookup m = Map.empty" using "1.prems" by (simp add: bt.least_None)
    with None "1.prems" show ?thesis by (simp add: st_dequeue_loop.simps [of e m])
  next
    case (Some entry)
    then obtain start b where f: "om_first m = Some (start, b)" by (cases entry) auto
    then have start: "om_lookup m start = Some b" "\<And>j. j < start \<Longrightarrow> om_lookup m j = None"
      using "1.prems" by (simp_all add: bt.least_Some)
    show ?thesis
    proof (cases "e \<le> start")
      case True
      with start(2) have "om_lookup m k = Some c \<Longrightarrow> e \<le> k" for k c
        by (metis leI le_trans option.distinct(1))
      with True f "1.prems" show ?thesis by (simp add: st_dequeue_loop.simps [of e m])
    next
      case False
      then have se: "start < e" by simp
      let ?t = "trim start b e m"
      have ok: "blocks_ok ?t" using "1.prems" start(1) se by (rule blocks_ok_trim)
      have keep: "e \<le> p \<Longrightarrow> byte_at ?t p = byte_at m p" for p
        using byte_at_trim [OF "1.prems" start(1) se, of p] by auto
      have eq: "st_dequeue_loop e m = st_dequeue_loop e ?t"
        using False by (subst st_dequeue_loop.simps) (simp only: f option.case prod.case if_False Let_def)
      note IH = "1.IH" [OF f refl False refl ok]
      then have "\<forall>p. e \<le> p \<longrightarrow> byte_at (st_dequeue_loop e ?t) p = byte_at m p"
        using keep by metis
      with IH show ?thesis unfolding eq by blast
    qed
  qed
qed

text \<open>The bytes a TX storage owes its budget before and after consumption.\<close>

lemma st_dequeue_allocated_spec:
  assumes "st_ok s" "count \<le> st_len s" "st_tx s \<Longrightarrow> count \<le> st_outstanding s"
  shows "\<exists>s'. st_dequeue_allocated s count = Some s' \<and> st_ok s' \<and>
    published s' = drop count (published s) \<and> ahead s' = ahead s \<and>
    st_source s' = st_source s \<and> st_tx s' = st_tx s \<and>
    st_outstanding s' = (if st_tx s then st_outstanding s - count else st_outstanding s) \<and>
    st_released s' = (if st_tx s \<and> count \<noteq> 0 then wrapping_add (st_released s) count else st_released s)"
proof -
  let ?e = "st_head s + count" and ?m = "st_dequeue_loop (st_head s + count) (st_blocks s)"
  have m: "blocks_ok ?m" "\<And>k b. om_lookup ?m k = Some b \<Longrightarrow> ?e \<le> k"
      "\<And>p. ?e \<le> p \<Longrightarrow> byte_at ?m p = byte_at (st_blocks s) p"
    using st_dequeue_loop_ok [of "st_blocks s" ?e] assms(1) by auto
  obtain s' where s': "st_dequeue_allocated s count = Some s'"
    and f: "st_blocks s' = ?m" "st_head s' = ?e" "st_len s' = st_len s - count"
      "st_source s' = st_source s" "st_tx s' = st_tx s"
      "st_outstanding s' = (if st_tx s then st_outstanding s - count else st_outstanding s)"
      "st_released s' = (if st_tx s \<and> count \<noteq> 0 then wrapping_add (st_released s) count else st_released s)"
    using assms by (cases "st_tx s \<and> count \<noteq> 0") (auto simp: st_dequeue_allocated_def Let_def)
  have e: "st_head s' + st_len s' = st_head s + st_len s" using assms(2) f by simp
  have ok: "st_ok s'"
  proof (rule st_okI)
    fix p assume "st_head s' \<le> p" "p < st_head s' + st_len s'"
    then show "byte_at (st_blocks s') p \<noteq> None"
      using st_ok_byte [OF assms(1), of p] m(3) [of p] unfolding e by (simp add: f)
  qed (use f m in auto)
  have "published s' = drop count (published s)"
    unfolding published_span drop_span e unfolding f(1,2) by (intro span_cong m(3))
  moreover have "ahead s' = ahead s"
    using m(3) by (simp add: ahead_def fun_eq_iff e f(1)) (simp add: assms(2) trans_le_add1)
  ultimately show ?thesis using s' ok f(4-7) by blast
qed

lemma st_dequeue_slice_spec:
  assumes "st_ok s" "st_tx s \<Longrightarrow> st_len s \<le> st_outstanding s"
  shows "\<exists>s'. st_dequeue_slice s n = Some (take n (published s), s') \<and> st_ok s' \<and>
    published s' = drop n (published s) \<and> ahead s' = ahead s"
proof -
  have "st_read_allocated s 0 n = Some (take n (published s))"
    using st_read_allocated_spec [OF assms(1), of 0 n] by simp
  moreover have "length (take n (published s)) \<le> st_len s" by simp
  then obtain s' where "st_dequeue_allocated s (length (take n (published s))) = Some s'" "st_ok s'"
      "published s' = drop (length (take n (published s))) (published s)" "ahead s' = ahead s"
    using st_dequeue_allocated_spec [OF assms(1), of "length (take n (published s))"] assms(2)
    by fastforce
  ultimately show ?thesis by (simp add: st_dequeue_slice_def min_def split: if_splits)
qed

lemma st_take_spec:
  assumes "st_ok s"
  shows "\<exists>r s'. st_take s = Some (r, s') \<and> st_ok s' \<and> ahead s' = ahead s \<and>
    published s = (case r of None \<Rightarrow> [] | Some b \<Rightarrow> b) @ published s' \<and>
    (case r of None \<Rightarrow> st_len s = 0 | Some b \<Rightarrow> b \<noteq> [])"
proof (cases "st_len s = 0")
  case True
  then show ?thesis using assms by (simp add: st_take_def)
next
  case False
  let ?m = "st_blocks s" and ?h = "st_head s"
  have okm: "blocks_ok ?m" using assms by simp
  have "byte_at ?m ?h \<noteq> None" using False by (intro st_ok_byte [OF assms]) auto
  then obtain start b where b: "om_lookup ?m start = Some b" "start \<le> ?h" "?h < start + length b"
    using okm by (metis covering_block)
  have start: "start = ?h" using st_ok_above [OF assms b(1)] b(2) by simp
  have first: "om_first ?m = Some (?h, b)"
    using b(1) start okm st_ok_above [OF assms] by (auto simp: bt.least_Some) (metis leD not_None_eq)
  define count where "count = min (length b) (st_len s)"
  define m' where "m' = trim ?h b (?h + count) ?m"
  have c: "0 < count" "count \<le> length b" "count \<le> st_len s"
    using False b start by (auto simp: count_def)
  let ?s' = "s\<lparr>st_blocks := m', st_head := ?h + count, st_len := st_len s - count\<rparr>"
  have "st_take s = Some (Some (take count b), ?s')"
    using False by (simp add: st_take_def first m'_def count_def Let_def)
  moreover have ok': "blocks_ok m'"
    unfolding m'_def using okm b(1) start c(1) by (intro blocks_ok_trim) auto
  moreover have keep: "?h + count \<le> p \<Longrightarrow> byte_at m' p = byte_at ?m p" for p
    unfolding m'_def using byte_at_trim [OF okm, of ?h b "?h + count" p] b(1) start c by auto
  moreover have "st_ok ?s'"
  proof (rule st_okI)
    show "blocks_ok (st_blocks ?s')" using ok' by simp
  next
    fix k d assume k: "om_lookup (st_blocks ?s') k = Some d"
    show "st_head ?s' \<le> k"
    proof (cases "k = ?h + count")
      case False
      then have "om_lookup ?m k = Some d" "k \<noteq> ?h"
        using k lookup_trim [OF okm, where key = ?h and old = b and e = "?h + count" and k = k]
        unfolding m'_def by (auto split: if_splits)
      then show ?thesis
        using st_ok_above [OF assms, of k d] blocks_ok_disjoint [OF okm, of ?h b k d] b(1) start c
        by auto
    qed simp
  next
    fix p assume "st_head ?s' \<le> p" "p < st_head ?s' + st_len ?s'"
    then show "byte_at (st_blocks ?s') p \<noteq> None"
      using keep [of p] st_ok_byte [OF assms, of p] c by simp
  qed
  moreover have "published s = take count b @ published ?s'"
  proof -
    have "take count b = span ?m ?h (?h + count)"
      using slice_block_span [OF okm b(1), of ?h count] start c by simp
    moreover have "published ?s' = span ?m (?h + count) (?h + st_len s)"
      unfolding published_span using keep c by (auto intro!: span_cong)
    ultimately show ?thesis using c by (simp add: published_span span_append)
  qed
  moreover have "ahead ?s' = ahead s"
    using keep c by (simp add: ahead_def fun_eq_iff)
  moreover have "take count b \<noteq> []" using c by auto
  ultimately show ?thesis by auto
qed

subsection \<open>Writing\<close>

text \<open>Two regions that share addresses hold the same bytes there.\<close>

definition same_memory :: "region \<Rightarrow> region \<Rightarrow> bool" where
  "same_memory a b \<longleftrightarrow> (\<forall>i \<in> set [0..<length (snd a)]. \<forall>j \<in> set [0..<length (snd b)].
     fst a + i = fst b + j \<longrightarrow> snd a ! i = snd b ! j)"

definition st_readable :: "storage \<Rightarrow> region \<Rightarrow> bool" where
  "st_readable s data = (case st_source s of None \<Rightarrow> True | Some source \<Rightarrow> same_memory source data)"

lemma view_same_bytes:
  assumes "same_memory source data" "view source data = Some b"
  shows "b = snd data"
proof -
  let ?start = "fst data - fst source"
  have le: "fst source \<le> fst data" "?start + length (snd data) \<le> length (snd source)"
    and b: "b = rslice ?start (?start + length (snd data)) (snd source)"
    using assms(2) by (auto simp: view_def Let_def split: if_splits option.splits)
  show ?thesis
  proof (rule nth_equalityI)
    show "length b = length (snd data)" using le b by simp
  next
    fix i assume "i < length b"
    then have i: "i < length (snd data)" using le b by simp
    then have "b ! i = snd source ! (?start + i)" using b le by (simp add: nth_slice)
    also have "\<dots> = snd data ! i"
      using assms(1) i le unfolding same_memory_def by simp
    finally show "b ! i = snd data ! i" .
  qed
qed

lemma above_iff_no_bytes:
  assumes "blocks_ok m"
  shows "(\<forall>k b. om_lookup m k = Some b \<longrightarrow> h \<le> k) \<longleftrightarrow> (\<forall>p < h. byte_at m p = None)"
proof
  assume "\<forall>k b. om_lookup m k = Some b \<longrightarrow> h \<le> k"
  then show "\<forall>p < h. byte_at m p = None" using assms by (meson byte_at_None leD le_trans)
next
  assume none: "\<forall>p < h. byte_at m p = None"
  show "\<forall>k b. om_lookup m k = Some b \<longrightarrow> h \<le> k"
  proof (intro allI impI)
    fix k b assume k: "om_lookup m k = Some b"
    then have "byte_at m k = Some (b ! 0)"
      using byte_at_in_block [OF assms k, of k] blocks_ok_nonempty [OF assms k] by simp
    with none show "h \<le> k" by (metis leI option.distinct(1))
  qed
qed

lemma st_ok_iff_bytes:
  "st_ok s \<longleftrightarrow> blocks_ok (st_blocks s) \<and> (\<forall>p < st_head s. byte_at (st_blocks s) p = None) \<and>
     (\<forall>p. st_head s \<le> p \<and> p < st_head s + st_len s \<longrightarrow> byte_at (st_blocks s) p \<noteq> None)"
  using above_iff_no_bytes [of "st_blocks s" "st_head s"] st_okI [of s] st_ok_above [of s]
    st_ok_byte [of s] st_ok_blocks [of s] by metis

lemma st_write_unallocated_spec:
  fixes offset
  assumes "st_ok s" "st_readable s data"
  defines "s' \<equiv> fst (st_write_unallocated s offset data)"
  shows "st_ok s' \<and> published s' = published s \<and> st_source s' = st_source s \<and> st_tx s' = st_tx s \<and>
    (\<forall>i. ahead s' i = (if offset \<le> i \<and> i < offset + length (snd data)
       then Some (snd data ! (i - offset)) else ahead s i))"
proof (cases "snd data = []")
  case True
  then show ?thesis using assms(1) by (auto simp: s'_def st_write_unallocated_def)
next
  case False
  let ?at = "st_head s + st_len s + offset"
  have "s' = s\<lparr>st_blocks := st_insert (st_blocks s) ?at (snd data)\<rparr>"
    using False assms(2) view_same_bytes
    by (auto simp: s'_def st_write_unallocated_def st_readable_def Let_def split: option.splits)
  then have f: "st_blocks s' = st_insert (st_blocks s) ?at (snd data)" "st_head s' = st_head s"
      "st_len s' = st_len s" "st_source s' = st_source s" "st_tx s' = st_tx s"
    by simp_all
  have ok: "blocks_ok (st_blocks s')"
    unfolding f using assms(1) False by (simp add: st_insert_overlay(1))
  have at: "byte_at (st_blocks s') p = (if ?at \<le> p \<and> p < ?at + length (snd data)
      then Some (snd data ! (p - ?at)) else byte_at (st_blocks s) p)" for p
    unfolding f using assms(1) False by (simp add: st_insert_overlay(2))
  have "st_ok s'"
    using assms(1) ok at unfolding st_ok_iff_bytes f(2,3) by auto
  moreover have "published s' = published s"
    unfolding published_span f(2,3) by (rule span_cong) (simp add: at)
  moreover have "ahead s' i = (if offset \<le> i \<and> i < offset + length (snd data)
       then Some (snd data ! (i - offset)) else ahead s i)" for i
    by (simp add: ahead_def at f(2,3))
  ultimately show ?thesis using f by blast
qed

lemma st_enqueue_unallocated_spec:
  assumes "st_ok s" "\<And>i. i < n \<Longrightarrow> ahead s i \<noteq> None"
  shows "st_ok (st_enqueue_unallocated s n)"
    and "published (st_enqueue_unallocated s n) = published s @ map (\<lambda>i. the (ahead s i)) [0..<n]"
    and "ahead (st_enqueue_unallocated s n) i = ahead s (n + i)"
proof -
  let ?e = "st_head s + st_len s"
  have "byte_at (st_blocks s) p \<noteq> None" if "?e \<le> p" "p < ?e + n" for p
    using that assms(2) [of "p - ?e"] by (simp add: ahead_def)
  then show "st_ok (st_enqueue_unallocated s n)"
    using assms(1) unfolding st_ok_iff_bytes st_enqueue_unallocated_def
    by simp (metis add.assoc not_less)
  have "span (st_blocks s) ?e (?e + n) = map (\<lambda>i. the (ahead s i)) [0..<n]"
    by (rule nth_equalityI) (simp_all add: span_def ahead_def)
  then show "published (st_enqueue_unallocated s n) = published s @ map (\<lambda>i. the (ahead s i)) [0..<n]"
    by (simp add: published_span st_enqueue_unallocated_def span_append
        flip: span_append [of "st_head s" ?e "?e + n"] add.assoc)
  show "ahead (st_enqueue_unallocated s n) i = ahead s (n + i)"
    by (simp add: ahead_def st_enqueue_unallocated_def add.assoc)
qed

lemma st_push_spec:
  assumes "st_ok s" "ahead s = Map.empty"
  shows "st_ok (fst (st_push s b))" and "published (fst (st_push s b)) = published s @ b"
    and "ahead (fst (st_push s b)) = Map.empty"
proof -
  let ?e = "st_head s + st_len s" and ?s' = "fst (st_push s b)"
  have none: "byte_at (st_blocks s) p = None" if "?e \<le> p" for p
    using fun_cong [OF assms(2), of "p - ?e"] that by (simp add: ahead_def)
  have "st_ok ?s' \<and> published ?s' = published s @ b \<and> ahead ?s' = Map.empty"
  proof (cases "b = []")
    case True
    then show ?thesis using assms by (simp add: st_push_def)
  next
    case False
    have "k + length c \<le> ?e" if k: "om_lookup (st_blocks s) k = Some c" for k c
    proof (rule ccontr)
      assume "\<not> k + length c \<le> ?e"
      moreover have "c \<noteq> []" using assms(1) k blocks_ok_nonempty st_ok_blocks by blast
      ultimately have "byte_at (st_blocks s) (max k ?e) \<noteq> None"
        using byte_at_in_block [OF st_ok_blocks [OF assms(1)] k, of "max k ?e"] by (auto simp: max_def)
      then show False using none [of "max k ?e"] by simp
    qed
    then have free: "free_range (st_blocks s) ?e (length b)" by (simp add: free_range_def)
    have okm: "blocks_ok (st_blocks s)" using assms(1) by simp
    have f: "st_blocks ?s' = om_insert ?e b (st_blocks s)" "st_head ?s' = st_head s"
      "st_len ?s' = st_len s + length b"
      using False by (simp_all add: st_push_def)
    have at: "byte_at (st_blocks ?s') p =
        (if ?e \<le> p \<and> p < ?e + length b then Some (b ! (p - ?e)) else byte_at (st_blocks s) p)" for p
      unfolding f using byte_at_insert [OF okm False free] .
    have "blocks_ok (st_blocks ?s')" unfolding f using blocks_ok_insert [OF okm False free] .
    then have "st_ok ?s'"
      using assms(1) at unfolding st_ok_iff_bytes f(2,3) by (auto simp: not_less)
    moreover have "published ?s' = published s @ b"
    proof -
      have "published ?s' = span (st_blocks ?s') (st_head s) ?e @ span (st_blocks ?s') ?e (?e + length b)"
        by (simp add: published_span f(2,3) span_append add.assoc)
      also have "span (st_blocks ?s') (st_head s) ?e = published s"
        unfolding published_span by (rule span_cong) (simp add: at)
      also have "span (st_blocks ?s') ?e (?e + length b) = b"
        by (rule nth_equalityI) (simp_all add: span_def at)
      finally show ?thesis .
    qed
    moreover have "ahead ?s' = Map.empty"
      using none by (auto simp: ahead_def fun_eq_iff at f(2,3))
    ultimately show ?thesis by blast
  qed
  then show "st_ok ?s'" "published ?s' = published s @ b" "ahead ?s' = Map.empty" by blast+
qed

subsection \<open>Vectors for one write\<close>

lemma st_segments_loop_spec:
  assumes "blocks_ok m" "position \<le> e" "\<And>p. position \<le> p \<Longrightarrow> p < e \<Longrightarrow> byte_at m p \<noteq> None"
  shows "\<exists>bs. st_segments_loop m position e = Some bs \<and> concat bs = span m position e \<and> [] \<notin> set bs \<and>
    length bs = (if position < e \<and> om_lookup m position = None then 1 else 0) + om_count_in position e m"
  using assms
proof (induction m position e rule: st_segments_loop.induct)
  case (1 m position e)
  show ?case
  proof (cases "position < e")
    case False
    moreover have "om_count_in position e m = 0" using False by (auto simp: om_count_in_def filter_empty_conv)
    ultimately show ?thesis by (simp add: st_segments_loop.simps [of m position e])
  next
    case True
    obtain start b where f: "om_upto position m = Some (start, b)" "om_lookup m start = Some b"
      "start \<le> position" "position < start + length b"
      using "1.prems"(1,3) True by (metis covering_block order_refl)
    define count where "count = min (e - position) (start + length b - position)"
    have c: "0 < count" "position + count \<le> e" "position + count \<le> start + length b"
      using f True by (auto simp: count_def)
    have last: "om_lookup m (position + count) \<noteq> None" if lt: "position + count < e"
    proof -
      have end_: "position + count = start + length b" using lt f(4) by (auto simp: count_def)
      obtain start' b' where f': "om_lookup m start' = Some b'" "start' \<le> position + count"
        "position + count < start' + length b'"
        using "1.prems"(1,3) lt c by (metis covering_block le_add1)
      have "start' = position + count"
        using blocks_ok_disjoint [OF "1.prems"(1) f(2) f'(1)]
          blocks_ok_disjoint [OF "1.prems"(1) f'(1) f(2)] f' f(2,3) end_ c(1)
        by (cases start start' rule: linorder_cases) auto
      with f' show ?thesis by simp
    qed
    have cond: "\<not> start + length b < position" "count \<noteq> 0" using f c by auto
    have cov: "byte_at m p \<noteq> None" if "position + count \<le> p" "p < e" for p
      using "1.prems"(3) that by simp
    obtain bs where bs: "st_segments_loop m (position + count) e = Some bs"
        "concat bs = span m (position + count) e" "[] \<notin> set bs"
        "length bs = om_count_in (position + count) e m"
      using "1.IH" [OF True f(1) refl cond(1) count_def cond(2) "1.prems"(1) c(2) cov] last by auto
    let ?v = "rslice (position - start) (position - start + count) b"
    have v: "?v = span m position (position + count)"
      using slice_block_span [OF "1.prems"(1) f(2,3)] c by simp
    have "om_count_in position e m =
        (if om_lookup m position = None then 0 else 1) + om_count_in (position + count) e m"
    proof (rule om_count_step)
      fix k assume k: "position < k" "k < position + count"
      then show "om_lookup m k = None"
        using blocks_ok_disjoint [OF "1.prems"(1) f(2), of k] f(3) c(3) by (cases "om_lookup m k") auto
    qed (use "1.prems" c in auto)
    moreover have "st_segments_loop m position e = Some (?v # bs)"
      unfolding st_segments_loop.simps [of m position e] f(1) option.case prod.case Let_def
        count_def [symmetric] using True cond bs(1) by simp
    moreover have "[] \<noteq> span m position (position + count)" using c(1) by (metis span_eq_Nil not_le less_add_same_cancel1)
    ultimately show ?thesis using bs v c True by (simp add: span_append)
  qed
qed

lemma st_segment_count_eq:
  assumes "st_ok s" "lo < hi" "hi \<le> st_len s"
  shows "st_segment_count s lo hi =
    (if om_lookup (st_blocks s) (st_head s + lo) = None then 1 else 0) +
    om_count_in (st_head s + lo) (st_head s + hi) (st_blocks s)"
proof -
  let ?p = "st_head s + lo" and ?m = "st_blocks s"
  have okm: "blocks_ok ?m" using assms(1) by simp
  have "byte_at ?m ?p \<noteq> None" using assms by (intro st_ok_byte) auto
  then obtain start b where b: "om_lookup ?m start = Some b" "start \<le> ?p" "?p < start + length b"
    using okm by (metis covering_block)
  have "(case om_before ?p ?m of None \<Rightarrow> False | Some (key, b) \<Rightarrow> ?p < key + length b)
      \<longleftrightarrow> om_lookup ?m ?p = None"
  proof (cases "start = ?p")
    case True
    moreover have "key + length c \<le> ?p" if "om_before ?p ?m = Some (key, c)" for key c
      using that okm b(1) True by (auto simp: bt.before_Some intro: blocks_ok_disjoint)
    ultimately show ?thesis using b(1) by (fastforce split: option.splits)
  next
    case False
    then have lt: "start < ?p" using b(2) by simp
    have none: "om_lookup ?m j = None" if "start < j" "j \<le> ?p" for j
      using that blocks_ok_disjoint [OF okm b(1), of j] b(3) by (cases "om_lookup ?m j") auto
    then have "om_before ?p ?m = Some (start, b)" using okm b(1) lt by (simp add: bt.before_Some)
    then show ?thesis using b(3) none [of ?p] lt by simp
  qed
  then show ?thesis by (simp add: st_segment_count_def Let_def)
qed

section \<open>What the TCP socket relies on\<close>

text \<open>
  The contract of \<open>smoltcp\<close>'s \<open>Buffer\<close> for a receive buffer: the published bytes, the bytes kept
  ahead of them by offset, and the four operations that move bytes between the two.
\<close>

locale tcp_buffer =
  fixes ok :: "'s \<Rightarrow> bool"
    and readable :: "'s \<Rightarrow> 'd \<Rightarrow> bool"
    and data :: "'d \<Rightarrow> bytes"
    and contents :: "'s \<Rightarrow> bytes"
    and pending :: "'s \<Rightarrow> nat \<Rightarrow> byte option"
    and store :: "'s \<Rightarrow> nat \<Rightarrow> 'd \<Rightarrow> 's"
    and enqueue :: "'s \<Rightarrow> nat \<Rightarrow> 's"
    and read :: "'s \<Rightarrow> nat \<Rightarrow> nat \<Rightarrow> bytes option"
  assumes ok_store: "ok s \<Longrightarrow> readable s d \<Longrightarrow> ok (store s i d)"
    and readable_store: "ok s \<Longrightarrow> readable s d \<Longrightarrow> readable (store s i d) d' = readable s d'"
    and contents_store: "ok s \<Longrightarrow> readable s d \<Longrightarrow> contents (store s i d) = contents s"
    and pending_store: "ok s \<Longrightarrow> readable s d \<Longrightarrow> pending (store s i d) j =
          (if i \<le> j \<and> j < i + length (data d) then Some (data d ! (j - i)) else pending s j)"
    and ok_enqueue: "ok s \<Longrightarrow> (\<And>j. j < n \<Longrightarrow> pending s j \<noteq> None) \<Longrightarrow> ok (enqueue s n)"
    and contents_enqueue: "ok s \<Longrightarrow> (\<And>j. j < n \<Longrightarrow> pending s j \<noteq> None) \<Longrightarrow>
          contents (enqueue s n) = contents s @ map (\<lambda>j. the (pending s j)) [0..<n]"
    and read_contents: "ok s \<Longrightarrow> read s i n = Some (take n (drop i (contents s)))"
begin

text \<open>Segments \<open>(i, d)\<close> are stored one after the other, each at its own offset.\<close>

fun store_all :: "'s \<Rightarrow> (nat \<times> 'd) list \<Rightarrow> 's" where
  "store_all s [] = s"
| "store_all s ((i, d) # ds) = store_all (store s i d) ds"

lemma store_all_spec:
  assumes "ok s" "\<forall>(i, d) \<in> set ds. readable s d \<and> data d = take (length (data d)) (drop i stream)"
  shows "ok (store_all s ds) \<and> contents (store_all s ds) = contents s \<and>
    (\<forall>j. pending (store_all s ds) j =
       (if \<exists>(i, d) \<in> set ds. i \<le> j \<and> j < i + length (data d) then Some (stream ! j) else pending s j))"
  using assms
proof (induction ds arbitrary: s)
  case Nil
  then show ?case by simp
next
  case (Cons e ds)
  obtain i d where e: "e = (i, d)" by fastforce
  have rd: "readable s d" and dd: "data d = take (length (data d)) (drop i stream)"
    using Cons.prems e by auto
  let ?s = "store s i d"
  have ok: "ok ?s" using Cons.prems(1) rd by (rule ok_store)
  have "\<forall>(i, d) \<in> set ds. readable ?s d \<and> data d = take (length (data d)) (drop i stream)"
    using Cons.prems rd by (auto simp: readable_store)
  note IH = Cons.IH [OF ok this]
  have hit: "data d ! (j - i) = stream ! j" if "i \<le> j" "j < i + length (data d)" for j
  proof -
    have "data d ! (j - i) = take (length (data d)) (drop i stream) ! (j - i)" using dd by simp
    also have "\<dots> = stream ! j" using that arg_cong [OF dd, of length] by simp
    finally show ?thesis .
  qed
  have "pending ?s j = (if i \<le> j \<and> j < i + length (data d) then Some (stream ! j) else pending s j)" for j
    using Cons.prems(1) rd hit by (simp add: pending_store)
  with IH show ?case using Cons.prems(1) rd by (auto simp: e contents_store)
qed

text \<open>
  However the segments of a stream are cut, ordered, repeated and overlapped, the bytes published
  from them are the bytes of the stream.
\<close>

lemma segments_deliver_stream:
  assumes "ok s"
    and "\<forall>(i, d) \<in> set ds. readable s d \<and> data d = take (length (data d)) (drop i stream)"
    and "\<forall>j < n. \<exists>(i, d) \<in> set ds. i \<le> j \<and> j < i + length (data d)"
    and "n \<le> length stream"
  shows "read (enqueue (store_all s ds) n) (length (contents s)) n = Some (take n stream)"
proof -
  let ?w = "store_all s ds"
  note w = store_all_spec [OF assms(1,2)]
  have p: "pending ?w j = Some (stream ! j)" if "j < n" for j using that assms(3) w by auto
  have ok: "ok (enqueue ?w n)" using w p by (intro ok_enqueue) auto
  have "contents (enqueue ?w n) = contents s @ map (\<lambda>j. the (pending ?w j)) [0..<n]"
    using w p by (subst contents_enqueue) auto
  also have "map (\<lambda>j. the (pending ?w j)) [0..<n] = take n stream"
    using p assms(4) by (intro nth_equalityI) auto
  finally show ?thesis using read_contents [OF ok, of "length (contents s)" n] assms(4) by simp
qed

end

interpretation tb: tcp_buffer st_ok st_readable snd published ahead
  "\<lambda>s i d. fst (st_write_unallocated s i d)" st_enqueue_unallocated st_read_allocated
proof unfold_locales
  fix s d d' i j n
  assume ok: "st_ok s"
  show "st_read_allocated s i n = Some (take n (drop i (published s)))"
    using ok by (rule st_read_allocated_spec)
  { assume rd: "st_readable s d"
    note spec = st_write_unallocated_spec [OF ok rd, of i]
    show "st_ok (fst (st_write_unallocated s i d))"
      and "published (fst (st_write_unallocated s i d)) = published s"
      and "ahead (fst (st_write_unallocated s i d)) j =
        (if i \<le> j \<and> j < i + length (snd d) then Some (snd d ! (j - i)) else ahead s j)"
      using spec by blast+
    show "st_readable (fst (st_write_unallocated s i d)) d' = st_readable s d'"
      using spec by (simp add: st_readable_def) }
  { assume p: "\<And>j. j < n \<Longrightarrow> ahead s j \<noteq> None"
    show "st_ok (st_enqueue_unallocated s n)"
      and "published (st_enqueue_unallocated s n) = published s @ map (\<lambda>j. the (ahead s j)) [0..<n]"
      using st_enqueue_unallocated_spec [OF ok p] by blast+ }
qed

section \<open>Properties\<close>

text \<open>\<open>write_unallocated\<close> for every segment of a list, in arrival order.\<close>

fun st_write_all :: "storage \<Rightarrow> (nat \<times> region) list \<Rightarrow> storage" where
  "st_write_all s [] = s"
| "st_write_all s ((i, d) # ds) = st_write_all (fst (st_write_unallocated s i d)) ds"

lemma st_write_all_eq: "st_write_all s ds = tb.store_all s ds"
  by (induction ds arbitrary: s) auto

text \<open>
  C1. Segments of a TCP stream that arrive in any order, repeated or overlapping, are stored at
  their sequence offsets; once the assembler has found the first \<open>n\<close> bytes covered and publishes
  them, reading them gives exactly the first \<open>n\<close> bytes of the stream, whether the segments share
  the received frame or were copied.
\<close>

theorem st_segments_deliver_stream:
  assumes "st_ok s"
    and "\<forall>(i, d) \<in> set ds. st_readable s d \<and> snd d = take (length (snd d)) (drop i stream)"
    and "\<forall>j < n. \<exists>(i, d) \<in> set ds. i \<le> j \<and> j < i + length (snd d)"
    and "n \<le> length stream"
  shows "st_read_allocated (st_enqueue_unallocated (st_write_all s ds) n) (st_len s) n = Some (take n stream)"
  using tb.segments_deliver_stream [OF assms] by (simp add: st_write_all_eq)

theorem st_segments_deliver_stream_witness:
  "st_read_allocated
     (st_enqueue_unallocated
       (st_write_all (st_new 1024 False 0 0) [(3, (0, [4, 5])), (0, (9, [1, 2, 3])), (2, (5, [3, 4]))]) 5)
     (st_len (st_new 1024 False 0 0)) 5 = Some (take 5 [1, 2, 3, 4, 5])"
proof (rule st_segments_deliver_stream)
  show "st_ok (st_new 1024 False 0 0)" by (simp add: st_ok_def st_new_def blocks_ok_def)
  show "\<forall>(i, d) \<in> set [(3, (0, [4, 5])), (0, (9, [1, 2, 3])), (2, (5, [3, 4 :: byte]))].
      st_readable (st_new 1024 False 0 0) d \<and> snd d = take (length (snd d)) (drop i [1, 2, 3, 4, 5])"
    by (simp add: st_readable_def st_new_def)
  show "\<forall>j < 5. \<exists>(i, d) \<in> set [(3, (0, [4, 5])), (0, (9, [1, 2, 3])), (2, (5, [3, 4 :: byte]))].
      i \<le> j \<and> j < i + length (snd d)"
    by auto
qed simp

text \<open>
  C4. Inserting a block at a logical offset replaces exactly the bytes of the written range: every
  other offset keeps its byte or its hole, and blocks stay non-empty and disjoint.
\<close>

theorem st_insert_replaces_range:
  assumes "blocks_ok m" "b \<noteq> []"
  shows "blocks_ok (st_insert m start b) \<and>
    (\<forall>p. byte_at (st_insert m start b) p =
       (if start \<le> p \<and> p < start + length b then Some (b ! (p - start)) else byte_at m p))"
  using st_insert_overlay [OF assms] by blast

theorem st_insert_replaces_range_witness:
  "blocks_ok (st_insert [(0, [1, 2, 3]), (5, [6, 7, 8])] 2 [9, 9, 9, 9]) \<and>
    (\<forall>p. byte_at (st_insert [(0, [1, 2, 3]), (5, [6, 7, 8])] 2 [9, 9, 9, 9]) p =
       (if 2 \<le> p \<and> p < 2 + length [9, 9, 9, 9 :: byte] then Some ([9, 9, 9, 9] ! (p - 2))
        else byte_at [(0, [1, 2, 3]), (5, [6, 7, 8])] p))"
  by (rule st_insert_replaces_range) (simp_all add: blocks_ok_def)

text \<open>
  C7. \<open>take\<close> never panics on a well-formed storage: it hands over a non-empty prefix of the
  published bytes (or nothing when there is none), keeps the rest published in order, and leaves
  the out-of-order bytes where they are.
\<close>

theorem st_take_hands_over_prefix:
  assumes "st_ok s"
  shows "\<exists>r s'. st_take s = Some (r, s') \<and> st_ok s' \<and> ahead s' = ahead s \<and>
    published s = (case r of None \<Rightarrow> [] | Some b \<Rightarrow> b) @ published s' \<and>
    (case r of None \<Rightarrow> st_len s = 0 | Some b \<Rightarrow> b \<noteq> [])"
  using assms by (rule st_take_spec)

theorem st_take_hands_over_prefix_witness:
  "\<exists>r s'. st_take (st_enqueue_unallocated (fst (st_write_unallocated (st_new 64 False 0 0) 0 (0, [1, 2, 3]))) 2)
      = Some (r, s') \<and> st_ok s' \<and>
    published (st_enqueue_unallocated (fst (st_write_unallocated (st_new 64 False 0 0) 0 (0, [1, 2, 3]))) 2)
      = (case r of None \<Rightarrow> [] | Some b \<Rightarrow> b) @ published s'"
proof -
  have "st_ok (st_enqueue_unallocated (fst (st_write_unallocated (st_new 64 False 0 0) 0 (0, [1, 2, 3]))) 2)"
    by code_simp
  from st_take_hands_over_prefix [OF this] show ?thesis by blast
qed

text \<open>
  C8. Acknowledging \<open>count\<close> transmitted bytes drops exactly the first \<open>count\<close> published bytes and
  moves exactly \<open>count\<close> from the outstanding budget to the released counter; neither the
  \<open>debug_assert!\<close>s nor the \<open>expect\<close> can fail.
\<close>

theorem st_acknowledge_releases_budget:
  assumes "st_ok s" "st_tx s" "count \<le> st_len s" "count \<le> st_outstanding s"
    and "st_released s + count \<le> usize_max"
  shows "\<exists>s'. st_dequeue_allocated s count = Some s' \<and> st_ok s' \<and>
    published s' = drop count (published s) \<and>
    st_outstanding s' + count = st_outstanding s \<and> st_released s' = st_released s + count"
  using st_dequeue_allocated_spec [OF assms(1,3)] assms(2,4,5)
  by (auto simp: wrapping_add_exact)

theorem st_acknowledge_releases_budget_witness:
  "\<exists>s'. st_dequeue_allocated (fst (st_push (st_new 64 True 3 0) [1, 2, 3])) 2 = Some s' \<and> st_ok s' \<and>
    published s' = drop 2 (published (fst (st_push (st_new 64 True 3 0) [1, 2, 3]))) \<and>
    st_outstanding s' + 2 = st_outstanding (fst (st_push (st_new 64 True 3 0) [1, 2, 3])) \<and>
    st_released s' = st_released (fst (st_push (st_new 64 True 3 0) [1, 2, 3])) + 2"
proof (rule st_acknowledge_releases_budget)
  show "st_ok (fst (st_push (st_new 64 True 3 0) [1, 2, 3]))" by code_simp
qed (simp_all add: st_push_def st_new_def usize_max_def)

text \<open>
  The vectors built for one TUN write are non-empty views whose concatenation is exactly the
  requested range of the published bytes, and their number is what \<open>segment_count\<close> announced.
\<close>

lemma st_segments_cover_range:
  assumes "st_ok s" "lo < hi" "hi \<le> st_len s"
  shows "\<exists>bs. st_segments s lo hi = Some bs \<and> concat bs = rslice lo hi (published s) \<and>
    [] \<notin> set bs \<and> length bs = st_segment_count s lo hi"
proof -
  have "byte_at (st_blocks s) p \<noteq> None" if "st_head s + lo \<le> p" "p < st_head s + hi" for p
    using that assms by (intro st_ok_byte) auto
  then obtain bs where "st_segments_loop (st_blocks s) (st_head s + lo) (st_head s + hi) = Some bs"
      "concat bs = span (st_blocks s) (st_head s + lo) (st_head s + hi)" "[] \<notin> set bs"
      "length bs = st_segment_count s lo hi"
    using st_segments_loop_spec [of "st_blocks s" "st_head s + lo" "st_head s + hi"]
      st_segment_count_eq [OF assms] assms by auto
  moreover have "rslice lo hi (published s) = span (st_blocks s) (st_head s + lo) (st_head s + hi)"
    using assms by (simp add: rslice_def published_span take_span drop_span)
  ultimately show ?thesis by (simp add: st_segments_def)
qed

end
