(* ===== verification/Capacity.thy ===== *)
theory Capacity
  imports Prelude
begin

text \<open>
  The adaptive allowance of a byte-weighted queue (\<open>Capacity\<close> of \<open>crates/protocol/src/queue.rs\<close>).
  Once per feedback interval the allowance becomes what the consumer would take in
  \<open>TARGET_DELAY\<close> at its measured rate, decays by half per idle interval, and never falls below the
  initial burst. The locale \<open>feedback_capacity\<close> is what the bounded buffers rely on.
\<close>

section \<open>State and operations\<close>

definition INITIAL_BYTES :: nat where
  "INITIAL_BYTES = 128 * 1024"

definition FEEDBACK_INTERVAL :: duration where
  "FEEDBACK_INTERVAL = 16 * 1000000"

definition TARGET_DELAY :: duration where
  "TARGET_DELAY = 512 * 1000"

record capacity =
  cap_initial :: nat
  cap_target :: nat
  cap_epoch :: instant
  cap_completed :: nat

definition cap_new :: "nat \<Rightarrow> instant \<Rightarrow> capacity" where
  "cap_new initial now =
     \<lparr>cap_initial = initial, cap_target = initial, cap_epoch = now, cap_completed = 0\<rparr>"

definition cap_retarget :: "capacity \<Rightarrow> duration \<Rightarrow> nat" where
  "cap_retarget c elapsed =
     (let sample = min (cap_completed c * TARGET_DELAY) u128_max div elapsed;
          sample = (if sample \<le> usize_max then sample else usize_max);
          periods = min (elapsed div FEEDBACK_INTERVAL) 63
      in max (max sample (cap_target c div 2 ^ periods)) (cap_initial c))"

definition cap_target_at :: "capacity \<Rightarrow> instant \<Rightarrow> capacity \<times> nat" where
  "cap_target_at c now =
     (let elapsed = now - cap_epoch c in
      if FEEDBACK_INTERVAL \<le> elapsed then
        let target = cap_retarget c elapsed
        in (c\<lparr>cap_target := target, cap_completed := 0, cap_epoch := now\<rparr>, target)
      else (c, cap_target c))"

definition cap_complete :: "capacity \<Rightarrow> nat \<Rightarrow> instant \<Rightarrow> capacity" where
  "cap_complete c b now =
     (let c' = fst (cap_target_at c now)
      in c'\<lparr>cap_completed := saturating_add (cap_completed c') b\<rparr>)"

definition cap_ok :: "capacity \<Rightarrow> bool" where
  "cap_ok c \<longleftrightarrow> cap_initial c \<le> cap_target c \<and> cap_target c \<le> usize_max \<and> cap_completed c \<le> usize_max"

section \<open>The contract of an adaptive allowance\<close>

locale feedback_capacity =
  fixes initial :: "'c \<Rightarrow> nat"
    and target :: "'c \<Rightarrow> instant \<Rightarrow> 'c \<times> nat"
    and complete :: "'c \<Rightarrow> nat \<Rightarrow> instant \<Rightarrow> 'c"
    and ok :: "'c \<Rightarrow> bool"
  assumes ok_target: "ok c \<Longrightarrow> ok (fst (target c now))"
    and initial_target: "initial (fst (target c now)) = initial c"
    and target_lower: "ok c \<Longrightarrow> initial c \<le> snd (target c now)"
    and target_upper: "ok c \<Longrightarrow> snd (target c now) \<le> usize_max"
    and ok_complete: "ok c \<Longrightarrow> ok (complete c b now)"
    and initial_complete: "initial (complete c b now) = initial c"
begin

text \<open>A buffer that holds less than the initial burst always has room.\<close>

lemma room_below_initial: "ok c \<Longrightarrow> used < initial c \<Longrightarrow> 0 < snd (target c now) - used"
  using target_lower [of c now] by linarith

end

section \<open>Lemmas\<close>

lemma cap_ok_new: "initial \<le> usize_max \<Longrightarrow> cap_ok (cap_new initial now)"
  by (simp add: cap_ok_def cap_new_def)

lemma cap_target_at_early:
  "now - cap_epoch c < FEEDBACK_INTERVAL \<Longrightarrow> cap_target_at c now = (c, cap_target c)"
  by (simp add: cap_target_at_def Let_def)

lemma cap_target_at_value: "cap_target (fst (cap_target_at c now)) = snd (cap_target_at c now)"
  by (simp add: cap_target_at_def Let_def)

lemma cap_initial_target_at [simp]: "cap_initial (fst (cap_target_at c now)) = cap_initial c"
  by (simp add: cap_target_at_def Let_def)

lemma div_le_bound: "a \<le> b \<Longrightarrow> a div n \<le> b" for a b n :: nat
  using div_le_dividend le_trans by blast

lemma cap_product_fits: "cap_completed c \<le> usize_max \<Longrightarrow> cap_completed c * TARGET_DELAY \<le> u128_max"
  using mult_le_mono1 [of "cap_completed c" usize_max TARGET_DELAY]
  by (simp add: usize_max_def u128_max_def TARGET_DELAY_def)

text \<open>The intermediate product never saturates: counters that fit \<open>usize\<close> keep it inside \<open>u128\<close>.\<close>

lemma cap_retarget_eq:
  assumes "cap_completed c \<le> usize_max"
  shows "cap_retarget c elapsed =
    max (max (min (cap_completed c * TARGET_DELAY div elapsed) usize_max)
             (cap_target c div 2 ^ min (elapsed div FEEDBACK_INTERVAL) 63))
        (cap_initial c)"
  unfolding cap_retarget_def Let_def min_absorb1 [OF cap_product_fits [OF assms]]
  by (simp only: min_def [of "_ div elapsed" usize_max])

lemma cap_retarget_bounds:
  assumes "cap_ok c"
  shows "cap_initial c \<le> cap_retarget c elapsed" "cap_retarget c elapsed \<le> usize_max"
proof -
  have "cap_target c div 2 ^ k \<le> usize_max" for k
    using assms by (intro div_le_bound) (simp add: cap_ok_def)
  then show "cap_initial c \<le> cap_retarget c elapsed" "cap_retarget c elapsed \<le> usize_max"
    using assms unfolding cap_ok_def by (simp_all add: cap_retarget_eq)
qed

lemma cap_ok_target_at:
  assumes "cap_ok c"
  shows "cap_ok (fst (cap_target_at c now))"
  using assms cap_retarget_bounds [OF assms] by (simp add: cap_target_at_def Let_def cap_ok_def)

lemma cap_ok_complete: "cap_ok c \<Longrightarrow> cap_ok (cap_complete c b now)"
  using cap_ok_target_at [of c now] by (simp add: cap_complete_def cap_ok_def Let_def)

interpretation fc: feedback_capacity cap_initial cap_target_at cap_complete cap_ok
proof unfold_locales
  fix c b now
  show "cap_initial (fst (cap_target_at c now)) = cap_initial c" by simp
  show "cap_initial (cap_complete c b now) = cap_initial c" by (simp add: cap_complete_def Let_def)
  assume ok: "cap_ok c"
  show "cap_ok (fst (cap_target_at c now))" using ok by (rule cap_ok_target_at)
  show "cap_ok (cap_complete c b now)" using ok by (rule cap_ok_complete)
  show "cap_initial c \<le> snd (cap_target_at c now)" "snd (cap_target_at c now) \<le> usize_max"
    using cap_ok_target_at [OF ok, of now] cap_target_at_value [of c now]
    by (simp_all add: cap_ok_def)
qed

text \<open>The value after a full interval.\<close>

lemma cap_target_at_late:
  assumes "cap_ok c" "FEEDBACK_INTERVAL \<le> now - cap_epoch c"
  shows "snd (cap_target_at c now) =
    max (max (min (cap_completed c * TARGET_DELAY div (now - cap_epoch c)) usize_max)
             (cap_target c div 2 ^ min ((now - cap_epoch c) div FEEDBACK_INTERVAL) 63))
        (cap_initial c)"
  using assms cap_retarget_eq [of c] by (simp add: cap_target_at_def cap_ok_def Let_def)

section \<open>Properties\<close>

text \<open>
  A consumer that takes nothing cannot raise the allowance: after \<open>k\<close> whole idle intervals
  (up to 63) the allowance is the old one halved \<open>k\<close> times, but never below the initial burst.
\<close>

lemma stalled_consumer_only_decays:
  assumes "cap_ok c" "cap_completed c = 0" "FEEDBACK_INTERVAL \<le> now - cap_epoch c"
  shows "snd (cap_target_at c now) =
      max (cap_target c div 2 ^ min ((now - cap_epoch c) div FEEDBACK_INTERVAL) 63) (cap_initial c) \<and>
    snd (cap_target_at c now) \<le> cap_target c"
proof -
  have eq: "snd (cap_target_at c now) =
      max (cap_target c div 2 ^ min ((now - cap_epoch c) div FEEDBACK_INTERVAL) 63) (cap_initial c)"
    using cap_target_at_late [OF assms(1,3)] assms(2) by simp
  then show ?thesis using assms(1) by (simp add: cap_ok_def)
qed

text \<open>
  After a full interval the allowance retains \<open>TARGET_DELAY\<close> of the measured consumption: it is
  at least the bytes the consumer takes in that delay at its measured rate, at least the initial
  burst, and exceeds the old allowance only when the measurement does.
\<close>

lemma allowance_tracks_consumption:
  assumes "cap_ok c" "FEEDBACK_INTERVAL \<le> now - cap_epoch c"
  shows "cap_initial c \<le> snd (cap_target_at c now) \<and>
    min (cap_completed c * TARGET_DELAY div (now - cap_epoch c)) usize_max \<le> snd (cap_target_at c now) \<and>
    snd (cap_target_at c now) \<le>
      max (cap_target c) (cap_completed c * TARGET_DELAY div (now - cap_epoch c))"
  unfolding cap_target_at_late [OF assms] using assms(1)
  by (auto simp: cap_ok_def intro: div_le_bound le_max_iff_disj [THEN iffD2])

end
