(* ===== verification/Queue.thy ===== *)
theory Queue
  imports Capacity
begin

text \<open>
  The byte-weighted channel of \<open>crates/protocol/src/queue.rs\<close>, operation by operation. The items
  live in crossbeam's \<open>SegQueue\<close>, which is a parameter: \<open>seg_ops\<close> holds its operations, and
  \<open>seg_fifo\<close> says what its documentation promises, an unbounded first-in first-out queue. Here
  every operation runs alone; the interleaving of its atomic accesses with those of other threads is
  the subject of the theory \<open>Queue_Concurrent\<close>. The wakers (\<open>readable\<close>, \<open>writable\<close>) carry no data
  and are not part of the state.
\<close>

section \<open>State\<close>

datatype queue_error = Full | Closed

record ('q, 't) seg_ops =
  sq_new :: 'q
  sq_push :: "'q \<Rightarrow> 't \<times> nat \<Rightarrow> 'q"
  sq_pop :: "'q \<Rightarrow> (('t \<times> nat) \<times> 'q) option"

text \<open>What \<open>SegQueue\<close> promises, for an abstraction \<open>items\<close> to the sequence of queued entries.\<close>

definition seg_fifo :: "('q, 't) seg_ops \<Rightarrow> ('q \<Rightarrow> ('t \<times> nat) list) \<Rightarrow> bool" where
  "seg_fifo ops items \<longleftrightarrow>
     items (sq_new ops) = [] \<and>
     (\<forall>q x. items (sq_push ops q x) = items q @ [x]) \<and>
     (\<forall>q. sq_pop ops q = None \<longleftrightarrow> items q = []) \<and>
     (\<forall>q x q'. sq_pop ops q = Some (x, q') \<longrightarrow> items q = x # items q')"

record ('q, 't) shared =
  q_items :: 'q
  q_initial :: nat
  q_epoch :: instant
  q_updated :: nat
  q_completed :: nat
  q_refreshing :: bool
  q_bytes :: nat
  q_senders :: nat
  q_closed :: bool
  q_target :: nat
  q_size :: "'t \<Rightarrow> nat"

definition channel :: "('q, 't) seg_ops \<Rightarrow> nat \<Rightarrow> ('t \<Rightarrow> nat) \<Rightarrow> instant \<Rightarrow> ('q, 't) shared \<times> 't list option" where
  "channel ops initial size_fn now =
     (\<lparr>q_items = sq_new ops, q_initial = initial, q_epoch = now, q_updated = 0, q_completed = 0,
       q_refreshing = False, q_bytes = 0, q_senders = 1, q_closed = False, q_target = initial,
       q_size = size_fn\<rparr>, None)"

section \<open>Shared operations\<close>

definition sh_now :: "('q, 't) shared \<Rightarrow> instant \<Rightarrow> nat" where
  "sh_now s t = min (t - q_epoch s) usize_max"

definition refreshed_target :: "nat \<Rightarrow> nat \<Rightarrow> nat \<Rightarrow> nat \<Rightarrow> nat" where
  "refreshed_target initial target completed elapsed =
     (let sample = min (completed * TARGET_DELAY div elapsed) usize_max;
          periods = min (elapsed div FEEDBACK_INTERVAL) (64 - 1)
      in max (max sample (target div 2 ^ periods)) initial)"

definition sh_refresh :: "('q, 't) shared \<Rightarrow> instant \<Rightarrow> ('q, 't) shared" where
  "sh_refresh s t =
     (let now = sh_now s t; elapsed = now - q_updated s in
      if elapsed < FEEDBACK_INTERVAL \<or> q_refreshing s then s
      else
        let s = s\<lparr>q_refreshing := True\<rparr>;
            elapsed = now - q_updated s;
            s = (if FEEDBACK_INTERVAL \<le> elapsed then
                   let completed = q_completed s;
                       s = s\<lparr>q_completed := 0\<rparr>;
                       target = refreshed_target (q_initial s) (q_target s) completed elapsed
                   in s\<lparr>q_target := target, q_updated := now\<rparr>
                 else s)
        in s\<lparr>q_refreshing := False\<rparr>)"

definition sh_fetch_sub :: "('q, 't) shared \<Rightarrow> nat \<Rightarrow> ('q, 't) shared" where
  "sh_fetch_sub s cost = s\<lparr>q_bytes := wrapping_sub (q_bytes s) cost\<rparr>"

definition sh_release :: "('q, 't) shared \<Rightarrow> nat \<Rightarrow> ('q, 't) shared option" where
  "sh_release s cost = (if q_bytes s < cost then None else Some (sh_fetch_sub s cost))"

partial_function (option) sh_discard ::
  "('q, 't) seg_ops \<Rightarrow> ('q, 't) shared \<Rightarrow> ('q, 't) shared option" where
  [code]: "sh_discard ops s =
     (case sq_pop ops (q_items s) of
        None \<Rightarrow> Some s
      | Some ((item, cost), q) \<Rightarrow>
          Option.bind (sh_release (s\<lparr>q_items := q\<rparr>) cost) (sh_discard ops))"

section \<open>Senders and permits\<close>

definition snd_clone :: "('q, 't) shared \<Rightarrow> ('q, 't) shared" where
  "snd_clone s = s\<lparr>q_senders := wrapping_add (q_senders s) 1\<rparr>"

definition snd_drop :: "('q, 't) shared \<Rightarrow> ('q, 't) shared" where
  "snd_drop s = s\<lparr>q_senders := wrapping_sub (q_senders s) 1\<rparr>"

definition permit_drop :: "('q, 't) shared \<Rightarrow> nat \<Rightarrow> ('q, 't) shared option" where
  "permit_drop s cost = (if cost \<noteq> 0 then sh_release s cost else Some s)"

text \<open>The closure of the compare-and-swap loop on \<open>bytes\<close>.\<close>

definition reserve_update :: "nat \<Rightarrow> nat \<Rightarrow> nat \<Rightarrow> nat option" where
  "reserve_update target cost used =
     (if used \<noteq> 0 \<and> target - used < cost then None else checked_add used cost)"

text \<open>\<open>slot\<close> is \<open>size_of::<(T, usize)>()\<close>; the result is the error or the cost of the permit.\<close>

definition snd_try_reserve ::
  "nat \<Rightarrow> ('q, 't) shared \<Rightarrow> nat \<Rightarrow> instant \<Rightarrow> (('q, 't) shared \<times> (queue_error + nat)) option" where
  "snd_try_reserve slot s b t =
     (if q_closed s then Some (s, Inl Closed)
      else case checked_add b (max slot 1) of
        None \<Rightarrow> Some (s, Inl Full)
      | Some cost \<Rightarrow>
          let s = sh_refresh s t; target = q_target s in
          (case reserve_update target cost (q_bytes s) of
             None \<Rightarrow> Some (s, Inl Full)
           | Some used \<Rightarrow>
               let s = s\<lparr>q_bytes := used\<rparr> in
               if q_closed s then map_option (\<lambda>s. (s, Inl Closed)) (permit_drop s cost)
               else Some (s, Inr cost)))"

text \<open>One poll of \<open>reserve\<close>: the loop awaits \<open>writable\<close> exactly when the attempt found the queue full.\<close>

definition snd_poll_reserve ::
  "nat \<Rightarrow> ('q, 't) shared \<Rightarrow> nat \<Rightarrow> instant \<Rightarrow> (('q, 't) shared \<times> (queue_error + nat) poll) option" where
  "snd_poll_reserve slot s b t =
     map_option (\<lambda>(s, r). (s, case r of Inl Full \<Rightarrow> Pending | _ \<Rightarrow> Ready r)) (snd_try_reserve slot s b t)"

definition permit_send ::
  "('q, 't) seg_ops \<Rightarrow> nat \<Rightarrow> ('q, 't) shared \<Rightarrow> nat \<Rightarrow> 't \<Rightarrow> ('q, 't) shared option" where
  "permit_send ops slot s cost item =
     (if cost < max slot 1 \<or> cost - max slot 1 < q_size s item then None
      else if q_closed s then permit_drop s cost
      else
        let s = s\<lparr>q_items := sq_push ops (q_items s) (item, cost)\<rparr> in
        if q_closed s then sh_discard ops s else Some s)"

definition snd_try_send ::
  "('q, 't) seg_ops \<Rightarrow> nat \<Rightarrow> ('q, 't) shared \<Rightarrow> 't \<Rightarrow> instant \<Rightarrow>
     (('q, 't) shared \<times> (queue_error + unit)) option" where
  "snd_try_send ops slot s item t =
     (case snd_try_reserve slot s (q_size s item) t of
        None \<Rightarrow> None
      | Some (s, Inl e) \<Rightarrow> Some (s, Inl e)
      | Some (s, Inr cost) \<Rightarrow>
          map_option (\<lambda>s. (s, Inr ())) (permit_send ops slot s cost item))"

section \<open>The receiver\<close>

definition rcv_prepend :: "'t list option \<Rightarrow> 't list \<Rightarrow> 't list option" where
  "rcv_prepend prefix items =
     (if items = [] then prefix
      else Some (fold (#) (rev items) (case prefix of None \<Rightarrow> [] | Some p \<Rightarrow> p)))"

definition rcv_pop_prefix :: "'t list option \<Rightarrow> 't list option \<times> 't option" where
  "rcv_pop_prefix prefix =
     (case prefix of
        None \<Rightarrow> (None, None)
      | Some [] \<Rightarrow> (None, None)
      | Some (x # p) \<Rightarrow> (if p = [] then None else Some p, Some x))"

definition rcv_complete :: "('q, 't) shared \<Rightarrow> nat \<Rightarrow> instant \<Rightarrow> ('q, 't) shared option" where
  "rcv_complete s cost t =
     map_option (\<lambda>s. let s = sh_refresh s t in s\<lparr>q_completed := wrapping_add (q_completed s) cost\<rparr>)
       (sh_release s cost)"

text \<open>
  \<open>poll_recv\<close>; \<open>budget\<close> says whether the runtime's cooperative budget lets the task proceed.
\<close>

definition rcv_poll_recv ::
  "('q, 't) seg_ops \<Rightarrow> ('q, 't) shared \<Rightarrow> 't list option \<Rightarrow> bool \<Rightarrow> instant \<Rightarrow>
     (('q, 't) shared \<times> 't list option \<times> 't option poll) option" where
  "rcv_poll_recv ops s prefix budget t =
     (if \<not> budget then Some (s, prefix, Pending)
      else case rcv_pop_prefix prefix of
        (prefix, Some item) \<Rightarrow> Some (s, prefix, Ready (Some item))
      | (prefix, None) \<Rightarrow>
          (case sq_pop ops (q_items s) of
             Some ((item, cost), q) \<Rightarrow>
               map_option (\<lambda>s. (s, prefix, Ready (Some item))) (rcv_complete (s\<lparr>q_items := q\<rparr>) cost t)
           | None \<Rightarrow>
               if q_senders s = 0 then
                 (case sq_pop ops (q_items s) of
                    Some ((item, cost), q) \<Rightarrow>
                      map_option (\<lambda>s. (s, prefix, Ready (Some item)))
                        (rcv_complete (s\<lparr>q_items := q\<rparr>) cost t)
                  | None \<Rightarrow> Some (s, prefix, Ready None))
               else Some (s, prefix, Pending)))"

definition rcv_try_recv ::
  "('q, 't) seg_ops \<Rightarrow> ('q, 't) shared \<Rightarrow> 't list option \<Rightarrow> instant \<Rightarrow>
     (('q, 't) shared \<times> 't list option \<times> (queue_error + 't)) option" where
  "rcv_try_recv ops s prefix t =
     (case rcv_pop_prefix prefix of
        (prefix, Some item) \<Rightarrow> Some (s, prefix, Inr item)
      | (prefix, None) \<Rightarrow>
          (case sq_pop ops (q_items s) of
             Some ((item, cost), q) \<Rightarrow>
               map_option (\<lambda>s. (s, prefix, Inr item)) (rcv_complete (s\<lparr>q_items := q\<rparr>) cost t)
           | None \<Rightarrow> Some (s, prefix, Inl (if q_senders s = 0 then Closed else Full))))"

text \<open>The batch loop of \<open>poll_recv_many\<close>: up to \<open>n\<close> further items, and the sum of their costs.\<close>

fun rcv_batch ::
  "('q, 't) seg_ops \<Rightarrow> nat \<Rightarrow> ('q, 't) shared \<Rightarrow> 't list option \<Rightarrow> 't list \<Rightarrow> nat \<Rightarrow>
     ('q, 't) shared \<times> 't list option \<times> 't list \<times> nat" where
  "rcv_batch ops 0 s prefix out cost = (s, prefix, out, cost)"
| "rcv_batch ops (Suc n) s prefix out cost =
     (case rcv_pop_prefix prefix of
        (prefix, Some item) \<Rightarrow> rcv_batch ops n s prefix (out @ [item]) cost
      | (prefix, None) \<Rightarrow>
          (case sq_pop ops (q_items s) of
             None \<Rightarrow> (s, prefix, out, cost)
           | Some ((item, b), q) \<Rightarrow> rcv_batch ops n (s\<lparr>q_items := q\<rparr>) prefix (out @ [item]) (cost + b)))"

definition rcv_poll_recv_many ::
  "('q, 't) seg_ops \<Rightarrow> ('q, 't) shared \<Rightarrow> 't list option \<Rightarrow> bool \<Rightarrow> instant \<Rightarrow> 't list \<Rightarrow> nat \<Rightarrow>
     (('q, 't) shared \<times> 't list option \<times> 't list \<times> nat poll) option" where
  "rcv_poll_recv_many ops s prefix budget t out limit =
     (if limit = 0 then Some (s, prefix, out, Ready 0)
      else case rcv_poll_recv ops s prefix budget t of
        None \<Rightarrow> None
      | Some (s, prefix, Pending) \<Rightarrow> Some (s, prefix, out, Pending)
      | Some (s, prefix, Ready None) \<Rightarrow> Some (s, prefix, out, Ready 0)
      | Some (s, prefix, Ready (Some first)) \<Rightarrow>
          (case rcv_batch ops (limit - 1) s prefix (out @ [first]) 0 of (s, prefix, out', cost) \<Rightarrow>
             let count = length out' - length out in
             if cost \<noteq> 0
             then map_option (\<lambda>s. (s, prefix, out', Ready count)) (rcv_complete s cost t)
             else Some (s, prefix, out', Ready count)))"

definition rcv_drop :: "('q, 't) seg_ops \<Rightarrow> ('q, 't) shared \<Rightarrow> ('q, 't) shared option" where
  "rcv_drop ops s = sh_discard ops (s\<lparr>q_closed := True\<rparr>)"

section \<open>Invariant\<close>

text \<open>
  With every operation run alone and \<open>held\<close> bytes in outstanding permits, the byte counter is
  exactly the cost of the queued items plus the permits.
\<close>

definition queue_ok :: "('q \<Rightarrow> ('t \<times> nat) list) \<Rightarrow> nat \<Rightarrow> ('q, 't) shared \<Rightarrow> bool" where
  "queue_ok items held s \<longleftrightarrow>
     q_bytes s = sum_list (map snd (items (q_items s))) + held \<and>
     q_bytes s \<le> usize_max \<and> q_completed s \<le> usize_max \<and>
     q_initial s \<le> q_target s \<and> q_target s \<le> usize_max \<and> \<not> q_refreshing s \<and>
     (q_closed s \<longrightarrow> items (q_items s) = [])"

section \<open>Lemmas\<close>

lemma seg_fifo_new: "seg_fifo ops items \<Longrightarrow> items (sq_new ops) = []"
  and seg_fifo_push: "seg_fifo ops items \<Longrightarrow> items (sq_push ops q x) = items q @ [x]"
  and seg_fifo_None: "seg_fifo ops items \<Longrightarrow> sq_pop ops q = None \<longleftrightarrow> items q = []"
  and seg_fifo_Some: "seg_fifo ops items \<Longrightarrow> sq_pop ops q = Some (x, q') \<Longrightarrow> items q = x # items q'"
  unfolding seg_fifo_def by blast+

lemma seg_fifo_Nil: "seg_fifo ops items \<Longrightarrow> items q = [] \<Longrightarrow> sq_pop ops q = None"
  by (simp add: seg_fifo_None)

lemmas seg_fifo_laws = seg_fifo_new seg_fifo_push seg_fifo_None

lemma seg_fifo_Cons:
  assumes "seg_fifo ops items" "items q = x # xs"
  obtains q' where "sq_pop ops q = Some (x, q')" "items q' = xs"
proof (cases "sq_pop ops q")
  case None
  with assms show thesis by (simp add: seg_fifo_None)
next
  case (Some r)
  then obtain y q' where r: "sq_pop ops q = Some (y, q')" by (cases r) auto
  with seg_fifo_Some [OF assms(1) r] assms(2) show thesis by (auto intro: that)
qed

lemma refresh_fields [simp]:
  "q_items (sh_refresh s t) = q_items s" "q_initial (sh_refresh s t) = q_initial s"
  "q_epoch (sh_refresh s t) = q_epoch s" "q_refreshing (sh_refresh s t) = q_refreshing s"
  "q_bytes (sh_refresh s t) = q_bytes s" "q_senders (sh_refresh s t) = q_senders s"
  "q_closed (sh_refresh s t) = q_closed s" "q_size (sh_refresh s t) = q_size s"
  by (simp_all add: sh_refresh_def Let_def)

lemma refreshed_target_bounds:
  assumes "initial \<le> usize_max" "target \<le> usize_max"
  shows "initial \<le> refreshed_target initial target completed elapsed"
    and "refreshed_target initial target completed elapsed \<le> usize_max"
  using assms div_le_bound by (auto simp: refreshed_target_def Let_def)

lemma refresh_ok [koto_inv]: "queue_ok items held s \<Longrightarrow> queue_ok items held (sh_refresh s t)"
  using refreshed_target_bounds [of "q_initial s" "q_target s"]
  by (auto simp: queue_ok_def sh_refresh_def Let_def)

lemma release_ok:
  assumes "q_bytes s = c + cost" "c + cost \<le> usize_max"
  shows "sh_release s cost = Some (s\<lparr>q_bytes := c\<rparr>)"
  using assms by (simp add: sh_release_def sh_fetch_sub_def)

lemma complete_ok:
  assumes "queue_ok items (held + cost) s"
  obtains s' where "rcv_complete s cost t = Some s'" "queue_ok items held s'"
    "q_items s' = q_items s" "q_senders s' = q_senders s" "q_closed s' = q_closed s"
    "q_bytes s' + cost = q_bytes s"
proof -
  let ?r = "s\<lparr>q_bytes := q_bytes s - cost\<rparr>"
  let ?s = "let s = sh_refresh ?r t in s\<lparr>q_completed := wrapping_add (q_completed s) cost\<rparr>"
  have bytes: "q_bytes s = (q_bytes s - cost) + cost" "q_bytes s \<le> usize_max"
    using assms by (auto simp: queue_ok_def)
  then have "rcv_complete s cost t = Some ?s"
    using release_ok [of s "q_bytes s - cost" cost] by (simp add: rcv_complete_def)
  moreover have "queue_ok items held (sh_refresh ?r t)"
    using assms by (intro refresh_ok) (auto simp: queue_ok_def)
  then have "queue_ok items held ?s"
    by (auto simp: queue_ok_def Let_def wrapping_add_def less_Suc_eq_le [symmetric])
  ultimately show thesis using bytes by (auto intro!: that simp: Let_def)
qed

lemma queue_ok_pop:
  assumes "queue_ok items held s" "items (q_items s) = (x, cost) # items q"
  shows "queue_ok items (held + cost) (s\<lparr>q_items := q\<rparr>)"
  using assms by (auto simp: queue_ok_def)

text \<open>\<open>discard\<close> returns: it empties the queue and gives back exactly the cost of its items.\<close>

lemma discard_empties:
  assumes "seg_fifo ops items"
  shows "q_bytes s = sum_list (map snd (items (q_items s))) + held \<Longrightarrow>
     \<exists>q. items q = [] \<and> sh_discard ops s = Some (s\<lparr>q_items := q, q_bytes := held\<rparr>)"
proof (induction "items (q_items s)" arbitrary: s)
  case Nil
  then show ?case
    using seg_fifo_Nil [OF assms, of "q_items s"]
    by (subst sh_discard.simps) (auto intro!: exI [of _ "q_items s"])
next
  case (Cons x xs)
  obtain item cost where x: "x = (item, cost)" by (cases x)
  from Cons.hyps(2) obtain q where q: "sq_pop ops (q_items s) = Some (x, q)" "items q = xs"
    using seg_fifo_Cons [OF assms, of "q_items s" x xs] by metis
  let ?s = "s\<lparr>q_items := q, q_bytes := q_bytes s - cost\<rparr>"
  have bytes: "q_bytes s = cost + sum_list (map snd xs) + held"
    using Cons.prems Cons.hyps(2) x by (metis (no_types) list.simps(9) snd_conv sum_list.Cons)
  then have "\<exists>q. items q = [] \<and> sh_discard ops ?s = Some (?s\<lparr>q_items := q, q_bytes := held\<rparr>)"
    using Cons.hyps(1) [of ?s] q(2) by simp
  moreover have "sh_discard ops s = sh_discard ops ?s"
    using q(1) x bytes by (subst sh_discard.simps) (simp add: sh_release_def sh_fetch_sub_def)
  ultimately show ?case by simp
qed

lemma reserve_update_Some:
  "reserve_update target cost used = Some n \<longleftrightarrow>
     n = used + cost \<and> used + cost \<le> usize_max \<and> (used = 0 \<or> cost \<le> target - used)"
  by (auto simp: reserve_update_def)

lemma pop_prefix_None [simp]: "rcv_pop_prefix None = (None, None)"
  by (simp add: rcv_pop_prefix_def)

definition prefix_items :: "'t list option \<Rightarrow> 't list" where
  "prefix_items p = (case p of None \<Rightarrow> [] | Some xs \<Rightarrow> xs)"

lemma pop_prefix_cases:
  obtains "prefix_items p = []" "rcv_pop_prefix p = (None, None)"
  | x p' where "rcv_pop_prefix p = (p', Some x)" "prefix_items p = x # prefix_items p'"
proof (cases p)
  case None
  then show thesis using that(1) by (simp add: prefix_items_def)
next
  case (Some xs)
  then show thesis
    using that(1) that(2) [of "if tl xs = [] then None else Some (tl xs)" "hd xs"]
    by (cases xs) (auto simp: rcv_pop_prefix_def prefix_items_def)
qed

lemma prefix_items_None [simp]: "prefix_items None = []"
  by (simp add: prefix_items_def)

lemma prefix_items_prepend: "prefix_items (rcv_prepend p xs) = xs @ prefix_items p"
proof -
  have "fold (#) ys zs = rev ys @ zs" for ys zs :: "'a list"
    by (induction ys arbitrary: zs) auto
  then show ?thesis by (simp add: rcv_prepend_def prefix_items_def split: option.split)
qed

text \<open>The entries a receiver still has before it: its replayed prefix, then the queue.\<close>

definition receivable :: "('q \<Rightarrow> ('t \<times> nat) list) \<Rightarrow> ('q, 't) shared \<Rightarrow> 't list option \<Rightarrow> 't list" where
  "receivable items s p = prefix_items p @ map fst (items (q_items s))"

lemma batch_takes:
  assumes "seg_fifo ops items"
  shows "queue_ok items (held + cost) s \<Longrightarrow> 
     \<exists>s' p' cost'. rcv_batch ops n s p out cost = (s', p', out @ take n (receivable items s p), cost') \<and>
       receivable items s' p' = drop n (receivable items s p) \<and>
       queue_ok items (held + cost') s' \<and> q_bytes s' = q_bytes s \<and> q_senders s' = q_senders s"
proof (induction n arbitrary: s p out cost)
  case 0
  then show ?case by (simp add: receivable_def)
next
  case (Suc n)
  show ?case
  proof (cases rule: pop_prefix_cases [of p])
    case (2 x p')
    then show ?thesis using Suc.IH [OF Suc.prems, of p' "out @ [x]"] by (simp add: receivable_def)
  next
    case 1
    show ?thesis
    proof (cases "items (q_items s)")
      case Nil
      with 1 Suc.prems show ?thesis by (simp add: receivable_def seg_fifo_Nil [OF assms])
    next
      case (Cons e es)
      obtain x b where e: "e = (x, b)" by (cases e)
      obtain q where q: "sq_pop ops (q_items s) = Some (e, q)" "items q = es"
        using seg_fifo_Cons [OF assms Cons] by blast
      have "queue_ok items (held + (cost + b)) (s\<lparr>q_items := q\<rparr>)"
        using queue_ok_pop [OF Suc.prems, of x b q] Cons e q(2) by (simp add: add.assoc)
      from Suc.IH [OF this, of None "out @ [x]"] 1 q e Cons show ?thesis
        by (simp add: receivable_def)
    qed
  qed
qed

lemma poll_recv_takes:
  assumes "seg_fifo ops items" "queue_ok items held s" "receivable items s p = x # xs"
  shows "\<exists>s' p'. rcv_poll_recv ops s p True t = Some (s', p', Ready (Some x)) \<and>
    receivable items s' p' = xs \<and> queue_ok items held s' \<and> q_senders s' = q_senders s"
proof (cases rule: pop_prefix_cases [of p])
  case (2 y p')
  then show ?thesis using assms(2,3) by (auto simp: rcv_poll_recv_def receivable_def)
next
  case 1
  then obtain cost es where es: "items (q_items s) = (x, cost) # es" "map fst es = xs"
    using assms(3) by (auto simp: receivable_def)
  obtain q where q: "sq_pop ops (q_items s) = Some ((x, cost), q)" "items q = es"
    using seg_fifo_Cons [OF assms(1) es(1)] by blast
  have "queue_ok items (held + cost) (s\<lparr>q_items := q\<rparr>)"
    using queue_ok_pop [OF assms(2)] es(1) q(2) by simp
  then obtain s' where "rcv_complete (s\<lparr>q_items := q\<rparr>) cost t = Some s'" "queue_ok items held s'"
    "q_items s' = q" "q_senders s' = q_senders s"
    by (rule complete_ok) auto
  with 1 q es show ?thesis by (auto simp: rcv_poll_recv_def receivable_def)
qed

lemma recv_many_takes:
  assumes "seg_fifo ops items" "queue_ok items held s" "receivable items s p \<noteq> []" "0 < limit"
  shows "\<exists>s' p'. rcv_poll_recv_many ops s p True t out limit =
      Some (s', p', out @ take limit (receivable items s p), Ready (min limit (length (receivable items s p)))) \<and>
    receivable items s' p' = drop limit (receivable items s p) \<and> queue_ok items held s'"
proof -
  obtain x xs where xs: "receivable items s p = x # xs" using assms(3) by (cases "receivable items s p") auto
  obtain s1 p1 where 1: "rcv_poll_recv ops s p True t = Some (s1, p1, Ready (Some x))"
    "receivable items s1 p1 = xs" "queue_ok items held s1"
    using poll_recv_takes [OF assms(1,2) xs] by blast
  obtain s2 p2 c where 2: "rcv_batch ops (limit - 1) s1 p1 (out @ [x]) 0 =
      (s2, p2, (out @ [x]) @ take (limit - 1) xs, c)"
    "receivable items s2 p2 = drop (limit - 1) xs" "queue_ok items (held + c) s2"
    using batch_takes [OF assms(1), of held 0 s1 "limit - 1" p1 "out @ [x]"] 1 by auto
  obtain m where m: "limit = Suc m" using assms(4) by (cases limit) auto
  obtain s3 where 3: "rcv_complete s2 c t = Some s3" "queue_ok items held s3" "q_items s3 = q_items s2"
    using complete_ok [OF 2(3)] by metis
  show ?thesis
  proof (cases "c = 0")
    case True
    then show ?thesis using 1 2 xs m assms(4)
      by (auto simp: rcv_poll_recv_many_def min_def)
  next
    case False
    then show ?thesis using 1 2 3 xs m
      by (auto simp: rcv_poll_recv_many_def receivable_def min_def)
  qed
qed

lemma try_reserve_open:
  assumes "queue_ok items held s" "\<not> q_closed s"
  shows "snd_try_reserve slot s b t = Some
    (let cost = b + max slot 1; s' = sh_refresh s t in
     if q_bytes s + cost \<le> usize_max \<and> (q_bytes s = 0 \<or> q_bytes s + cost \<le> q_target s')
     then (s'\<lparr>q_bytes := q_bytes s + cost\<rparr>, Inr cost)
     else if b + max slot 1 \<le> usize_max then (s', Inl Full) else (s, Inl Full))"
proof -
  define k where "k = max slot 1"
  have pos: "0 < k" by (simp add: k_def)
  show ?thesis unfolding k_def [symmetric]
  proof (cases "b + k \<le> usize_max")
    case True
    have "reserve_update (q_target (sh_refresh s t)) (b + k) (q_bytes s) =
      (if q_bytes s + (b + k) \<le> usize_max \<and>
          (q_bytes s = 0 \<or> q_bytes s + (b + k) \<le> q_target (sh_refresh s t))
       then Some (q_bytes s + (b + k)) else None)"
      unfolding reserve_update_def checked_add_def using pos by simp linarith
    moreover have "checked_add b k = Some (b + k)" using True by (simp add: checked_add_def)
    ultimately show "snd_try_reserve slot s b t = Some
      (let cost = b + k; s' = sh_refresh s t in
       if q_bytes s + cost \<le> usize_max \<and> (q_bytes s = 0 \<or> q_bytes s + cost \<le> q_target s')
       then (s'\<lparr>q_bytes := q_bytes s + cost\<rparr>, Inr cost)
       else if b + k \<le> usize_max then (s', Inl Full) else (s, Inl Full))"
      using assms(2) True unfolding snd_try_reserve_def k_def [symmetric]
      by (simp add: Let_def checked_add_def)
  next
    case False
    then have "checked_add b k = None" by (simp add: checked_add_def)
    with assms(2) False show "snd_try_reserve slot s b t = Some
      (let cost = b + k; s' = sh_refresh s t in
       if q_bytes s + cost \<le> usize_max \<and> (q_bytes s = 0 \<or> q_bytes s + cost \<le> q_target s')
       then (s'\<lparr>q_bytes := q_bytes s + cost\<rparr>, Inr cost)
       else if b + k \<le> usize_max then (s', Inl Full) else (s, Inl Full))"
      unfolding snd_try_reserve_def k_def [symmetric] by (simp add: Let_def checked_add_def)
  qed
qed

lemma try_send_appends:
  assumes "seg_fifo ops items" "queue_ok items held s"
    and "snd_try_send ops slot s item t = Some (s', Inr ())"
  shows "receivable items s' p = receivable items s p @ [item] \<and> queue_ok items held s'"
proof (cases "q_closed s")
  case True
  with assms(3) show ?thesis by (simp add: snd_try_send_def snd_try_reserve_def)
next
  case False
  have ok: "queue_ok items held (sh_refresh s t)" using assms(2) by (rule refresh_ok)
  show ?thesis
    using assms(3) ok False
    by (auto simp: snd_try_send_def try_reserve_open [OF assms(2) False] permit_send_def Let_def
        queue_ok_def receivable_def seg_fifo_push [OF assms(1)] split: if_splits)
qed

section \<open>Properties\<close>

text \<open>The list implementation of the queue parameter, at which the properties are evaluated.\<close>

definition seg_list :: "(('t \<times> nat) list, 't) seg_ops" where
  "seg_list = \<lparr>sq_new = [], sq_push = \<lambda>q x. q @ [x],
     sq_pop = \<lambda>q. (case q of [] \<Rightarrow> None | x # q' \<Rightarrow> Some (x, q'))\<rparr>"

lemma seg_list_fifo: "seg_fifo seg_list (\<lambda>q. q)"
  by (auto simp: seg_fifo_def seg_list_def split: list.splits)

definition open_channel :: "nat \<Rightarrow> ((nat \<times> nat) list, nat) shared" where
  "open_channel initial = fst (channel seg_list initial (\<lambda>n. n) 0)"

lemma open_channel_ok: "initial \<le> usize_max \<Longrightarrow> queue_ok (\<lambda>q. q) 0 (open_channel initial)"
  by (simp add: queue_ok_def open_channel_def channel_def seg_list_def)

text \<open>
  C9. Admission to the channel. On an open channel \<open>try_reserve\<close> first runs the feedback and then
  succeeds exactly when the channel is empty (so that an oversized message cannot be stuck forever) or
  the reservation, the payload plus the slot it occupies, fits in the target the feedback has just
  computed next to what is queued and reserved, without overflowing the counter; otherwise it reports
  \<open>Full\<close>. The channel afterwards is the refreshed one, with the reservation added to the byte counter
  on success; only a cost that does not fit \<open>usize\<close> is refused before the feedback runs. Either way the
  byte counter stays the sum of the queued items and the permits outstanding.
\<close>

theorem reserve_admission:
  assumes "queue_ok items held s" "\<not> q_closed s"
  shows "\<exists>s' r. snd_try_reserve slot s b t = Some (s', r) \<and>
    (if q_bytes s + (b + max slot 1) \<le> usize_max \<and>
        (q_bytes s = 0 \<or> q_bytes s + (b + max slot 1) \<le> q_target (sh_refresh s t))
     then r = Inr (b + max slot 1) \<and> s' = (sh_refresh s t)\<lparr>q_bytes := q_bytes s + (b + max slot 1)\<rparr> \<and>
       queue_ok items (held + (b + max slot 1)) s'
     else r = Inl Full \<and> s' = (if b + max slot 1 \<le> usize_max then sh_refresh s t else s) \<and>
       queue_ok items held s')"
proof -
  have "queue_ok items held (sh_refresh s t)" using assms(1) by (rule refresh_ok)
  then show ?thesis
    using assms by (auto simp: try_reserve_open [OF assms] queue_ok_def Let_def)
qed

text \<open>A channel with 100 bytes reserved whose consumer has taken a megabyte since the last feedback.\<close>

definition busy_channel :: "((nat \<times> nat) list, nat) shared" where
  "busy_channel = (open_channel 128)\<lparr>q_bytes := 100, q_completed := 1000000\<rparr>"

lemma busy_channel_ok: "queue_ok (\<lambda>q. q) 100 busy_channel"
  by (simp add: queue_ok_def busy_channel_def open_channel_def channel_def seg_list_def usize_max_def)

theorem reserve_admission_witness:
  "\<not> q_closed busy_channel \<and> q_target busy_channel = 128 \<and> q_target (sh_refresh busy_channel 16000000) = 32000 \<and>
    (\<exists>s' r. snd_try_reserve 24 busy_channel 1000 16000000 = Some (s', r) \<and>
    (if q_bytes busy_channel + (1000 + max 24 1) \<le> usize_max \<and>
        (q_bytes busy_channel = 0 \<or> q_bytes busy_channel + (1000 + max 24 1) \<le> q_target (sh_refresh busy_channel 16000000))
     then r = Inr (1000 + max 24 1) \<and>
       s' = (sh_refresh busy_channel 16000000)\<lparr>q_bytes := q_bytes busy_channel + (1000 + max 24 1)\<rparr> \<and>
       queue_ok (\<lambda>q. q) (100 + (1000 + max 24 1)) s'
     else r = Inl Full \<and> s' = (if 1000 + max 24 1 \<le> usize_max then sh_refresh busy_channel 16000000 else busy_channel) \<and>
       queue_ok (\<lambda>q. q) 100 s'))"
proof -
  have "\<not> q_closed busy_channel" by (simp add: busy_channel_def open_channel_def channel_def)
  from reserve_admission [OF busy_channel_ok this, of 24 1000 16000000] this show ?thesis
    by (simp add: busy_channel_def open_channel_def channel_def sh_refresh_def sh_now_def refreshed_target_def Let_def
        FEEDBACK_INTERVAL_def TARGET_DELAY_def usize_max_def u128_max_def)
qed

text \<open>
  Send then receive. If \<open>try_send\<close> accepts an item, a batched receive with room for it returns
  everything that was waiting (replayed prefix first, then the queue in order) followed by the item,
  leaves nothing behind, and gives back every byte of credit that is not in an outstanding permit.
\<close>

lemma send_then_receive:
  assumes "seg_fifo ops items" "queue_ok items held s"
    and "snd_try_send ops slot s item t = Some (s1, Inr ())"
    and "length (receivable items s p) < limit"
  shows "\<exists>s2 p2. rcv_poll_recv_many ops s1 p True t' out limit =
      Some (s2, p2, out @ receivable items s p @ [item], Ready (length (receivable items s p) + 1)) \<and>
    receivable items s2 p2 = [] \<and> q_bytes s2 = held"
proof -
  have 1: "receivable items s1 p = receivable items s p @ [item]" "queue_ok items held s1"
    using try_send_appends [OF assms(1-3)] by auto
  have "receivable items s1 p \<noteq> []" "0 < limit" using 1 assms(4) by auto
  from recv_many_takes [OF assms(1) 1(2) this, of t' out] 1(1) assms(4)
  obtain s2 p2 where 2: "rcv_poll_recv_many ops s1 p True t' out limit =
      Some (s2, p2, out @ receivable items s p @ [item], Ready (length (receivable items s p) + 1))"
    "receivable items s2 p2 = []" "queue_ok items held s2"
    by (auto simp: min_def)
  then have "q_bytes s2 = held" by (auto simp: receivable_def queue_ok_def)
  with 2 show ?thesis by blast
qed

definition capacity_of :: "('q, 't) shared \<Rightarrow> capacity" where
  "capacity_of s = \<lparr>cap_initial = q_initial s, cap_target = q_target s,
     cap_epoch = q_epoch s + q_updated s, cap_completed = q_completed s\<rparr>"

lemma capacity_of_fields [simp]:
  "cap_initial (capacity_of s) = q_initial s" "cap_target (capacity_of s) = q_target s"
  "cap_epoch (capacity_of s) = q_epoch s + q_updated s" "cap_completed (capacity_of s) = q_completed s"
  by (simp_all add: capacity_of_def)

lemma retarget_capacity_of:
  assumes "q_completed s \<le> usize_max"
  shows "cap_retarget (capacity_of s) e = refreshed_target (q_initial s) (q_target s) (q_completed s) e"
proof -
  have "cap_completed (capacity_of s) \<le> usize_max" using assms by simp
  from cap_retarget_eq [OF this] show ?thesis
    unfolding refreshed_target_def Let_def by simp
qed

text \<open>
  C10. The lock-free feedback of the channel computes the reference feedback: one \<open>refresh\<close> run
  without interference moves the initial, target, timestamp and completed counters exactly as
  \<open>Capacity::target\<close> moves its fields.
\<close>

theorem refresh_is_capacity_feedback:
  assumes "\<not> q_refreshing s" "q_completed s \<le> usize_max" "q_epoch s \<le> t" "t - q_epoch s \<le> usize_max"
  shows "capacity_of (sh_refresh s t) = fst (cap_target_at (capacity_of s) t)"
proof -
  have el: "sh_now s t = t - q_epoch s" "t - q_epoch s - q_updated s = t - (q_epoch s + q_updated s)"
    using assms(4) by (simp_all add: sh_now_def)
  show ?thesis
  proof (cases "FEEDBACK_INTERVAL \<le> t - (q_epoch s + q_updated s)")
    case True
    then have "\<not> t - (q_epoch s + q_updated s) < FEEDBACK_INTERVAL" by simp
    with True show ?thesis
      using assms(1,3) retarget_capacity_of [OF assms(2)]
      by (simp add: sh_refresh_def cap_target_at_def Let_def el del: diff_diff_left)
  next
    case False
    then show ?thesis by (simp add: sh_refresh_def cap_target_at_def Let_def el)
  qed
qed

theorem refresh_is_capacity_feedback_witness:
  "capacity_of (sh_refresh ((open_channel 128)\<lparr>q_completed := 1000000\<rparr>) 16000000) =
     fst (cap_target_at (capacity_of ((open_channel 128)\<lparr>q_completed := 1000000\<rparr>)) 16000000)"
  by (rule refresh_is_capacity_feedback) (simp_all add: open_channel_def channel_def usize_max_def)

end
