(* ===== verification/Queue_Concurrent.thy ===== *)
theory Queue_Concurrent
  imports Queue
begin

text \<open>
  The channel of \<open>crates/protocol/src/queue.rs\<close> under concurrency. Every atomic access (a load, a
  swap, a compare-and-swap, a push or a pop of the \<open>SegQueue\<close>) is one step, and the steps of any
  number of sender handles and of the one receiver interleave freely. A program counter per handle
  says where in \<open>try_reserve\<close>, \<open>Permit::send\<close>, \<open>Permit::drop\<close>, \<open>refresh\<close> or \<open>discard\<close> it is; the
  functions \<open>refresh_step\<close>, \<open>sender_step\<close> and \<open>receiver_step\<close> give the next access, and \<open>q_step\<close>
  adds what the callers choose. Accesses are interleaved as if sequentially consistent.
\<close>

section \<open>Program counters\<close>

text \<open>
  \<open>refresh\<close>: load the timestamp, take the \<open>refreshing\<close> flag, look again, swap the completed bytes,
  compute and store the target, store the timestamp, release the flag.
\<close>

datatype refresh_pc =
    R_Load nat
  | R_Swap nat
  | R_Check nat
  | R_Measure nat nat
  | R_Compute nat nat nat
  | R_Store nat nat
  | R_Stamp nat
  | R_Unlock
  | R_Done

fun refresh_step :: "('q, 't) shared \<Rightarrow> refresh_pc \<Rightarrow> ('q, 't) shared \<times> refresh_pc" where
  "refresh_step s (R_Load now) =
     (s, if now - q_updated s < FEEDBACK_INTERVAL then R_Done else R_Swap now)"
| "refresh_step s (R_Swap now) =
     (s\<lparr>q_refreshing := True\<rparr>, if q_refreshing s then R_Done else R_Check now)"
| "refresh_step s (R_Check now) =
     (s, let elapsed = now - q_updated s in
         if FEEDBACK_INTERVAL \<le> elapsed then R_Measure now elapsed else R_Unlock)"
| "refresh_step s (R_Measure now elapsed) =
     (s\<lparr>q_completed := 0\<rparr>, R_Compute now elapsed (q_completed s))"
| "refresh_step s (R_Compute now elapsed completed) =
     (s, R_Store now (refreshed_target (q_initial s) (q_target s) completed elapsed))"
| "refresh_step s (R_Store now target) = (s\<lparr>q_target := target\<rparr>, R_Stamp now)"
| "refresh_step s (R_Stamp now) = (s\<lparr>q_updated := now\<rparr>, R_Unlock)"
| "refresh_step s R_Unlock = (s\<lparr>q_refreshing := False\<rparr>, R_Done)"
| "refresh_step s R_Done = (s, R_Done)"

text \<open>
  A sender handle: idle, dropped, somewhere in \<open>try_reserve\<close> (\<open>Enter\<close> to \<open>Recheck\<close>), holding a
  permit, somewhere in \<open>Permit::send\<close> (\<open>Send\<close> to \<open>Freeing\<close>), or in \<open>Permit::drop\<close>.
\<close>

datatype 't sender_pc =
    Idle
  | Gone
  | Enter nat
  | Refresh nat refresh_pc
  | Load nat
  | Update nat nat
  | Recheck nat
  | Holds nat
  | Send 't nat
  | Push 't nat
  | Pushed
  | Discarding
  | Freeing nat
  | Dropping nat

datatype 't queue_event = Quiet | Published 't | Delivered 't | Discarded 't | Ended | Reported_Closed

text \<open>The next access of a sender handle; \<open>slot\<close> and the clock \<open>t\<close> are as in \<open>snd_try_reserve\<close>.\<close>

fun sender_step ::
  "('q, 't) seg_ops \<Rightarrow> nat \<Rightarrow> instant \<Rightarrow> ('q, 't) shared \<Rightarrow> 't sender_pc \<Rightarrow>
     ('q, 't) shared \<times> 't sender_pc \<times> 't queue_event" where
  "sender_step ops slot t s (Enter b) =
     (s, if q_closed s then Idle
         else case checked_add b (max slot 1) of
           None \<Rightarrow> Idle
         | Some cost \<Rightarrow> Refresh cost (R_Load (sh_now s t)), Quiet)"
| "sender_step ops slot t s (Refresh cost pc) =
     (case pc of R_Done \<Rightarrow> (s, Load cost, Quiet)
      | _ \<Rightarrow> (case refresh_step s pc of (s', pc') \<Rightarrow> (s', Refresh cost pc', Quiet)))"
| "sender_step ops slot t s (Load cost) = (s, Update cost (q_target s), Quiet)"
| "sender_step ops slot t s (Update cost target) =
     (case reserve_update target cost (q_bytes s) of
        None \<Rightarrow> (s, Idle, Quiet)
      | Some used \<Rightarrow> (s\<lparr>q_bytes := used\<rparr>, Recheck cost, Quiet))"
| "sender_step ops slot t s (Recheck cost) =
     (s, if q_closed s then Dropping cost else Holds cost, Quiet)"
| "sender_step ops slot t s (Send item cost) =
     (s, if q_closed s then Dropping cost else Push item cost, Quiet)"
| "sender_step ops slot t s (Push item cost) =
     (s\<lparr>q_items := sq_push ops (q_items s) (item, cost)\<rparr>, Pushed, Published item)"
| "sender_step ops slot t s Pushed = (s, if q_closed s then Discarding else Idle, Quiet)"
| "sender_step ops slot t s Discarding =
     (case sq_pop ops (q_items s) of
        None \<Rightarrow> (s, Idle, Quiet)
      | Some ((item, cost), q) \<Rightarrow> (s\<lparr>q_items := q\<rparr>, Freeing cost, Discarded item))"
| "sender_step ops slot t s (Freeing cost) = (sh_fetch_sub s cost, Discarding, Quiet)"
| "sender_step ops slot t s (Dropping cost) =
     (if cost \<noteq> 0 then sh_fetch_sub s cost else s, Idle, Quiet)"
| "sender_step ops slot t s pc = (s, pc, Quiet)"

text \<open>
  The receiver: in \<open>poll_recv\<close> (\<open>Rx_Pop\<close>, \<open>Rx_Senders\<close>, \<open>Rx_Last\<close>), in \<open>try_recv\<close> (\<open>Rx_Try\<close>,
  \<open>Rx_Try_Senders\<close>), in the batch loop of \<open>poll_recv_many\<close> with \<open>n\<close> items to go (\<open>Rx_Batch\<close>), in
  \<open>complete\<close> (\<open>Rx_Release\<close>, \<open>Rx_Refresh\<close>, \<open>Rx_Complete\<close>, with the items still wanted afterwards), or
  in its drop.
\<close>

datatype receiver_pc =
    Rx_Idle
  | Rx_Pop nat
  | Rx_Senders nat
  | Rx_Last nat
  | Rx_Try
  | Rx_Try_Senders
  | Rx_Batch nat nat
  | Rx_Release nat nat
  | Rx_Refresh nat refresh_pc nat
  | Rx_Complete nat nat
  | Rx_Closing
  | Rx_Discarding
  | Rx_Freeing nat
  | Rx_Gone

fun receiver_step ::
  "('q, 't) seg_ops \<Rightarrow> instant \<Rightarrow> ('q, 't) shared \<Rightarrow> receiver_pc \<Rightarrow>
     ('q, 't) shared \<times> receiver_pc \<times> 't queue_event" where
  "receiver_step ops t s (Rx_Pop n) =
     (case sq_pop ops (q_items s) of
        None \<Rightarrow> (s, Rx_Senders n, Quiet)
      | Some ((item, cost), q) \<Rightarrow> (s\<lparr>q_items := q\<rparr>, Rx_Release cost n, Delivered item))"
| "receiver_step ops t s (Rx_Senders n) =
     (s, if q_senders s = 0 then Rx_Last n else Rx_Idle, Quiet)"
| "receiver_step ops t s (Rx_Last n) =
     (case sq_pop ops (q_items s) of
        None \<Rightarrow> (s, Rx_Idle, Ended)
      | Some ((item, cost), q) \<Rightarrow> (s\<lparr>q_items := q\<rparr>, Rx_Release cost n, Delivered item))"
| "receiver_step ops t s Rx_Try =
     (case sq_pop ops (q_items s) of
        None \<Rightarrow> (s, Rx_Try_Senders, Quiet)
      | Some ((item, cost), q) \<Rightarrow> (s\<lparr>q_items := q\<rparr>, Rx_Release cost 0, Delivered item))"
| "receiver_step ops t s Rx_Try_Senders =
     (s, Rx_Idle, if q_senders s = 0 then Reported_Closed else Quiet)"
| "receiver_step ops t s (Rx_Batch n cost) =
     (let leave = (if cost \<noteq> 0 then Rx_Release cost 0 else Rx_Idle) in
      case n of
        0 \<Rightarrow> (s, leave, Quiet)
      | Suc m \<Rightarrow>
          (case sq_pop ops (q_items s) of
             None \<Rightarrow> (s, leave, Quiet)
           | Some ((item, b), q) \<Rightarrow> (s\<lparr>q_items := q\<rparr>, Rx_Batch m (cost + b), Delivered item)))"
| "receiver_step ops t s (Rx_Release cost n) =
     (sh_fetch_sub s cost, Rx_Refresh cost (R_Load (sh_now s t)) n, Quiet)"
| "receiver_step ops t s (Rx_Refresh cost pc n) =
     (case pc of R_Done \<Rightarrow> (s, Rx_Complete cost n, Quiet)
      | _ \<Rightarrow> (case refresh_step s pc of (s', pc') \<Rightarrow> (s', Rx_Refresh cost pc' n, Quiet)))"
| "receiver_step ops t s (Rx_Complete cost n) =
     (s\<lparr>q_completed := wrapping_add (q_completed s) cost\<rparr>, if n = 0 then Rx_Idle else Rx_Batch n 0, Quiet)"
| "receiver_step ops t s Rx_Closing = (s\<lparr>q_closed := True\<rparr>, Rx_Discarding, Quiet)"
| "receiver_step ops t s Rx_Discarding =
     (case sq_pop ops (q_items s) of
        None \<Rightarrow> (s, Rx_Gone, Quiet)
      | Some ((item, cost), q) \<Rightarrow> (s\<lparr>q_items := q\<rparr>, Rx_Freeing cost, Discarded item))"
| "receiver_step ops t s (Rx_Freeing cost) = (sh_fetch_sub s cost, Rx_Discarding, Quiet)"
| "receiver_step ops t s pc = (s, pc, Quiet)"

section \<open>Configurations and steps\<close>

record ('q, 't) config =
  c_sh :: "('q, 't) shared"
  c_tx :: "'t sender_pc list"
  c_rx :: receiver_pc
  c_pushed :: "'t list"
  c_delivered :: "'t list"
  c_discarded :: "'t list"
  c_ended :: bool

definition start :: "('q, 't) seg_ops \<Rightarrow> nat \<Rightarrow> ('t \<Rightarrow> nat) \<Rightarrow> instant \<Rightarrow> ('q, 't) config" where
  "start ops initial size_fn now =
     \<lparr>c_sh = fst (channel ops initial size_fn now), c_tx = [Idle], c_rx = Rx_Idle,
      c_pushed = [], c_delivered = [], c_discarded = [], c_ended = False\<rparr>"

fun log_event :: "'t queue_event \<Rightarrow> ('q, 't) config \<Rightarrow> ('q, 't) config" where
  "log_event (Published x) c = c\<lparr>c_pushed := c_pushed c @ [x]\<rparr>"
| "log_event (Delivered x) c = c\<lparr>c_delivered := c_delivered c @ [x]\<rparr>"
| "log_event (Discarded x) c = c\<lparr>c_discarded := c_discarded c @ [x]\<rparr>"
| "log_event Ended c = c\<lparr>c_ended := True\<rparr>"
| "log_event e c = c"

definition run_sender ::
  "('q, 't) seg_ops \<Rightarrow> nat \<Rightarrow> instant \<Rightarrow> nat \<Rightarrow> ('q, 't) config \<Rightarrow> ('q, 't) config" where
  "run_sender ops slot t i c =
     (case sender_step ops slot t (c_sh c) (c_tx c ! i) of
        (s, pc, e) \<Rightarrow> log_event e (c\<lparr>c_sh := s, c_tx := (c_tx c)[i := pc]\<rparr>))"

definition run_receiver :: "('q, 't) seg_ops \<Rightarrow> instant \<Rightarrow> ('q, 't) config \<Rightarrow> ('q, 't) config" where
  "run_receiver ops t c =
     (case receiver_step ops t (c_sh c) (c_rx c) of
        (s, pc, e) \<Rightarrow> log_event e (c\<lparr>c_sh := s, c_rx := pc\<rparr>))"

text \<open>
  \<open>Sender::clone\<close> also clones the \<open>Arc\<close>, which aborts the process long before the handle count
  reaches \<open>usize::MAX\<close>.
\<close>

inductive q_step :: "('q, 't) seg_ops \<Rightarrow> nat \<Rightarrow> ('q, 't) config \<Rightarrow> ('q, 't) config \<Rightarrow> bool"
  for ops :: "('q, 't) seg_ops" and slot :: nat where
  tx_run: "i < length (c_tx c) \<Longrightarrow> q_step ops slot c (run_sender ops slot t i c)"
| tx_reserve: "i < length (c_tx c) \<Longrightarrow> c_tx c ! i = Idle \<Longrightarrow>
    q_step ops slot c (c\<lparr>c_tx := (c_tx c)[i := Enter b]\<rparr>)"
| tx_send: "i < length (c_tx c) \<Longrightarrow> c_tx c ! i = Holds cost \<Longrightarrow>
    q_step ops slot c (c\<lparr>c_tx := (c_tx c)[i := Send item cost]\<rparr>)"
| tx_abandon: "i < length (c_tx c) \<Longrightarrow> c_tx c ! i = Holds cost \<Longrightarrow>
    q_step ops slot c (c\<lparr>c_tx := (c_tx c)[i := Dropping cost]\<rparr>)"
| tx_clone: "i < length (c_tx c) \<Longrightarrow> c_tx c ! i \<noteq> Gone \<Longrightarrow> q_senders (c_sh c) < usize_max \<Longrightarrow>
    q_step ops slot c (c\<lparr>c_sh := snd_clone (c_sh c), c_tx := c_tx c @ [Idle]\<rparr>)"
| tx_drop: "i < length (c_tx c) \<Longrightarrow> c_tx c ! i = Idle \<Longrightarrow>
    q_step ops slot c (c\<lparr>c_sh := snd_drop (c_sh c), c_tx := (c_tx c)[i := Gone]\<rparr>)"
| rx_run: "q_step ops slot c (run_receiver ops t c)"
| rx_poll: "c_rx c = Rx_Idle \<Longrightarrow> q_step ops slot c (c\<lparr>c_rx := Rx_Pop n\<rparr>)"
| rx_try: "c_rx c = Rx_Idle \<Longrightarrow> q_step ops slot c (c\<lparr>c_rx := Rx_Try\<rparr>)"
| rx_close: "c_rx c = Rx_Idle \<Longrightarrow> q_step ops slot c (c\<lparr>c_rx := Rx_Closing\<rparr>)"

abbreviation q_reach :: "('q, 't) seg_ops \<Rightarrow> nat \<Rightarrow> ('q, 't) config \<Rightarrow> ('q, 't) config \<Rightarrow> bool" where
  "q_reach ops slot \<equiv> (q_step ops slot)\<^sup>*\<^sup>*"

inductive_cases q_stepE: "q_step ops slot c c'"

section \<open>Byte accounting\<close>

text \<open>The bytes an operation in progress has reserved or popped and not yet released.\<close>

fun held :: "'t sender_pc \<Rightarrow> nat" where
  "held (Recheck cost) = cost"
| "held (Holds cost) = cost"
| "held (Send item cost) = cost"
| "held (Push item cost) = cost"
| "held (Freeing cost) = cost"
| "held (Dropping cost) = cost"
| "held pc = 0"

fun rx_held :: "receiver_pc \<Rightarrow> nat" where
  "rx_held (Rx_Batch n cost) = cost"
| "rx_held (Rx_Release cost n) = cost"
| "rx_held (Rx_Freeing cost) = cost"
| "rx_held pc = 0"

definition queued_cost :: "('q \<Rightarrow> ('t \<times> nat) list) \<Rightarrow> ('q, 't) shared \<Rightarrow> nat" where
  "queued_cost items s = sum_list (map snd (items (q_items s)))"

definition accounted :: "('q \<Rightarrow> ('t \<times> nat) list) \<Rightarrow> ('q, 't) config \<Rightarrow> bool" where
  "accounted items c \<longleftrightarrow>
     q_bytes (c_sh c) = queued_cost items (c_sh c) + sum_list (map held (c_tx c)) + rx_held (c_rx c) \<and>
     q_bytes (c_sh c) \<le> usize_max"

lemma queued_cost_cong [simp]:
  "queued_cost items (s\<lparr>q_bytes := b\<rparr>) = queued_cost items s"
  "queued_cost items (s\<lparr>q_senders := n\<rparr>) = queued_cost items s"
  "queued_cost items (s\<lparr>q_closed := cl\<rparr>) = queued_cost items s"
  "queued_cost items (s\<lparr>q_completed := b\<rparr>) = queued_cost items s"
  by (simp_all add: queued_cost_def)

lemma queued_cost_pop:
  "seg_fifo ops items \<Longrightarrow> sq_pop ops (q_items s) = Some ((x, cost), q) \<Longrightarrow>
     queued_cost items s = cost + queued_cost items (s\<lparr>q_items := q\<rparr>)"
  by (simp add: queued_cost_def seg_fifo_Some)

lemma queued_cost_push:
  "seg_fifo ops items \<Longrightarrow>
     queued_cost items (s\<lparr>q_items := sq_push ops (q_items s) (x, cost)\<rparr>) = queued_cost items s + cost"
  by (simp add: queued_cost_def seg_fifo_push)

lemma refresh_step_frame:
  assumes "refresh_step s pc = (s', pc')"
  shows "q_items s' = q_items s" "q_bytes s' = q_bytes s" "q_closed s' = q_closed s"
    "q_senders s' = q_senders s" "q_initial s' = q_initial s"
  using assms by (cases pc; auto)+

text \<open>No access of a sender or of the receiver changes the balance between the counter and the rest.\<close>

lemma sender_step_balance:
  assumes "seg_fifo ops items" "sender_step ops slot t s pc = (s', pc', e)"
    and "held pc \<le> q_bytes s" "q_bytes s \<le> usize_max"
  shows "q_bytes s' + (queued_cost items s + held pc) = q_bytes s + (queued_cost items s' + held pc') \<and>
    q_bytes s' \<le> usize_max"
proof (cases pc)
  case (Refresh cost r)
  then show ?thesis using assms
    by (cases r) (auto simp: queued_cost_def Let_def split: if_splits)
next
  case Discarding
  then show ?thesis using assms
    by (auto split: option.splits simp: queued_cost_pop [OF assms(1)])
qed (use assms in \<open>auto simp: queued_cost_push sh_fetch_sub_def reserve_update_Some
       split: option.splits if_splits\<close>)

lemma receiver_step_balance:
  assumes "seg_fifo ops items" "receiver_step ops t s pc = (s', pc', e)"
    and "rx_held pc \<le> q_bytes s" "q_bytes s \<le> usize_max"
  shows "q_bytes s' + (queued_cost items s + rx_held pc) = q_bytes s + (queued_cost items s' + rx_held pc') \<and>
    q_bytes s' \<le> usize_max"
proof (cases pc)
  case (Rx_Refresh cost r n)
  then show ?thesis using assms
    by (cases r) (auto simp: queued_cost_def Let_def split: if_splits)
qed (use assms in \<open>auto simp: queued_cost_pop [OF assms(1)] sh_fetch_sub_def Let_def
       split: option.splits if_splits nat.splits\<close>)

lemma log_event_fields [simp]:
  "c_sh (log_event e c) = c_sh c" "c_tx (log_event e c) = c_tx c" "c_rx (log_event e c) = c_rx c"
  by (cases e; simp)+

lemma accounted_step:
  assumes "seg_fifo ops items" "q_step ops slot c c'" "accounted items c"
  shows "accounted items c'"
  using assms(2)
proof cases
  case (tx_run i t)
  obtain s pc e where step: "sender_step ops slot t (c_sh c) (c_tx c ! i) = (s, pc, e)"
    by (cases "sender_step ops slot t (c_sh c) (c_tx c ! i)") auto
  have "held (c_tx c ! i) \<le> q_bytes (c_sh c)" "q_bytes (c_sh c) \<le> usize_max"
    using assms(3) sum_list_ge_nth [OF tx_run(2), of held] by (auto simp: accounted_def)
  from sender_step_balance [OF assms(1) step this] sum_list_update_nat [OF tx_run(2), of held pc] assms(3)
  show ?thesis by (simp add: accounted_def tx_run(1) run_sender_def step)
next
  case (rx_run t)
  obtain s pc e where step: "receiver_step ops t (c_sh c) (c_rx c) = (s, pc, e)"
    by (cases "receiver_step ops t (c_sh c) (c_rx c)") auto
  have "rx_held (c_rx c) \<le> q_bytes (c_sh c)" "q_bytes (c_sh c) \<le> usize_max"
    using assms(3) by (auto simp: accounted_def)
  from receiver_step_balance [OF assms(1) step this] assms(3)
  show ?thesis by (simp add: accounted_def rx_run(1) run_receiver_def step)
next
  case (tx_reserve i b)
  then show ?thesis using assms(3) sum_list_update_nat [OF tx_reserve(2), of held "Enter b"]
    by (simp add: accounted_def)
next
  case (tx_send i cost item)
  then show ?thesis using assms(3) sum_list_update_nat [OF tx_send(2), of held "Send item cost"]
    by (simp add: accounted_def)
next
  case (tx_abandon i cost)
  then show ?thesis using assms(3) sum_list_update_nat [OF tx_abandon(2), of held "Dropping cost"]
    by (simp add: accounted_def)
next
  case (tx_drop i)
  then show ?thesis using assms(3) sum_list_update_nat [OF tx_drop(2), of held Gone]
    by (simp add: accounted_def snd_drop_def)
qed (use assms(3) in \<open>auto simp: accounted_def snd_clone_def\<close>)

lemma accounted_start: "seg_fifo ops items \<Longrightarrow> accounted items (start ops initial size_fn now)"
  by (simp add: accounted_def start_def channel_def queued_cost_def seg_fifo_new)

lemma q_reach_induct [consumes 1, case_names start step]:
  assumes "q_reach ops slot c0 c" "P c0"
    and "\<And>c c'. q_reach ops slot c0 c \<Longrightarrow> q_step ops slot c c' \<Longrightarrow> P c \<Longrightarrow> P c'"
  shows "P c"
  using assms(1) by (induction rule: rtranclp_induct) (use assms in auto)

lemma accounted_reach:
  assumes "seg_fifo ops items" "q_reach ops slot (start ops initial size_fn now) c"
  shows "accounted items c"
  using assms(2)
  by (induction rule: q_reach_induct)
    (auto intro: accounted_start [OF assms(1)] accounted_step [OF assms(1)])

section \<open>Order, closure and the end of the stream\<close>

fun discards :: "'t sender_pc \<Rightarrow> bool" where
  "discards Discarding = True"
| "discards (Freeing cost) = True"
| "discards pc = False"

fun drains :: "'t sender_pc \<Rightarrow> bool" where
  "drains Pushed = True"
| "drains pc = discards pc"

fun rx_drains :: "receiver_pc \<Rightarrow> bool" where
  "rx_drains Rx_Discarding = True"
| "rx_drains (Rx_Freeing cost) = True"
| "rx_drains pc = False"

definition rx_closed :: "receiver_pc \<Rightarrow> bool" where
  "rx_closed pc \<longleftrightarrow> pc = Rx_Gone \<or> rx_drains pc"

definition queued :: "('q \<Rightarrow> ('t \<times> nat) list) \<Rightarrow> ('q, 't) shared \<Rightarrow> 't list" where
  "queued items s = map fst (items (q_items s))"

lemma queued_cong: "q_items s' = q_items s \<Longrightarrow> queued items s' = queued items s"
  by (simp add: queued_def)

lemma queued_update [simp]:
  "queued items (s\<lparr>q_bytes := b\<rparr>) = queued items s"
  "queued items (s\<lparr>q_senders := n\<rparr>) = queued items s"
  "queued items (s\<lparr>q_closed := cl\<rparr>) = queued items s"
  "queued items (s\<lparr>q_completed := b\<rparr>) = queued items s"
  "queued items (sh_fetch_sub s b) = queued items s"
  by (simp_all add: queued_def sh_fetch_sub_def)

lemma queued_pop:
  "seg_fifo ops items \<Longrightarrow> sq_pop ops (q_items s) = Some ((x, cost), q) \<Longrightarrow>
     queued items s = x # queued items (s\<lparr>q_items := q\<rparr>)"
  by (simp add: queued_def seg_fifo_Some)

lemma queued_push:
  "seg_fifo ops items \<Longrightarrow>
     queued items (s\<lparr>q_items := sq_push ops (q_items s) (x, cost)\<rparr>) = queued items s @ [x]"
  by (simp add: queued_def seg_fifo_push)

lemma queued_None: "seg_fifo ops items \<Longrightarrow> sq_pop ops (q_items s) = None \<Longrightarrow> queued items s = []"
  by (simp add: queued_def seg_fifo_None)

lemmas queued_facts = queued_pop queued_push queued_None

lemma sh_fetch_sub_fields [simp]:
  "q_items (sh_fetch_sub s cost) = q_items s" "q_closed (sh_fetch_sub s cost) = q_closed s"
  "q_senders (sh_fetch_sub s cost) = q_senders s" "q_initial (sh_fetch_sub s cost) = q_initial s"
  "q_target (sh_fetch_sub s cost) = q_target s" "q_refreshing (sh_fetch_sub s cost) = q_refreshing s"
  by (simp_all add: sh_fetch_sub_def)

lemma sender_refresh_step:
  assumes "sender_step ops slot t s (Refresh cost r) = (s', pc', e)"
  shows "e = Quiet" "q_items s' = q_items s" "q_closed s' = q_closed s" "q_senders s' = q_senders s"
    "pc' = Load cost \<and> r = R_Done \<and> s' = s \<or> (\<exists>r'. pc' = Refresh cost r' \<and> refresh_step s r = (s', r'))"
  using assms by (cases r; auto)+

lemma receiver_refresh_step:
  assumes "receiver_step ops t s (Rx_Refresh cost r n) = (s', pc', e)"
  shows "e = Quiet" "q_items s' = q_items s" "q_closed s' = q_closed s" "q_senders s' = q_senders s"
    "pc' = Rx_Complete cost n \<and> r = R_Done \<and> s' = s \<or>
     (\<exists>r'. pc' = Rx_Refresh cost r' n \<and> refresh_step s r = (s', r'))"
  using assms by (cases r; auto)+

text \<open>What an access does to the queue's contents, by the event it logs.\<close>

lemma sender_step_flow:
  assumes "seg_fifo ops items" "sender_step ops slot t s pc = (s', pc', e)"
  shows "(case e of Quiet \<Rightarrow> queued items s' = queued items s
      | Published x \<Rightarrow> queued items s' = queued items s @ [x]
      | Discarded x \<Rightarrow> queued items s = x # queued items s' \<and> discards pc
      | _ \<Rightarrow> False) \<and>
    q_closed s' = q_closed s \<and> q_senders s' = q_senders s \<and>
    (discards pc' \<longrightarrow> discards pc \<or> q_closed s) \<and> (pc' = Gone \<longleftrightarrow> pc = Gone) \<and>
    (pc = Gone \<longrightarrow> s' = s \<and> e = Quiet) \<and>
    (q_closed s \<longrightarrow> queued items s' \<noteq> [] \<longrightarrow> drains pc' \<or> queued items s \<noteq> [] \<and> \<not> drains pc)"
proof (cases pc)
  case (Refresh cost r)
  note facts = sender_refresh_step [OF assms(2) [unfolded Refresh]]
  show ?thesis using facts(1,3,4,5) queued_cong [OF facts(2)] Refresh by auto
next
  case Discarding
  then show ?thesis using assms(2)
    by (auto split: option.splits simp: queued_None [OF assms(1)] queued_pop [OF assms(1)])
qed (use assms in \<open>auto simp: queued_push split: option.splits if_splits\<close>)

lemma receiver_step_flow:
  assumes "seg_fifo ops items" "receiver_step ops t s pc = (s', pc', e)"
  shows "(case e of Published x \<Rightarrow> False
      | Delivered x \<Rightarrow> queued items s = x # queued items s' \<and> \<not> rx_closed pc
      | Discarded x \<Rightarrow> queued items s = x # queued items s' \<and> rx_closed pc
      | Ended \<Rightarrow> queued items s = [] \<and> s' = s \<and> (\<exists>n. pc = Rx_Last n)
      | _ \<Rightarrow> queued items s' = queued items s) \<and>
    q_senders s' = q_senders s \<and> q_closed s' = (q_closed s \<or> pc = Rx_Closing) \<and>
    rx_closed pc' = (rx_closed pc \<or> pc = Rx_Closing) \<and>
    (\<forall>n. pc' = Rx_Last n \<longrightarrow> q_senders s = 0) \<and>
    (q_closed s' \<longrightarrow> queued items s' \<noteq> [] \<longrightarrow>
      rx_drains pc' \<or> q_closed s \<and> queued items s \<noteq> [] \<and> \<not> rx_drains pc)"
proof (cases pc)
  case (Rx_Refresh cost r n)
  note facts = receiver_refresh_step [OF assms(2) [unfolded Rx_Refresh]]
  show ?thesis using facts(1,3,4,5) queued_cong [OF facts(2)] Rx_Refresh
    by (auto simp: rx_closed_def)
next
  case (Rx_Batch n cost)
  then show ?thesis using assms(2)
    by (auto simp: rx_closed_def queued_pop [OF assms(1)] Let_def
        split: option.splits if_splits nat.splits)
qed (use assms in \<open>auto simp: rx_closed_def queued_pop [OF assms(1)] queued_None [OF assms(1)]
       split: option.splits if_splits\<close>)

definition in_order :: "('q \<Rightarrow> ('t \<times> nat) list) \<Rightarrow> ('q, 't) config \<Rightarrow> bool" where
  "in_order items c \<longleftrightarrow>
     c_pushed c = c_delivered c @ c_discarded c @ queued items (c_sh c) \<and>
     (q_closed (c_sh c) \<longleftrightarrow> rx_closed (c_rx c)) \<and>
     (\<not> q_closed (c_sh c) \<longrightarrow> c_discarded c = []) \<and>
     (\<forall>i<length (c_tx c). discards (c_tx c ! i) \<longrightarrow> q_closed (c_sh c))"

definition drained :: "('q \<Rightarrow> ('t \<times> nat) list) \<Rightarrow> ('q, 't) config \<Rightarrow> bool" where
  "drained items c \<longleftrightarrow>
     (q_closed (c_sh c) \<longrightarrow> queued items (c_sh c) \<noteq> [] \<longrightarrow>
       rx_drains (c_rx c) \<or> (\<exists>i<length (c_tx c). drains (c_tx c ! i)))"

definition live :: "'t sender_pc \<Rightarrow> nat" where
  "live pc = (if pc = Gone then 0 else 1)"

definition live_handles :: "'t sender_pc list \<Rightarrow> nat" where
  "live_handles tx = sum_list (map live tx)"

definition handles :: "('q \<Rightarrow> ('t \<times> nat) list) \<Rightarrow> ('q, 't) config \<Rightarrow> bool" where
  "handles items c \<longleftrightarrow>
     q_senders (c_sh c) = live_handles (c_tx c) \<and>
     (\<forall>n. c_rx c = Rx_Last n \<longrightarrow> q_senders (c_sh c) = 0) \<and>
     (c_ended c \<longrightarrow> q_senders (c_sh c) = 0 \<and> queued items (c_sh c) = [] \<and> c_discarded c = [])"

lemma in_order_step:
  assumes "seg_fifo ops items" "q_step ops slot c c'" "in_order items c"
  shows "in_order items c'"
  using assms(2)
proof cases
  case (tx_run i t)
  obtain s pc e where step: "sender_step ops slot t (c_sh c) (c_tx c ! i) = (s, pc, e)"
    by (cases "sender_step ops slot t (c_sh c) (c_tx c ! i)") auto
  show ?thesis
    using sender_step_flow [OF assms(1) step] assms(3) tx_run(2)
    by (cases e) (auto simp: in_order_def tx_run(1) run_sender_def step nth_list_update)
next
  case (rx_run t)
  obtain s pc e where step: "receiver_step ops t (c_sh c) (c_rx c) = (s, pc, e)"
    by (cases "receiver_step ops t (c_sh c) (c_rx c)") auto
  show ?thesis
    using receiver_step_flow [OF assms(1) step] assms(3)
    by (cases e) (auto simp: in_order_def rx_run(1) run_receiver_def step)
qed (use assms(3) in \<open>auto simp: in_order_def nth_list_update snd_clone_def snd_drop_def nth_append
       rx_closed_def\<close>)

lemma drained_update:
  "i < length xs \<Longrightarrow>
     (\<exists>j<length (xs[i := pc]). drains (xs[i := pc] ! j)) \<longleftrightarrow>
       drains pc \<or> (\<exists>j<length xs. j \<noteq> i \<and> drains (xs ! j))"
  by (auto simp: nth_list_update)

lemma drained_call:
  assumes "drained items c" "i < length (c_tx c)" "\<not> drains (c_tx c ! i)" "c_rx c' = c_rx c"
    and "c_tx c' = (c_tx c)[i := pc]"
    and "q_closed (c_sh c') = q_closed (c_sh c)" "queued items (c_sh c') = queued items (c_sh c)"
  shows "drained items c'"
  using assms unfolding drained_def assms(5) drained_update [OF assms(2)] by auto

lemma drained_step:
  assumes "seg_fifo ops items" "q_step ops slot c c'" "drained items c"
  shows "drained items c'"
  using assms(2)
proof cases
  case (tx_run i t)
  obtain s pc e where step: "sender_step ops slot t (c_sh c) (c_tx c ! i) = (s, pc, e)"
    by (cases "sender_step ops slot t (c_sh c) (c_tx c ! i)") auto
  have flow: "q_closed s = q_closed (c_sh c)"
    "q_closed (c_sh c) \<longrightarrow> queued items s \<noteq> [] \<longrightarrow>
       drains pc \<or> queued items (c_sh c) \<noteq> [] \<and> \<not> drains (c_tx c ! i)"
    using sender_step_flow [OF assms(1) step] by blast+
  have "c_tx c' = (c_tx c)[i := pc]" "c_sh c' = s" "c_rx c' = c_rx c"
    by (simp_all add: tx_run(1) run_sender_def step)
  then show ?thesis
    using flow assms(3) unfolding drained_def by (simp only: drained_update [OF tx_run(2)]) auto
next
  case (rx_run t)
  obtain s pc e where step: "receiver_step ops t (c_sh c) (c_rx c) = (s, pc, e)"
    by (cases "receiver_step ops t (c_sh c) (c_rx c)") auto
  have "q_closed s \<longrightarrow> queued items s \<noteq> [] \<longrightarrow>
      rx_drains pc \<or> q_closed (c_sh c) \<and> queued items (c_sh c) \<noteq> [] \<and> \<not> rx_drains (c_rx c)"
    using receiver_step_flow [OF assms(1) step] by blast
  then show ?thesis
    using assms(3) by (auto simp: drained_def rx_run(1) run_receiver_def step)
next
  case (tx_reserve i b)
  show ?thesis by (rule drained_call [OF assms(3) tx_reserve(2)]) (simp_all add: tx_reserve)
next
  case (tx_send i cost item)
  show ?thesis by (rule drained_call [OF assms(3) tx_send(2)]) (simp_all add: tx_send)
next
  case (tx_abandon i cost)
  show ?thesis by (rule drained_call [OF assms(3) tx_abandon(2)]) (simp_all add: tx_abandon)
next
  case (tx_drop i)
  show ?thesis
    by (rule drained_call [OF assms(3) tx_drop(2)]) (simp_all add: tx_drop snd_drop_def)
next
  case (tx_clone i)
  then show ?thesis using assms(3)
    by (auto simp: drained_def snd_clone_def nth_append less_Suc_eq)
qed (use assms(3) in \<open>auto simp: drained_def\<close>)

lemma live_handles_update:
  "i < length xs \<Longrightarrow> live_handles (xs[i := pc]) + live (xs ! i) = live_handles xs + live pc"
  unfolding live_handles_def by (rule sum_list_update_nat)

lemma live_handles_clone: "live_handles (xs @ [Idle]) = live_handles xs + 1"
  by (simp add: live_handles_def live_def)

lemma live_handles_0: "live_handles xs = 0 \<longleftrightarrow> (\<forall>i<length xs. xs ! i = Gone)"
proof -
  have "live_handles xs = 0 \<longleftrightarrow> (\<forall>pc\<in>set xs. pc = Gone)"
    by (induction xs) (auto simp: live_handles_def live_def)
  then show ?thesis by (simp add: all_set_conv_all_nth)
qed

lemma handles_call:
  assumes "handles items c" "i < length (c_tx c)" "live (c_tx c ! i) = live pc"
  shows "handles items (c\<lparr>c_tx := (c_tx c)[i := pc]\<rparr>)"
  using assms(1,3) live_handles_update [OF assms(2), of pc] by (auto simp: handles_def)

lemma handles_step:
  assumes "seg_fifo ops items" "q_step ops slot c c'" "handles items c" "in_order items c"
  shows "handles items c'"
  using assms(2)
proof cases
  case (tx_run i t)
  obtain s pc e where step: "sender_step ops slot t (c_sh c) (c_tx c ! i) = (s, pc, e)"
    by (cases "sender_step ops slot t (c_sh c) (c_tx c ! i)") auto
  note flow = sender_step_flow [OF assms(1) step]
  have gone: "s = c_sh c \<and> e = Quiet" if "q_senders (c_sh c) = 0"
  proof -
    have "c_tx c ! i = Gone" using that assms(3) tx_run(2) by (simp add: handles_def live_handles_0)
    then show ?thesis using flow by simp
  qed
  have "pc = Gone \<longleftrightarrow> c_tx c ! i = Gone" using flow by blast
  then have "live_handles ((c_tx c)[i := pc]) = live_handles (c_tx c)"
    using live_handles_update [OF tx_run(2), of pc] by (auto simp: live_def split: if_splits)
  moreover have "e \<noteq> Ended" "q_senders s = q_senders (c_sh c)" using flow by (cases e; simp)+
  then have "c_ended c' = c_ended c" "c_rx c' = c_rx c" "c_sh c' = s" "c_tx c' = (c_tx c)[i := pc]"
    "q_senders s = q_senders (c_sh c)" "e = Quiet \<longrightarrow> c_discarded c' = c_discarded c"
    by (cases e; simp add: tx_run(1) run_sender_def step)+
  ultimately show ?thesis using gone assms(3) unfolding handles_def by auto
next
  case (rx_run t)
  obtain s pc e where step: "receiver_step ops t (c_sh c) (c_rx c) = (s, pc, e)"
    by (cases "receiver_step ops t (c_sh c) (c_rx c)") auto
  note flow = receiver_step_flow [OF assms(1) step]
  have keep: "q_senders s = q_senders (c_sh c)" "\<forall>n. pc = Rx_Last n \<longrightarrow> q_senders (c_sh c) = 0"
    using flow by simp_all
  have "c_ended c' \<longrightarrow> q_senders s = 0 \<and> queued items s = [] \<and> c_discarded c' = []"
  proof (cases "e = Ended")
    case True
    then have "queued items s = []" "\<exists>n. c_rx c = Rx_Last n" using flow by simp_all
    with True keep assms(3,4) show ?thesis
      by (auto simp: handles_def in_order_def rx_closed_def rx_run(1) run_receiver_def step)
  next
    case False
    have "c_ended c' = c_ended c" using False by (cases e) (simp_all add: rx_run(1) run_receiver_def step)
    moreover have "queued items s = [] \<and> c_discarded c' = c_discarded c" if "queued items (c_sh c) = []"
      using that flow False by (cases e) (simp_all add: rx_run(1) run_receiver_def step)
    ultimately show ?thesis using assms(3) keep by (auto simp: handles_def)
  qed
  with keep assms(3) show ?thesis by (auto simp: handles_def rx_run(1) run_receiver_def step)
next
  case (tx_reserve i b)
  then show ?thesis using handles_call [OF assms(3) tx_reserve(2), of "Enter b"] by (simp add: live_def)
next
  case (tx_send i cost item)
  then show ?thesis using handles_call [OF assms(3) tx_send(2), of "Send item cost"] by (simp add: live_def)
next
  case (tx_abandon i cost)
  then show ?thesis using handles_call [OF assms(3) tx_abandon(2), of "Dropping cost"] by (simp add: live_def)
next
  case (tx_drop i)
  have "live_handles ((c_tx c)[i := Gone]) + 1 = q_senders (c_sh c)"
    using live_handles_update [OF tx_drop(2), of Gone] tx_drop(3) assms(3)
    by (simp add: handles_def live_def)
  then show ?thesis using assms(3) by (auto simp: handles_def tx_drop(1) snd_drop_def)
next
  case (tx_clone i)
  have "q_senders (c_sh c) \<noteq> 0"
    using assms(3) tx_clone(2,3) by (auto simp: handles_def live_handles_0)
  then show ?thesis using assms(3) tx_clone(4)
    by (auto simp: handles_def tx_clone(1) snd_clone_def wrapping_add_exact live_handles_clone)
qed (use assms(3) in \<open>auto simp: handles_def\<close>)

lemma start_ok:
  assumes "seg_fifo ops items"
  shows "in_order items (start ops initial size_fn now)" "drained items (start ops initial size_fn now)"
    "handles items (start ops initial size_fn now)"
  using assms by (simp_all add: in_order_def drained_def handles_def start_def channel_def queued_def
      seg_fifo_new rx_closed_def live_def live_handles_def)

lemma flow_reach:
  assumes "seg_fifo ops items" "q_reach ops slot (start ops initial size_fn now) c"
  shows "in_order items c \<and> drained items c \<and> handles items c"
  using assms(2)
  by (induction rule: q_reach_induct)
    (use start_ok [OF assms(1)] in_order_step [OF assms(1)] drained_step [OF assms(1)]
       handles_step [OF assms(1)] in blast)+

section \<open>The refresh flag\<close>

text \<open>One for an operation between taking and releasing the \<open>refreshing\<close> flag.\<close>

fun locked :: "refresh_pc \<Rightarrow> nat" where
  "locked (R_Load now) = 0"
| "locked (R_Swap now) = 0"
| "locked R_Done = 0"
| "locked r = 1"

fun tx_locked :: "'t sender_pc \<Rightarrow> nat" where
  "tx_locked (Refresh cost r) = locked r"
| "tx_locked pc = 0"

fun rx_locked :: "receiver_pc \<Rightarrow> nat" where
  "rx_locked (Rx_Refresh cost r n) = locked r"
| "rx_locked pc = 0"

text \<open>A target computed but not yet stored lies in the same bounds as the stored one.\<close>

fun bounded_store :: "nat \<Rightarrow> refresh_pc \<Rightarrow> bool" where
  "bounded_store initial (R_Store now target) = (initial \<le> target \<and> target \<le> usize_max)"
| "bounded_store initial r = True"

fun tx_store :: "nat \<Rightarrow> 't sender_pc \<Rightarrow> bool" where
  "tx_store initial (Refresh cost r) = bounded_store initial r"
| "tx_store initial pc = True"

fun rx_store :: "nat \<Rightarrow> receiver_pc \<Rightarrow> bool" where
  "rx_store initial (Rx_Refresh cost r n) = bounded_store initial r"
| "rx_store initial pc = True"

definition target_bounds :: "('q, 't) shared \<Rightarrow> bool" where
  "target_bounds s \<longleftrightarrow> q_initial s \<le> q_target s \<and> q_target s \<le> usize_max"

definition exclusive :: "('q, 't) config \<Rightarrow> bool" where
  "exclusive c \<longleftrightarrow>
     of_bool (q_refreshing (c_sh c)) = sum_list (map tx_locked (c_tx c)) + rx_locked (c_rx c) \<and>
     target_bounds (c_sh c) \<and>
     (\<forall>i<length (c_tx c). tx_store (q_initial (c_sh c)) (c_tx c ! i)) \<and>
     rx_store (q_initial (c_sh c)) (c_rx c)"

lemma refresh_step_lock:
  assumes "refresh_step s r = (s', r')" "locked r \<le> of_bool (q_refreshing s)"
    and "target_bounds s" "bounded_store (q_initial s) r"
  shows "of_bool (q_refreshing s') + locked r = of_bool (q_refreshing s) + locked r' \<and>
    target_bounds s' \<and> bounded_store (q_initial s) r' \<and> q_initial s' = q_initial s"
proof (cases r)
  case (R_Compute now elapsed completed)
  have "q_initial s \<le> usize_max" "q_target s \<le> usize_max"
    using assms(3) by (auto simp: target_bounds_def)
  from refreshed_target_bounds [OF this] show ?thesis using assms R_Compute by auto
next
  case (R_Swap now)
  then show ?thesis using assms by (cases "q_refreshing s") (auto simp: target_bounds_def)
next
  case R_Unlock
  then show ?thesis using assms by (cases "q_refreshing s") (auto simp: target_bounds_def)
qed (use assms in \<open>auto simp: target_bounds_def Let_def\<close>)

lemma sender_step_lock:
  assumes "sender_step ops slot t s pc = (s', pc', e)" "tx_locked pc \<le> of_bool (q_refreshing s)"
    and "target_bounds s" "tx_store (q_initial s) pc"
  shows "of_bool (q_refreshing s') + tx_locked pc = of_bool (q_refreshing s) + tx_locked pc' \<and>
    target_bounds s' \<and> tx_store (q_initial s) pc' \<and> q_initial s' = q_initial s"
proof (cases pc)
  case (Refresh cost r)
  from sender_refresh_step(5) [OF assms(1) [unfolded Refresh]] show ?thesis
  proof
    assume "pc' = Load cost \<and> r = R_Done \<and> s' = s"
    then show ?thesis using assms(3) Refresh by simp
  next
    assume "\<exists>r'. pc' = Refresh cost r' \<and> refresh_step s r = (s', r')"
    then obtain r' where r': "pc' = Refresh cost r'" "refresh_step s r = (s', r')" by blast
    from refresh_step_lock [OF r'(2)] show ?thesis using assms(2-4) Refresh r'(1) by simp
  qed
qed (use assms in \<open>auto simp: target_bounds_def sh_fetch_sub_def split: option.splits if_splits\<close>)

lemma receiver_step_lock:
  assumes "receiver_step ops t s pc = (s', pc', e)" "rx_locked pc \<le> of_bool (q_refreshing s)"
    and "target_bounds s" "rx_store (q_initial s) pc"
  shows "of_bool (q_refreshing s') + rx_locked pc = of_bool (q_refreshing s) + rx_locked pc' \<and>
    target_bounds s' \<and> rx_store (q_initial s) pc' \<and> q_initial s' = q_initial s"
proof (cases pc)
  case (Rx_Refresh cost r n)
  from receiver_refresh_step(5) [OF assms(1) [unfolded Rx_Refresh]] show ?thesis
  proof
    assume "pc' = Rx_Complete cost n \<and> r = R_Done \<and> s' = s"
    then show ?thesis using assms(3) Rx_Refresh by simp
  next
    assume "\<exists>r'. pc' = Rx_Refresh cost r' n \<and> refresh_step s r = (s', r')"
    then obtain r' where r': "pc' = Rx_Refresh cost r' n" "refresh_step s r = (s', r')" by blast
    from refresh_step_lock [OF r'(2)] show ?thesis using assms(2-4) Rx_Refresh r'(1) by simp
  qed
qed (use assms in \<open>auto simp: target_bounds_def sh_fetch_sub_def Let_def
       split: option.splits if_splits nat.splits\<close>)

lemma exclusive_call:
  assumes "exclusive c" "i < length (c_tx c)" "tx_locked (c_tx c ! i) = 0" "tx_locked pc = 0"
    "\<And>n. tx_store n pc"
  shows "exclusive (c\<lparr>c_tx := (c_tx c)[i := pc]\<rparr>)"
  using assms sum_list_update_nat [OF assms(2), of tx_locked pc]
  unfolding exclusive_def by (simp add: nth_list_update)

lemma exclusive_step:
  assumes "q_step ops slot c c'" "exclusive c"
  shows "exclusive c'"
  using assms(1)
proof cases
  case (tx_run i t)
  obtain s pc e where step: "sender_step ops slot t (c_sh c) (c_tx c ! i) = (s, pc, e)"
    by (cases "sender_step ops slot t (c_sh c) (c_tx c ! i)") auto
  have "tx_locked (c_tx c ! i) \<le> of_bool (q_refreshing (c_sh c))" "target_bounds (c_sh c)"
    "tx_store (q_initial (c_sh c)) (c_tx c ! i)"
    using assms(2) sum_list_ge_nth [OF tx_run(2), of tx_locked] tx_run(2)
    unfolding exclusive_def by (linarith | blast)+
  from sender_step_lock [OF step this] assms(2) sum_list_update_nat [OF tx_run(2), of tx_locked pc]
  show ?thesis
    by (auto simp: exclusive_def tx_run(1,2) run_sender_def step nth_list_update)
next
  case (rx_run t)
  obtain s pc e where step: "receiver_step ops t (c_sh c) (c_rx c) = (s, pc, e)"
    by (cases "receiver_step ops t (c_sh c) (c_rx c)") auto
  have "rx_locked (c_rx c) \<le> of_bool (q_refreshing (c_sh c))" "target_bounds (c_sh c)"
    "rx_store (q_initial (c_sh c)) (c_rx c)"
    using assms(2) unfolding exclusive_def by (linarith | blast)+
  from receiver_step_lock [OF step this] assms(2) show ?thesis
    by (simp add: exclusive_def rx_run(1) run_receiver_def step)
next
  case (tx_drop i)
  then show ?thesis using assms(2) sum_list_update_nat [OF tx_drop(2), of tx_locked Gone]
    by (auto simp: exclusive_def snd_drop_def nth_list_update target_bounds_def)
next
  case (tx_clone i)
  then show ?thesis using assms(2)
    by (auto simp: exclusive_def snd_clone_def nth_append target_bounds_def)
next
  case (tx_reserve i b)
  then show ?thesis using exclusive_call [OF assms(2) tx_reserve(2)] by simp
next
  case (tx_send i cost item)
  then show ?thesis using exclusive_call [OF assms(2) tx_send(2)] by simp
next
  case (tx_abandon i cost)
  then show ?thesis using exclusive_call [OF assms(2) tx_abandon(2)] by simp
qed (use assms(2) in \<open>simp_all add: exclusive_def\<close>)

lemma exclusive_reach:
  assumes "initial \<le> usize_max" "q_reach ops slot (start ops initial size_fn now) c"
  shows "exclusive c"
  using assms(2)
proof (induction rule: q_reach_induct)
  case start
  show ?case using assms(1) by (simp add: exclusive_def start_def channel_def target_bounds_def)
next
  case (step c c')
  from step.hyps(2) step.IH show ?case by (rule exclusive_step)
qed

section \<open>Schedules\<close>

text \<open>
  The step relation as a function of an explicit action, so that schedules can be run: an action
  that the caller or the program counter does not allow gives \<open>None\<close>.
\<close>

datatype 't action =
    Run_Tx nat instant
  | Reserve_Tx nat nat
  | Send_Tx nat 't
  | Abandon_Tx nat
  | Clone_Tx nat
  | Drop_Tx nat
  | Run_Rx instant
  | Poll_Rx nat
  | Try_Rx
  | Close_Rx

fun act :: "('q, 't) seg_ops \<Rightarrow> nat \<Rightarrow> 't action \<Rightarrow> ('q, 't) config \<Rightarrow> ('q, 't) config option" where
  "act ops slot (Run_Tx i t) c = (if i < length (c_tx c) then Some (run_sender ops slot t i c) else None)"
| "act ops slot (Reserve_Tx i b) c =
     (if i < length (c_tx c) \<and> c_tx c ! i = Idle then Some (c\<lparr>c_tx := (c_tx c)[i := Enter b]\<rparr>) else None)"
| "act ops slot (Send_Tx i item) c =
     (if i < length (c_tx c) then
        (case c_tx c ! i of Holds cost \<Rightarrow> Some (c\<lparr>c_tx := (c_tx c)[i := Send item cost]\<rparr>) | _ \<Rightarrow> None)
      else None)"
| "act ops slot (Abandon_Tx i) c =
     (if i < length (c_tx c) then
        (case c_tx c ! i of Holds cost \<Rightarrow> Some (c\<lparr>c_tx := (c_tx c)[i := Dropping cost]\<rparr>) | _ \<Rightarrow> None)
      else None)"
| "act ops slot (Clone_Tx i) c =
     (if i < length (c_tx c) \<and> c_tx c ! i \<noteq> Gone \<and> q_senders (c_sh c) < usize_max
      then Some (c\<lparr>c_sh := snd_clone (c_sh c), c_tx := c_tx c @ [Idle]\<rparr>) else None)"
| "act ops slot (Drop_Tx i) c =
     (if i < length (c_tx c) \<and> c_tx c ! i = Idle
      then Some (c\<lparr>c_sh := snd_drop (c_sh c), c_tx := (c_tx c)[i := Gone]\<rparr>) else None)"
| "act ops slot (Run_Rx t) c = Some (run_receiver ops t c)"
| "act ops slot (Poll_Rx n) c = (if c_rx c = Rx_Idle then Some (c\<lparr>c_rx := Rx_Pop n\<rparr>) else None)"
| "act ops slot Try_Rx c = (if c_rx c = Rx_Idle then Some (c\<lparr>c_rx := Rx_Try\<rparr>) else None)"
| "act ops slot Close_Rx c = (if c_rx c = Rx_Idle then Some (c\<lparr>c_rx := Rx_Closing\<rparr>) else None)"

lemma act_step: "act ops slot a c = Some c' \<Longrightarrow> q_step ops slot c c'"
  by (cases a) (auto split: if_splits sender_pc.splits intro: q_step.intros)

lemma step_act:
  assumes "q_step ops slot c c'"
  shows "\<exists>a. act ops slot a c = Some c'"
  using assms
proof cases
  case (tx_run i t)
  then show ?thesis by (intro exI [of _ "Run_Tx i t"]) simp
next
  case (tx_reserve i b)
  then show ?thesis by (intro exI [of _ "Reserve_Tx i b"]) simp
next
  case (tx_send i cost item)
  then show ?thesis by (intro exI [of _ "Send_Tx i item"]) simp
next
  case (tx_abandon i cost)
  then show ?thesis by (intro exI [of _ "Abandon_Tx i"]) simp
next
  case (tx_clone i)
  then show ?thesis by (intro exI [of _ "Clone_Tx i"]) simp
next
  case (tx_drop i)
  then show ?thesis by (intro exI [of _ "Drop_Tx i"]) simp
next
  case (rx_run t)
  then show ?thesis by (intro exI [of _ "Run_Rx t"]) simp
next
  case (rx_poll n)
  then show ?thesis by (intro exI [of _ "Poll_Rx n"]) simp
next
  case rx_try
  then show ?thesis by (intro exI [of _ Try_Rx]) simp
next
  case rx_close
  then show ?thesis by (intro exI [of _ Close_Rx]) simp
qed

fun schedule :: "('q, 't) seg_ops \<Rightarrow> nat \<Rightarrow> 't action list \<Rightarrow> ('q, 't) config \<Rightarrow> ('q, 't) config option" where
  "schedule ops slot [] c = Some c"
| "schedule ops slot (a # as) c = Option.bind (act ops slot a c) (schedule ops slot as)"

lemma schedule_reach: "schedule ops slot as c = Some c' \<Longrightarrow> q_reach ops slot c c'"
proof (induction as arbitrary: c)
  case (Cons a as)
  from Cons.prems obtain d where "act ops slot a c = Some d" "schedule ops slot as d = Some c'"
    by (auto simp: bind_eq_Some_conv)
  with act_step Cons.IH show ?case by (meson converse_rtranclp_into_rtranclp)
qed simp

text \<open>The schedules at which the properties are evaluated, over the list queue.\<close>

definition start_list :: "((nat \<times> nat) list, nat) config" where
  "start_list = start seg_list 128 (\<lambda>n. n) 0"

lemmas run_defs = run_sender_def run_receiver_def start_list_def start_def channel_def seg_list_def
  sh_now_def reserve_update_def checked_add_def usize_max_def FEEDBACK_INTERVAL_def sh_fetch_sub_def
  wrapping_sub_def wrapping_add_def snd_drop_def snd_clone_def Let_def

text \<open>A sender publishes an item, and the receiver is dropped while a permit is still held.\<close>

definition close_race :: "nat action list" where
  "close_race =
     [Reserve_Tx 0 5, Run_Tx 0 1, Run_Tx 0 1, Run_Tx 0 1, Run_Tx 0 1, Run_Tx 0 1, Run_Tx 0 1,
      Send_Tx 0 7, Run_Tx 0 2, Close_Rx, Run_Rx 2, Run_Rx 2, Run_Tx 0 2, Run_Tx 0 2, Run_Tx 0 2,
      Run_Tx 0 2, Run_Tx 0 2]"

text \<open>A sender publishes an item and drops its handle; the receiver takes it and polls again.\<close>

definition send_and_end :: "nat action list" where
  "send_and_end =
     [Reserve_Tx 0 5, Run_Tx 0 1, Run_Tx 0 1, Run_Tx 0 1, Run_Tx 0 1, Run_Tx 0 1, Run_Tx 0 1,
      Send_Tx 0 7, Run_Tx 0 2, Run_Tx 0 2, Run_Tx 0 2, Drop_Tx 0,
      Poll_Rx 0, Run_Rx 3, Run_Rx 3, Run_Rx 3, Run_Rx 3, Run_Rx 3,
      Poll_Rx 0, Run_Rx 4, Run_Rx 4, Run_Rx 4]"

text \<open>Two handles refresh the target at once.\<close>

definition refresh_race :: "nat action list" where
  "refresh_race =
     [Clone_Tx 0, Reserve_Tx 0 5, Reserve_Tx 1 5, Run_Tx 0 16000000, Run_Tx 1 16000000,
      Run_Tx 0 16000000, Run_Tx 1 16000000, Run_Tx 0 16000000, Run_Tx 1 16000000]"

text \<open>
  The receiver's \<open>try_recv\<close> finds the queue empty; before it loads the handle count, the last sender
  publishes an item and goes away.
\<close>

definition try_recv_race :: "nat action list" where
  "try_recv_race =
     [Reserve_Tx 0 5, Run_Tx 0 1, Run_Tx 0 1, Run_Tx 0 1, Run_Tx 0 1, Run_Tx 0 1, Run_Tx 0 1,
      Try_Rx, Run_Rx 2, Send_Tx 0 7, Run_Tx 0 2, Run_Tx 0 2, Run_Tx 0 2, Drop_Tx 0]"

lemmas schedule_defs = close_race_def send_and_end_def refresh_race_def try_recv_race_def

section \<open>Properties\<close>

text \<open>
  C2. A closed channel leaks nothing, whatever the interleaving: once the receiver is gone and no
  sender operation is in progress, the queue is empty and every byte of credit has been released.
  In particular an item published while the receiver was closing was discarded by one of the two.
\<close>

theorem closed_channel_leaks_nothing:
  assumes "seg_fifo ops items" "q_reach ops slot (start ops initial size_fn now) c"
    and "c_rx c = Rx_Gone" "list_all (\<lambda>pc. pc = Idle \<or> pc = Gone) (c_tx c)"
  shows "queued items (c_sh c) = [] \<and> q_bytes (c_sh c) = 0"
proof -
  have idle: "c_tx c ! i = Idle \<or> c_tx c ! i = Gone" if "i < length (c_tx c)" for i
    using assms(4) that by (simp add: list_all_length)
  have "in_order items c" "drained items c" using flow_reach [OF assms(1,2)] by blast+
  then have empty: "queued items (c_sh c) = []"
    using assms(3) idle unfolding in_order_def drained_def rx_closed_def by fastforce
  moreover have "sum_list (map held (c_tx c)) = 0"
    using assms(4) by (induction "c_tx c" arbitrary: c) (auto simp: list_all_iff)
  ultimately show ?thesis
    using accounted_reach [OF assms(1,2)] assms(3)
    by (auto simp: accounted_def queued_def queued_cost_def)
qed

theorem closed_channel_leaks_nothing_witness:
  "\<exists>c. q_reach seg_list 24 start_list c \<and> c_rx c = Rx_Gone \<and> c_pushed c = [7] \<and>
     list_all (\<lambda>pc. pc = Idle \<or> pc = Gone) (c_tx c) \<and>
     queued (\<lambda>q. q) (c_sh c) = [] \<and> q_bytes (c_sh c) = 0"
proof -
  have "\<exists>c. schedule seg_list 24 close_race start_list = Some c \<and> c_rx c = Rx_Gone \<and> c_pushed c = [7] \<and>
      list_all (\<lambda>pc. pc = Idle \<or> pc = Gone) (c_tx c)"
    by (simp add: schedule_defs run_defs)
  then show ?thesis
    using closed_channel_leaks_nothing [OF seg_list_fifo, of 24 128 "\<lambda>n. n" 0] schedule_reach
    unfolding start_list_def by blast
qed

text \<open>
  C3. First in, first out, exactly once, whatever the interleaving: what was published is what was
  delivered, then what was discarded, then what is queued, each in publication order; and nothing is
  discarded before the receiver closes the channel.
\<close>

theorem channel_delivers_in_order:
  assumes "seg_fifo ops items" "q_reach ops slot (start ops initial size_fn now) c"
  shows "c_pushed c = c_delivered c @ c_discarded c @ queued items (c_sh c) \<and>
    (q_closed (c_sh c) \<or> c_discarded c = [])"
  using flow_reach [OF assms] by (auto simp: in_order_def)

theorem channel_delivers_in_order_witness:
  "\<exists>c. q_reach seg_list 24 start_list c \<and> c_discarded c = [7] \<and>
     c_pushed c = c_delivered c @ c_discarded c @ queued (\<lambda>q. q) (c_sh c) \<and>
     (q_closed (c_sh c) \<or> c_discarded c = [])"
proof -
  have "\<exists>c. schedule seg_list 24 close_race start_list = Some c \<and> c_discarded c = [7]"
    by (simp add: schedule_defs run_defs)
  then show ?thesis
    using channel_delivers_in_order [OF seg_list_fifo, of 24 128 "\<lambda>n. n" 0] schedule_reach
    unfolding start_list_def by blast
qed

text \<open>
  C5. The end of the stream is final and complete: when \<open>poll_recv\<close> has reported the end, every
  sender handle is gone, the queue is empty, and everything published was delivered. This is what the
  second pop after the handle count reads zero is for.
\<close>

theorem end_of_stream_is_complete:
  assumes "seg_fifo ops items" "q_reach ops slot (start ops initial size_fn now) c" "c_ended c"
  shows "c_delivered c = c_pushed c \<and> queued items (c_sh c) = [] \<and> q_senders (c_sh c) = 0 \<and>
    list_all (\<lambda>pc. pc = Gone) (c_tx c)"
proof -
  have "handles items c" "in_order items c" using flow_reach [OF assms(1,2)] by blast+
  then show ?thesis
    using assms(3) by (simp add: handles_def in_order_def live_handles_0 [THEN iffD1] list_all_length)
qed

theorem end_of_stream_is_complete_witness:
  "\<exists>c. q_reach seg_list 24 start_list c \<and> c_ended c \<and> c_pushed c = [7] \<and>
     c_delivered c = c_pushed c \<and> queued (\<lambda>q. q) (c_sh c) = [] \<and> q_senders (c_sh c) = 0 \<and>
     list_all (\<lambda>pc. pc = Gone) (c_tx c)"
proof -
  have "\<exists>c. schedule seg_list 24 send_and_end start_list = Some c \<and> c_ended c \<and> c_pushed c = [7]"
    by (simp add: schedule_defs run_defs)
  then show ?thesis
    using end_of_stream_is_complete [OF seg_list_fifo, of 24 128 "\<lambda>n. n" 0] schedule_reach
    unfolding start_list_def by blast
qed

text \<open>
  C6. Byte credits are exact at every moment: the counter is the cost of the queued items plus what
  every operation in progress has reserved or popped and not yet released. So no release can make it
  wrap (the \<open>debug_assert!\<close> in \<open>release\<close> holds), for any sender and for the receiver.
\<close>

theorem credits_never_wrap:
  assumes "seg_fifo ops items" "q_reach ops slot (start ops initial size_fn now) c"
  shows "q_bytes (c_sh c) = queued_cost items (c_sh c) + sum_list (map held (c_tx c)) + rx_held (c_rx c) \<and>
    q_bytes (c_sh c) \<le> usize_max \<and> rx_held (c_rx c) \<le> q_bytes (c_sh c) \<and>
    list_all (\<lambda>pc. held pc \<le> q_bytes (c_sh c)) (c_tx c)"
proof -
  have acc: "accounted items c" by (rule accounted_reach [OF assms])
  have "held (c_tx c ! i) \<le> q_bytes (c_sh c)" if "i < length (c_tx c)" for i
    using acc sum_list_ge_nth [OF that, of held] by (simp add: accounted_def)
  then show ?thesis using acc by (simp add: accounted_def list_all_length)
qed

theorem credits_never_wrap_witness:
  "\<exists>c. q_reach seg_list 24 start_list c \<and> c_tx c = [Pushed] \<and>
     q_bytes (c_sh c) = queued_cost (\<lambda>q. q) (c_sh c) + sum_list (map held (c_tx c)) + rx_held (c_rx c) \<and>
     q_bytes (c_sh c) \<le> usize_max \<and> rx_held (c_rx c) \<le> q_bytes (c_sh c) \<and>
     list_all (\<lambda>pc. held pc \<le> q_bytes (c_sh c)) (c_tx c)"
proof -
  have "\<exists>c. schedule seg_list 24 (take 10 send_and_end) start_list = Some c \<and> c_tx c = [Pushed]"
    by (simp add: schedule_defs run_defs)
  then show ?thesis
    using credits_never_wrap [OF seg_list_fifo, of 24 128 "\<lambda>n. n" 0] schedule_reach
    unfolding start_list_def by blast
qed

text \<open>
  The \<open>refreshing\<close> flag excludes: at any moment at most one sender or receiver is between taking
  and releasing it, exactly when the flag is set; and the target never leaves the range from the
  initial burst to \<open>usize::MAX\<close>.
\<close>

lemma refresh_is_exclusive:
  assumes "initial \<le> usize_max" "q_reach ops slot (start ops initial size_fn now) c"
  shows "sum_list (map tx_locked (c_tx c)) + rx_locked (c_rx c) = of_bool (q_refreshing (c_sh c)) \<and>
    q_initial (c_sh c) \<le> q_target (c_sh c) \<and> q_target (c_sh c) \<le> usize_max"
  using exclusive_reach [OF assms] by (simp add: exclusive_def target_bounds_def)

text \<open>
  C11. \<open>try_recv\<close> has no second pop: there is an interleaving in which it reports \<open>Closed\<close> while an item
  is still queued.
\<close>

theorem try_recv_reports_closed_early:
  "\<exists>c s pc. q_reach seg_list 24 start_list c \<and>
     receiver_step seg_list 3 (c_sh c) (c_rx c) = (s, pc, Reported_Closed) \<and> queued (\<lambda>q. q) s = [7]"
proof -
  have "\<exists>c s pc. schedule seg_list 24 try_recv_race start_list = Some c \<and>
      receiver_step seg_list 3 (c_sh c) (c_rx c) = (s, pc, Reported_Closed) \<and> queued (\<lambda>q. q) s = [7]"
    by (simp add: schedule_defs run_defs queued_def)
  then show ?thesis using schedule_reach by blast
qed

end
