(* ===== verification/Stream_Buffer.thy ===== *)
theory Stream_Buffer
  imports Capacity
begin

text \<open>
  The in-memory duplex stream of \<open>crates/protocol/src/stream_buffer.rs\<close>: each direction is a pipe of
  chunks with an adaptive allowance. The pipe is modelled under its lock, so each operation is atomic.
  The capacity that \<open>Vec::with_capacity(CHUNK)\<close> really gives is a parameter of a write, since the
  allocator may round it up; wakers and the runtime's cooperative budget only decide when an operation
  is called. The locale \<open>byte_pipe\<close> says what a relay may assume of a pipe.
\<close>

section \<open>State and operations\<close>

definition CHUNK :: nat where
  "CHUNK = 16 * 1024"

text \<open>A chunk is its bytes and its vector's capacity.\<close>

record pipe =
  p_chunks :: "(bytes \<times> nat) list"
  p_offset :: nat
  p_bytes :: nat
  p_capacity :: capacity
  p_writer_closed :: bool
  p_reader_closed :: bool

definition pipe_new :: "nat \<Rightarrow> instant \<Rightarrow> pipe" where
  "pipe_new initial now =
     \<lparr>p_chunks = [], p_offset = 0, p_bytes = 0, p_capacity = cap_new initial now,
      p_writer_closed = False, p_reader_closed = False\<rparr>"

text \<open>The two pipes of a duplex pair: what the first endpoint reads and what it writes.\<close>

definition duplex_with_capacity :: "nat \<Rightarrow> instant \<Rightarrow> (pipe \<times> pipe) option" where
  "duplex_with_capacity initial now =
     (if 0 < initial then Some (pipe_new initial now, pipe_new initial now) else None)"

definition duplex :: "instant \<Rightarrow> (pipe \<times> pipe) option" where
  "duplex now = duplex_with_capacity INITIAL_BYTES now"

text \<open>The copy loop of \<open>read_inner\<close>: \<open>n\<close> bytes of room are left, \<open>out\<close> has been filled.\<close>

function pipe_read_loop :: "pipe \<Rightarrow> nat \<Rightarrow> bytes \<Rightarrow> (pipe \<times> bytes) option" where
  "pipe_read_loop p n out =
     (if n = 0 then Some (p, out)
      else case p_chunks p of
        [] \<Rightarrow> Some (p, out)
      | (chunk, c) # rest \<Rightarrow>
          if length chunk < p_offset p then None
          else
            let len = length chunk;
                count = min n (len - p_offset p)
            in if p_bytes p < count then None
               else
                 let out' = out @ rslice (p_offset p) (p_offset p + count) chunk;
                     offset = p_offset p + count;
                     p1 = p\<lparr>p_offset := offset, p_bytes := p_bytes p - count\<rparr>;
                     p2 = (if offset = len then p1\<lparr>p_chunks := rest, p_offset := 0\<rparr> else p1)
                 in pipe_read_loop p2 (n - count) out')"
  by pat_completeness auto
termination
  by (relation "measure (\<lambda>(p, n, out). n + length (p_chunks p))") (auto simp: min_def split: if_splits)

declare pipe_read_loop.simps [simp del]

definition pipe_read :: "pipe \<Rightarrow> nat \<Rightarrow> instant \<Rightarrow> (pipe \<times> bytes poll) option" where
  "pipe_read p n now =
     (if n = 0 then Some (p, Ready [])
      else case pipe_read_loop p n [] of
        None \<Rightarrow> None
      | Some (p', out) \<Rightarrow>
          if 0 < length out
          then Some (p'\<lparr>p_capacity := cap_complete (p_capacity p') (length out) now\<rparr>, Ready out)
          else if p_writer_closed p' then Some (p', Ready [])
          else Some (p', Pending))"

text \<open>The unused capacity of the last chunk.\<close>

definition pipe_room :: "pipe \<Rightarrow> nat" where
  "pipe_room p = (case p_chunks p of [] \<Rightarrow> 0 | _ \<Rightarrow> snd (last (p_chunks p)) - length (fst (last (p_chunks p))))"

text \<open>
  The copy of \<open>write_inner\<close>: into the last chunk while it has room, else into a fresh one, for which
  the allocator gave the capacity \<open>alloc\<close>.
\<close>

definition pipe_extend :: "pipe \<Rightarrow> bytes \<Rightarrow> nat \<Rightarrow> nat \<Rightarrow> (pipe \<times> nat) option" where
  "pipe_extend p data alloc count =
     (if 0 < pipe_room p then
        let count = min count (pipe_room p) in
        (case p_chunks p of
           [] \<Rightarrow> None
         | _ \<Rightarrow>
             Some (p\<lparr>p_chunks := butlast (p_chunks p) @
                      [(fst (last (p_chunks p)) @ take count data, snd (last (p_chunks p)))],
                    p_bytes := p_bytes p + count\<rparr>, count))
      else
        Some (p\<lparr>p_chunks := p_chunks p @ [(take count data, alloc)],
               p_bytes := p_bytes p + count\<rparr>, count))"

text \<open>\<open>write_inner\<close>. The error is always \<open>BrokenPipe\<close>.\<close>

definition pipe_write :: "pipe \<Rightarrow> bytes \<Rightarrow> nat \<Rightarrow> instant \<Rightarrow> (pipe \<times> (io_error + nat) poll) option" where
  "pipe_write p data alloc now =
     (if data = [] then Some (p, Ready (Inr 0))
      else if p_reader_closed p \<or> p_writer_closed p then Some (p, Ready (Inl Broken_Pipe))
      else
        let (cap, target) = cap_target_at (p_capacity p) now;
            p = p\<lparr>p_capacity := cap\<rparr>;
            space = target - p_bytes p
        in if space = 0 then Some (p, Pending)
           else
             map_option (\<lambda>(p, count). (p, Ready (Inr count)))
               (pipe_extend p data alloc (min (min space (length data)) CHUNK)))"

definition pipe_shutdown :: "pipe \<Rightarrow> pipe" where
  "pipe_shutdown p = p\<lparr>p_writer_closed := True\<rparr>"

text \<open>Dropping an endpoint ends the pipe it writes and closes the one it reads.\<close>

definition stream_drop :: "pipe \<Rightarrow> pipe \<Rightarrow> pipe \<times> pipe" where
  "stream_drop rd wr =
     (rd\<lparr>p_reader_closed := True, p_chunks := [], p_bytes := 0\<rparr>, wr\<lparr>p_writer_closed := True\<rparr>)"

section \<open>Invariant and abstraction\<close>

definition buffered :: "pipe \<Rightarrow> bytes" where
  "buffered p = drop (p_offset p) (concat (map fst (p_chunks p)))"

fun front_ok :: "(bytes \<times> nat) list \<Rightarrow> nat \<Rightarrow> bool" where
  "front_ok [] offset = (offset = 0)"
| "front_ok (c # cs) offset = (offset < length (fst c))"

definition pipe_ok :: "pipe \<Rightarrow> bool" where
  "pipe_ok p \<longleftrightarrow>
     front_ok (p_chunks p) (p_offset p) \<and>
     (\<forall>c \<in> set (p_chunks p). fst c \<noteq> []) \<and>
     p_bytes p = length (buffered p) \<and> cap_ok (p_capacity p)"

section \<open>The contract of a byte pipe\<close>

text \<open>
  \<open>put\<close> offers bytes and says which were accepted, \<open>get\<close> takes bytes out; both may refuse to make
  progress. Whatever is done to a pipe, what was accepted is what was taken out followed by what is
  still inside.
\<close>

locale byte_pipe =
  fixes put :: "'s \<Rightarrow> 'w \<Rightarrow> ('s \<times> 'b list) option"
    and get :: "'s \<Rightarrow> 'r \<Rightarrow> ('s \<times> 'b list) option"
    and inside :: "'s \<Rightarrow> 'b list"
    and ok :: "'s \<Rightarrow> bool"
  assumes put_law: "ok s \<Longrightarrow> \<exists>s' a. put s w = Some (s', a) \<and> ok s' \<and> inside s' = inside s @ a"
    and get_law: "ok s \<Longrightarrow> \<exists>s' a. get s r = Some (s', a) \<and> ok s' \<and> inside s = a @ inside s'"
begin

fun drive :: "'s \<Rightarrow> ('w + 'r) list \<Rightarrow> 'b list \<Rightarrow> 'b list \<Rightarrow> ('s \<times> 'b list \<times> 'b list) option" where
  "drive s [] i out = Some (s, i, out)"
| "drive s (Inl w # es) i out =
     (case put s w of None \<Rightarrow> None | Some (s', a) \<Rightarrow> drive s' es (i @ a) out)"
| "drive s (Inr r # es) i out =
     (case get s r of None \<Rightarrow> None | Some (s', a) \<Rightarrow> drive s' es i (out @ a))"

lemma drive_fifo:
  assumes "ok s" "i = out @ inside s"
  shows "\<exists>s' i' out'. drive s es i out = Some (s', i', out') \<and> ok s' \<and> i' = out' @ inside s'"
  using assms
proof (induction es arbitrary: s i out)
  case (Cons e es)
  show ?case
  proof (cases e)
    case (Inl w)
    obtain s' a where "put s w = Some (s', a)" "ok s'" "inside s' = inside s @ a"
      using put_law [OF Cons.prems(1)] by blast
    with Cons.IH [of s' "i @ a" out] Cons.prems(2) Inl show ?thesis by simp
  next
    case (Inr r)
    obtain s' a where "get s r = Some (s', a)" "ok s'" "inside s = a @ inside s'"
      using get_law [OF Cons.prems(1)] by blast
    with Cons.IH [of s' i "out @ a"] Cons.prems(2) Inr show ?thesis by simp
  qed
qed simp

end

section \<open>Lemmas\<close>

lemma buffered_Cons:
  assumes "p_chunks p = (chunk, c) # rest" "p_offset p \<le> length chunk"
  shows "buffered p = drop (p_offset p) chunk @ concat (map fst rest)"
  using assms by (simp add: buffered_def)

lemma take_read_chunk:
  assumes "k = min n (length chunk - off)" "off \<le> length chunk"
  shows "take n (drop off chunk @ xs) =
    rslice off (off + k) chunk @ take (n - k) (drop (off + k) chunk @ xs)"
proof (cases "n \<le> length chunk - off")
  case True
  then show ?thesis using assms by (simp add: rslice_def)
next
  case False
  then show ?thesis using assms by (simp add: rslice_def)
qed

lemma drop_read_chunk:
  assumes "k = min n (length chunk - off)" "off \<le> length chunk"
  shows "drop n (drop off chunk @ xs) = drop (n - k) (drop (off + k) chunk @ xs)"
  using assms by (cases "n \<le> length chunk - off") (auto simp: add.commute)

lemma pipe_read_loop_takes:
  assumes "pipe_ok p"
  shows "\<exists>p'. pipe_read_loop p n out = Some (p', out @ take n (buffered p)) \<and> pipe_ok p' \<and>
    buffered p' = drop n (buffered p) \<and> p_writer_closed p' = p_writer_closed p \<and>
    p_reader_closed p' = p_reader_closed p \<and> p_capacity p' = p_capacity p"
  using assms
proof (induction p n out rule: pipe_read_loop.induct)
  case (1 p n out)
  show ?case
  proof (cases "n = 0 \<or> p_chunks p = []")
    case True
    then show ?thesis using 1(2)
      by (subst pipe_read_loop.simps) (auto simp: buffered_def)
  next
    case False
    then obtain chunk c rest where ch: "p_chunks p = (chunk, c) # rest"
      by (cases "p_chunks p") auto
    define k where "k = min n (length chunk - p_offset p)"
    have off: "p_offset p < length chunk" using 1(2) ch by (simp add: pipe_ok_def)
    have buf: "buffered p = drop (p_offset p) chunk @ concat (map fst rest)"
      using buffered_Cons [OF ch] off by simp
    have enough: "k \<le> p_bytes p" using 1(2) buf by (simp add: pipe_ok_def k_def)
    define p2 where "p2 = (if p_offset p + k = length chunk
      then p\<lparr>p_offset := p_offset p + k, p_bytes := p_bytes p - k, p_chunks := rest, p_offset := 0\<rparr>
      else p\<lparr>p_offset := p_offset p + k, p_bytes := p_bytes p - k\<rparr>)"
    have k_le: "p_offset p + k \<le> length chunk" using off by (auto simp: k_def)
    have buf2: "buffered p2 = drop (p_offset p + k) chunk @ concat (map fst rest)"
      using k_le ch by (auto simp: p2_def buffered_def)
    have len2: "p_bytes p2 = length (buffered p2)"
      using 1(2) buf buf2 k_le off by (auto simp: pipe_ok_def p2_def)
    have ok2: "pipe_ok p2"
      using 1(2) k_le len2 ch unfolding pipe_ok_def p2_def
      by (cases rest) auto
    have step: "pipe_read_loop p n out =
        pipe_read_loop p2 (n - k) (out @ rslice (p_offset p) (p_offset p + k) chunk)"
      using False off enough ch
      by (subst pipe_read_loop.simps) (simp add: Let_def k_def p2_def del: min_less_iff_conj)
    have "\<exists>p'. pipe_read_loop p2 (n - k) (out @ rslice (p_offset p) (p_offset p + k) chunk) =
        Some (p', (out @ rslice (p_offset p) (p_offset p + k) chunk) @ take (n - k) (buffered p2)) \<and>
      pipe_ok p' \<and> buffered p' = drop (n - k) (buffered p2) \<and> p_writer_closed p' = p_writer_closed p2 \<and>
      p_reader_closed p' = p_reader_closed p2 \<and> p_capacity p' = p_capacity p2"
      using False off enough
      by (intro 1(1) [OF _ ch refl _ refl k_def _ refl refl refl p2_def ok2]) auto
    then show ?thesis
      unfolding step buf buf2
      using take_read_chunk [OF k_def] drop_read_chunk [OF k_def] off
      by (auto simp: p2_def)
  qed
qed

lemma pipe_read_takes:
  assumes "pipe_ok p" "n \<noteq> 0"
  shows "\<exists>p'. pipe_read p n now = Some (p', if buffered p = [] then if p_writer_closed p then Ready [] else Pending
      else Ready (take n (buffered p))) \<and>
    pipe_ok p' \<and> buffered p' = drop n (buffered p)"
proof -
  obtain p' where p': "pipe_read_loop p n [] = Some (p', take n (buffered p))" "pipe_ok p'"
    "buffered p' = drop n (buffered p)" "p_writer_closed p' = p_writer_closed p"
    using pipe_read_loop_takes [OF assms(1), of n "[]"] by auto
  let ?q = "p'\<lparr>p_capacity := cap_complete (p_capacity p') (length (take n (buffered p))) now\<rparr>"
  have q: "buffered ?q = buffered p'" by (simp add: buffered_def)
  then have "pipe_ok ?q"
    using p'(2) cap_ok_complete [of "p_capacity p'"] by (simp add: pipe_ok_def)
  with p' q assms(2) show ?thesis by (auto simp: pipe_read_def)
qed

definition accepted :: "bytes \<Rightarrow> ('e + nat) poll \<Rightarrow> bytes" where
  "accepted data r = (case r of Ready (Inr n) \<Rightarrow> take n data | _ \<Rightarrow> [])"

lemma concat_butlast_last:
  "xs \<noteq> [] \<Longrightarrow> concat (map fst (butlast xs @ [(fst (last xs) @ b, c)])) = concat (map fst xs) @ b"
  by (induction xs) auto

lemma offset_le_concat: "pipe_ok p \<Longrightarrow> p_offset p \<le> length (concat (map fst (p_chunks p)))"
  by (cases "p_chunks p") (auto simp: pipe_ok_def)

lemma pipe_append_ok:
  assumes "pipe_ok p" "b \<noteq> []" "concat (map fst chunks) = concat (map fst (p_chunks p)) @ b"
    and "\<forall>c \<in> set chunks. fst c \<noteq> []"
    and "p_chunks p = [] \<or> (\<exists>c cs. chunks = c # cs \<and> length (fst (hd (p_chunks p))) \<le> length (fst c))"
  shows "pipe_ok (p\<lparr>p_chunks := chunks, p_bytes := p_bytes p + length b\<rparr>) \<and>
    buffered (p\<lparr>p_chunks := chunks, p_bytes := p_bytes p + length b\<rparr>) = buffered p @ b"
proof -
  have buf: "buffered (p\<lparr>p_chunks := chunks, p_bytes := p_bytes p + length b\<rparr>) = buffered p @ b"
    using assms(3) offset_le_concat [OF assms(1)] by (simp add: buffered_def)
  have "chunks \<noteq> []" using assms(2,3) by auto
  then have "front_ok chunks (p_offset p)"
    using assms(1,4,5) by (cases "p_chunks p"; cases chunks) (auto simp: pipe_ok_def)
  then show ?thesis using assms(1,4) buf by (simp add: pipe_ok_def)
qed

lemma pipe_extend_appends:
  assumes "pipe_ok p" "0 < count" "count \<le> length data"
  shows "\<exists>p' n. pipe_extend p data alloc count = Some (p', n) \<and> 0 < n \<and> n \<le> count \<and> pipe_ok p' \<and>
    buffered p' = buffered p @ take n data \<and> p_writer_closed p' = p_writer_closed p"
proof (cases "0 < pipe_room p")
  case True
  define k where "k = min count (pipe_room p)"
  have k: "0 < k" "k \<le> count" using True assms(2) by (auto simp: k_def)
  have ne: "p_chunks p \<noteq> []" using True by (auto simp: pipe_room_def)
  let ?b = "take k data"
  let ?chunks = "butlast (p_chunks p) @ [(fst (last (p_chunks p)) @ ?b, snd (last (p_chunks p)))]"
  have len: "length ?b = k" using k assms(3) by simp
  have "pipe_ok (p\<lparr>p_chunks := ?chunks, p_bytes := p_bytes p + length ?b\<rparr>) \<and>
    buffered (p\<lparr>p_chunks := ?chunks, p_bytes := p_bytes p + length ?b\<rparr>) = buffered p @ ?b"
  proof (rule pipe_append_ok [OF assms(1)])
    show "?b \<noteq> []" using len k by auto
    show "concat (map fst ?chunks) = concat (map fst (p_chunks p)) @ ?b"
      using concat_butlast_last [OF ne] by simp
    show "\<forall>c \<in> set ?chunks. fst c \<noteq> []"
      using assms(1) ne by (auto simp: pipe_ok_def dest: in_set_butlastD)
    show "p_chunks p = [] \<or> (\<exists>c cs. ?chunks = c # cs \<and> length (fst (hd (p_chunks p))) \<le> length (fst c))"
      by (cases "p_chunks p"; cases "butlast (p_chunks p)") (auto split: if_splits)
  qed
  moreover have "pipe_extend p data alloc count =
      Some (p\<lparr>p_chunks := ?chunks, p_bytes := p_bytes p + k\<rparr>, k)"
    using True ne by (simp add: pipe_extend_def k_def [symmetric] neq_Nil_conv split: list.split)
  ultimately show ?thesis using len k by auto
next
  case False
  let ?b = "take count data"
  let ?chunks = "p_chunks p @ [(?b, alloc)]"
  have len: "length ?b = count" using assms(3) by simp
  have "pipe_ok (p\<lparr>p_chunks := ?chunks, p_bytes := p_bytes p + length ?b\<rparr>) \<and>
    buffered (p\<lparr>p_chunks := ?chunks, p_bytes := p_bytes p + length ?b\<rparr>) = buffered p @ ?b"
  proof (rule pipe_append_ok [OF assms(1)])
    show "?b \<noteq> []" using len assms(2) by auto
    then show "\<forall>c \<in> set ?chunks. fst c \<noteq> []" using assms(1) by (auto simp: pipe_ok_def)
    show "p_chunks p = [] \<or> (\<exists>c cs. ?chunks = c # cs \<and> length (fst (hd (p_chunks p))) \<le> length (fst c))"
      by (cases "p_chunks p") auto
  qed simp
  then show ?thesis using False len assms(2) by (simp add: pipe_extend_def)
qed

text \<open>A write on an open pipe with space accepts at least one byte.\<close>

lemma pipe_write_space:
  assumes "pipe_ok p" "\<not> p_reader_closed p" "\<not> p_writer_closed p" "data \<noteq> []"
    and "0 < snd (cap_target_at (p_capacity p) now) - p_bytes p"
  shows "\<exists>p' n. pipe_write p data alloc now = Some (p', Ready (Inr n)) \<and> 0 < n \<and> n \<le> length data \<and>
    pipe_ok p' \<and> buffered p' = buffered p @ take n data \<and> p_writer_closed p' = p_writer_closed p"
proof -
  obtain cap target where ct: "cap_target_at (p_capacity p) now = (cap, target)"
    by (cases "cap_target_at (p_capacity p) now")
  let ?p = "p\<lparr>p_capacity := cap\<rparr>"
  let ?count = "min (min (target - p_bytes p) (length data)) CHUNK"
  have okp: "pipe_ok ?p" and bufp: "buffered ?p = buffered p"
    using assms(1) cap_ok_target_at [of "p_capacity p" now] ct by (simp_all add: pipe_ok_def buffered_def)
  have count: "0 < ?count" "?count \<le> length data" using assms(4,5) ct by (auto simp: CHUNK_def)
  obtain p' n where "pipe_extend ?p data alloc ?count = Some (p', n)" "0 < n" "n \<le> ?count" "pipe_ok p'"
    "buffered p' = buffered ?p @ take n data" "p_writer_closed p' = p_writer_closed ?p"
    using pipe_extend_appends [OF okp count] by blast
  moreover have "target - p_bytes p \<noteq> 0" using assms(5) ct by simp
  ultimately show ?thesis
    using assms(2-4) bufp count by (simp add: pipe_write_def ct Let_def)
qed

lemma pipe_write_full:
  assumes "pipe_ok p" "\<not> p_reader_closed p" "\<not> p_writer_closed p" "data \<noteq> []"
    and "snd (cap_target_at (p_capacity p) now) - p_bytes p = 0"
  shows "\<exists>p'. pipe_write p data alloc now = Some (p', Pending) \<and> pipe_ok p' \<and> buffered p' = buffered p \<and>
    p_writer_closed p' = p_writer_closed p"
  using assms cap_ok_target_at [of "p_capacity p" now]
  by (cases "cap_target_at (p_capacity p) now")
    (simp add: pipe_write_def Let_def pipe_ok_def buffered_def)

lemma pipe_write_appends:
  assumes "pipe_ok p"
  shows "\<exists>p' r. pipe_write p data alloc now = Some (p', r) \<and> pipe_ok p' \<and>
    buffered p' = buffered p @ accepted data r \<and> (\<forall>n. r = Ready (Inr n) \<longrightarrow> n \<le> length data)"
proof (cases "data = [] \<or> p_reader_closed p \<or> p_writer_closed p")
  case True
  then show ?thesis using assms by (auto simp: pipe_write_def accepted_def)
next
  case False
  then have "data \<noteq> []" "\<not> p_reader_closed p" "\<not> p_writer_closed p" by auto
  then show ?thesis
    using pipe_write_space [OF assms, of data now alloc] pipe_write_full [OF assms, of data now alloc]
    by (cases "0 < snd (cap_target_at (p_capacity p) now) - p_bytes p")
      (fastforce simp: accepted_def)+
qed

text \<open>The pipe as a \<open>byte_pipe\<close>: a write offers data, a read asks for room, a shutdown only closes.\<close>

definition pipe_put :: "pipe \<Rightarrow> (bytes \<times> nat \<times> instant) option \<Rightarrow> (pipe \<times> bytes) option" where
  "pipe_put p w = (case w of
       None \<Rightarrow> Some (pipe_shutdown p, [])
     | Some (data, alloc, now) \<Rightarrow>
         map_option (\<lambda>(p', r). (p', accepted data r)) (pipe_write p data alloc now))"

definition pipe_get :: "pipe \<Rightarrow> nat \<times> instant \<Rightarrow> (pipe \<times> bytes) option" where
  "pipe_get p r = (case r of (n, now) \<Rightarrow>
     map_option (\<lambda>(p', r). (p', case r of Ready b \<Rightarrow> b | Pending \<Rightarrow> [])) (pipe_read p n now))"

interpretation bp: byte_pipe pipe_put pipe_get buffered pipe_ok
proof unfold_locales
  fix p w
  assume ok: "pipe_ok p"
  show "\<exists>p' a. pipe_put p w = Some (p', a) \<and> pipe_ok p' \<and> buffered p' = buffered p @ a"
  proof (cases w)
    case None
    then show ?thesis using ok by (simp add: pipe_put_def pipe_shutdown_def pipe_ok_def buffered_def)
  next
    case (Some d)
    then show ?thesis
      using pipe_write_appends [OF ok] by (cases d) (fastforce simp: pipe_put_def)
  qed
next
  fix p and r :: "nat \<times> instant"
  assume ok: "pipe_ok p"
  obtain n now where r: "r = (n, now)" by (cases r)
  show "\<exists>p' a. pipe_get p r = Some (p', a) \<and> pipe_ok p' \<and> buffered p = a @ buffered p'"
  proof (cases "n = 0")
    case True
    then show ?thesis using ok r by (simp add: pipe_get_def pipe_read_def)
  next
    case False
    then show ?thesis
      using pipe_read_takes [OF ok False, of now] r by (auto simp: pipe_get_def split: if_splits)
  qed
qed

section \<open>Properties\<close>

text \<open>Running a sequence of operations of both ends on one pipe, with what went in and came out.\<close>

fun pipe_run ::
  "pipe \<Rightarrow> ((bytes \<times> nat \<times> instant) option + nat \<times> instant) list \<Rightarrow> bytes \<Rightarrow> bytes \<Rightarrow>
     (pipe \<times> bytes \<times> bytes) option" where
  "pipe_run p [] i out = Some (p, i, out)"
| "pipe_run p (Inl w # es) i out =
     (case pipe_put p w of None \<Rightarrow> None | Some (p', a) \<Rightarrow> pipe_run p' es (i @ a) out)"
| "pipe_run p (Inr r # es) i out =
     (case pipe_get p r of None \<Rightarrow> None | Some (p', a) \<Rightarrow> pipe_run p' es i (out @ a))"

lemma pipe_run_drive: "pipe_run p es i out = bp.drive p es i out"
  by (induction p es i out rule: pipe_run.induct) (auto split: option.splits prod.splits)

lemma pipe_new_ok: "initial \<le> usize_max \<Longrightarrow> pipe_ok (pipe_new initial now)"
  by (simp add: pipe_ok_def pipe_new_def buffered_def cap_ok_new)

text \<open>
  C13. The pipe is a queue of bytes: after any sequence of writes, reads and shutdowns on a fresh
  pipe, whatever the chunk capacities, the sizes asked for and the clock, no operation panics and
  the bytes accepted from the writer are the bytes handed to the reader followed by the bytes still
  buffered.
\<close>

theorem pipe_preserves_bytes:
  assumes "initial \<le> usize_max"
  shows "\<exists>p accepted taken. pipe_run (pipe_new initial now) es [] [] = Some (p, accepted, taken) \<and>
    accepted = taken @ buffered p \<and> p_bytes p = length (buffered p)"
proof -
  have "\<exists>p i out. bp.drive (pipe_new initial now) es [] [] = Some (p, i, out) \<and> pipe_ok p \<and> i = out @ buffered p"
    by (rule bp.drive_fifo) (simp_all add: pipe_new_ok assms, simp add: buffered_def pipe_new_def)
  then show ?thesis by (auto simp: pipe_run_drive pipe_ok_def)
qed

theorem pipe_preserves_bytes_witness:
  "\<exists>p accepted taken.
     pipe_run (pipe_new 4 0) [Inl (Some ([1, 2, 3, 4, 5, 6], 8, 1)), Inr (3, 2), Inl (Some ([5, 6], 8, 3)), Inr (9, 4)]
       [] [] = Some (p, accepted, taken) \<and>
     accepted = taken @ buffered p \<and> p_bytes p = length (buffered p)"
  by (rule pipe_preserves_bytes) (simp add: usize_max_def)

text \<open>
  C19. A write on an open pipe always makes progress while less than the initial burst is buffered:
  it accepts a non-empty prefix of the data, so backpressure cannot wedge an emptied pipe.
\<close>

theorem pipe_write_progress:
  assumes "pipe_ok p" "\<not> p_reader_closed p" "\<not> p_writer_closed p" "data \<noteq> []"
    and "length (buffered p) < cap_initial (p_capacity p)"
  shows "\<exists>p' n. pipe_write p data alloc now = Some (p', Ready (Inr n)) \<and> 0 < n \<and> n \<le> length data \<and>
    buffered p' = buffered p @ take n data"
proof -
  have "0 < snd (cap_target_at (p_capacity p) now) - p_bytes p"
    by (rule fc.room_below_initial) (use assms in \<open>auto simp: pipe_ok_def\<close>)
  from pipe_write_space [OF assms(1-4) this] show ?thesis by blast
qed

theorem pipe_write_progress_witness:
  "\<exists>p' n. pipe_write (pipe_new 4 0) [1, 2, 3, 4, 5, 6] 8 1 = Some (p', Ready (Inr n)) \<and> 0 < n \<and>
    n \<le> length ([1, 2, 3, 4, 5, 6] :: bytes) \<and>
    buffered p' = buffered (pipe_new 4 0) @ take n [1, 2, 3, 4, 5, 6]"
  by (rule pipe_write_progress [OF pipe_new_ok])
    (simp_all add: usize_max_def, simp_all add: pipe_new_def buffered_def cap_new_def)

text \<open>
  End of stream is reported only when the writer has closed and nothing is left: a read with
  room that returns no bytes implies a closed writer and an empty pipe, and a read of an open empty
  pipe waits.
\<close>

lemma pipe_eof_after_last_byte:
  assumes "pipe_ok p" "n \<noteq> 0" "pipe_read p n now = Some (p', r)"
  shows "(r = Ready [] \<longleftrightarrow> buffered p = [] \<and> p_writer_closed p) \<and>
    (r = Pending \<longleftrightarrow> buffered p = [] \<and> \<not> p_writer_closed p)"
  using pipe_read_takes [OF assms(1,2), of now] assms(2,3) by (auto split: if_splits)

end
