(* ===== verification/Chunk.thy ===== *)
theory Chunk
  imports Stream_Buffer
begin

text \<open>
  Relaying between two byte streams (\<open>crates/protocol/src/chunk.rs\<close>): the \<open>Stream\<close> trait with its
  default methods, the \<open>Prefix\<close> wrapper that replays a handshake's read-ahead, one direction of a
  relay and \<open>copy_bidirectional\<close>. A stream is a state with a record of its methods; the locale
  \<open>chunk_stream\<close> is the contract the trait documents, proved here for the in-memory duplex stream
  and, for any stream that has it, for the stream with a prefix.
\<close>

section \<open>Streams\<close>

text \<open>\<open>AsyncRead\<close> and \<open>AsyncWrite\<close>; \<open>None\<close> is a panic. A read is told the room in its buffer.\<close>

record 's io_ops =
  io_read :: "'s \<Rightarrow> nat \<Rightarrow> ('s \<times> (io_error + bytes) poll) option"
  io_write :: "'s \<Rightarrow> bytes \<Rightarrow> ('s \<times> (io_error + nat) poll) option"
  io_flush :: "'s \<Rightarrow> ('s \<times> (io_error + unit) poll) option"
  io_shutdown :: "'s \<Rightarrow> ('s \<times> (io_error + unit) poll) option"

text \<open>
  \<open>Stream\<close>. A \<open>ChunkBuffer\<close> is whether a lease is installed; a chunk write also returns what is left
  of the caller's chunk.
\<close>

record 's stream_ops = "'s io_ops" +
  ch_direct :: "'s \<Rightarrow> ('s \<times> (io_error + bool) poll) option"
  ch_read :: "'s \<Rightarrow> bool \<Rightarrow> ('s \<times> bool \<times> (io_error + bytes) poll) option"
  ch_write :: "'s \<Rightarrow> bytes \<Rightarrow> ('s \<times> bytes \<times> (io_error + nat) poll) option"
  ch_consume :: "'s \<Rightarrow> nat \<Rightarrow> 's"

definition default_direct :: "'s \<Rightarrow> ('s \<times> (io_error + bool) poll) option" where
  "default_direct s = Some (s, Ready (Inr False))"

definition default_read_chunk ::
  "('s, 'x) io_ops_scheme \<Rightarrow> 's \<Rightarrow> bool \<Rightarrow> ('s \<times> bool \<times> (io_error + bytes) poll) option" where
  "default_read_chunk io s lease =
     (case io_read io s 65536 of
        None \<Rightarrow> None
      | Some (s', Pending) \<Rightarrow> Some (s', True, Pending)
      | Some (s', Ready (Inl e)) \<Rightarrow> Some (s', True, Ready (Inl e))
      | Some (s', Ready (Inr out)) \<Rightarrow>
          if length out = 0 then Some (s', False, Ready (Inr [])) else Some (s', False, Ready (Inr out)))"

definition default_write_chunk ::
  "('s, 'x) io_ops_scheme \<Rightarrow> 's \<Rightarrow> bytes \<Rightarrow> ('s \<times> bytes \<times> (io_error + nat) poll) option" where
  "default_write_chunk io s b =
     (case io_write io s b of
        None \<Rightarrow> None
      | Some (s', Ready (Inr n)) \<Rightarrow> if length b < n then None else Some (s', drop n b, Ready (Inr n))
      | Some (s', Ready (Inl e)) \<Rightarrow> Some (s', b, Ready (Inl e))
      | Some (s', Pending) \<Rightarrow> Some (s', b, Pending))"

definition default_consume_chunk :: "'s \<Rightarrow> nat \<Rightarrow> 's" where
  "default_consume_chunk s n = s"

definition default_stream :: "'s io_ops \<Rightarrow> 's stream_ops" where
  "default_stream io =
     \<lparr>io_read = io_read io, io_write = io_write io, io_flush = io_flush io, io_shutdown = io_shutdown io,
      ch_direct = default_direct, ch_read = default_read_chunk io, ch_write = default_write_chunk io,
      ch_consume = default_consume_chunk\<rparr>"

section \<open>The prefix wrapper\<close>

record 's prefixed =
  px_bytes :: bytes
  px_inner :: 's
  px_read :: bool

definition on_inner :: "'s prefixed \<Rightarrow> ('s \<times> 'r) option \<Rightarrow> ('s prefixed \<times> 'r) option" where
  "on_inner s r = map_option (\<lambda>(i, x). (s\<lparr>px_inner := i\<rparr>, x)) r"

definition prefix_read :: "('s, 'x) stream_ops_scheme \<Rightarrow> 's prefixed \<Rightarrow> nat \<Rightarrow>
    ('s prefixed \<times> (io_error + bytes) poll) option" where
  "prefix_read S s room =
     (if px_bytes s \<noteq> [] then
        let n = min room (length (px_bytes s))
        in Some (s\<lparr>px_bytes := drop n (px_bytes s)\<rparr>, Ready (Inr (take n (px_bytes s))))
      else on_inner s (io_read S (px_inner s) room))"

definition prefix_direct :: "('s, 'x) stream_ops_scheme \<Rightarrow> 's prefixed \<Rightarrow>
    ('s prefixed \<times> (io_error + bool) poll) option" where
  "prefix_direct S s =
     (if px_bytes s = [] then on_inner s (ch_direct S (px_inner s)) else Some (s, Ready (Inr False)))"

definition prefix_read_chunk :: "('s, 'x) stream_ops_scheme \<Rightarrow> 's prefixed \<Rightarrow> bool \<Rightarrow>
    ('s prefixed \<times> bool \<times> (io_error + bytes) poll) option" where
  "prefix_read_chunk S s lease =
     (let s = s\<lparr>px_read := px_bytes s \<noteq> []\<rparr> in
      if px_read s then Some (s\<lparr>px_bytes := []\<rparr>, lease, Ready (Inr (px_bytes s)))
      else on_inner s (ch_read S (px_inner s) lease))"

definition prefix_consume :: "('s, 'x) stream_ops_scheme \<Rightarrow> 's prefixed \<Rightarrow> nat \<Rightarrow> 's prefixed" where
  "prefix_consume S s n = (if \<not> px_read s then s\<lparr>px_inner := ch_consume S (px_inner s) n\<rparr> else s)"

definition prefix_stream :: "'s stream_ops \<Rightarrow> 's prefixed stream_ops" where
  "prefix_stream S =
     \<lparr>io_read = prefix_read S,
      io_write = \<lambda>s b. on_inner s (io_write S (px_inner s) b),
      io_flush = \<lambda>s. on_inner s (io_flush S (px_inner s)),
      io_shutdown = \<lambda>s. on_inner s (io_shutdown S (px_inner s)),
      ch_direct = prefix_direct S,
      ch_read = prefix_read_chunk S,
      ch_write = \<lambda>s b. on_inner s (ch_write S (px_inner s) b),
      ch_consume = prefix_consume S\<rparr>"

section \<open>Relaying\<close>

record direction =
  d_buffer :: bool
  d_bytes :: bytes
  d_transferred :: nat
  d_eof :: bool
  d_done :: bool

definition direction_new :: direction where
  "direction_new = \<lparr>d_buffer = False, d_bytes = [], d_transferred = 0, d_eof = False, d_done = False\<rparr>"

text \<open>
  The body of the loop in \<open>Direction::poll\<close>: \<open>Inl\<close> is a return from the function, \<open>Inr\<close> goes round.
  The first part reads when nothing is buffered, the second shuts down or writes.
\<close>

definition direction_write ::
  "('r, 'x) stream_ops_scheme \<Rightarrow> ('w, 'y) stream_ops_scheme \<Rightarrow> direction \<Rightarrow> 'r \<Rightarrow> 'w \<Rightarrow>
     (direction \<times> 'r \<times> 'w \<times> ((io_error + unit) poll) option) option" where
  "direction_write R W d r w =
     (if d_eof d then
        (case io_shutdown W w of
           None \<Rightarrow> None
         | Some (w', Pending) \<Rightarrow> Some (d, r, w', Some Pending)
         | Some (w', Ready (Inl e)) \<Rightarrow> Some (d, r, w', Some (Ready (Inl e)))
         | Some (w', Ready (Inr _)) \<Rightarrow> Some (d\<lparr>d_done := True\<rparr>, r, w', Some (Ready (Inr ()))))
      else
        (case ch_write W w (d_bytes d) of
           None \<Rightarrow> None
         | Some (w', rest, Pending) \<Rightarrow> Some (d\<lparr>d_bytes := rest\<rparr>, r, w', Some Pending)
         | Some (w', rest, Ready (Inl e)) \<Rightarrow> Some (d\<lparr>d_bytes := rest\<rparr>, r, w', Some (Ready (Inl e)))
         | Some (w', rest, Ready (Inr n)) \<Rightarrow>
             let before = length (d_bytes d); d = d\<lparr>d_bytes := rest\<rparr> in
             if before < length rest \<or> before - length rest \<noteq> n then None
             else if n = 0 then Some (d, r, w', Some (Ready (Inl Write_Zero)))
             else Some (d\<lparr>d_transferred := wrapping_add (d_transferred d) n\<rparr>, ch_consume R r n, w', None)))"

definition direction_step ::
  "('r, 'x) stream_ops_scheme \<Rightarrow> ('w, 'y) stream_ops_scheme \<Rightarrow> direction \<Rightarrow> 'r \<Rightarrow> 'w \<Rightarrow>
     (direction \<times> 'r \<times> 'w \<times> ((io_error + unit) poll) option) option" where
  "direction_step R W d r w =
     (if d_bytes d = [] \<and> \<not> d_eof d then
        (case ch_read R r (d_buffer d) of
           None \<Rightarrow> None
         | Some (r', buffer, Ready (Inl e)) \<Rightarrow> Some (d\<lparr>d_buffer := buffer\<rparr>, r', w, Some (Ready (Inl e)))
         | Some (r', buffer, Ready (Inr b)) \<Rightarrow>
             direction_write R W (d\<lparr>d_buffer := buffer, d_bytes := b, d_eof := b = []\<rparr>) r' w
         | Some (r', buffer, Pending) \<Rightarrow>
             (case io_flush W w of
                None \<Rightarrow> None
              | Some (w', Ready (Inl e)) \<Rightarrow> Some (d\<lparr>d_buffer := buffer\<rparr>, r', w', Some (Ready (Inl e)))
              | Some (w', _) \<Rightarrow> Some (d\<lparr>d_buffer := buffer\<rparr>, r', w', Some Pending)))
      else direction_write R W d r w)"

fun direction_loop ::
  "nat \<Rightarrow> ('r, 'x) stream_ops_scheme \<Rightarrow> ('w, 'y) stream_ops_scheme \<Rightarrow> direction \<Rightarrow> 'r \<Rightarrow> 'w \<Rightarrow>
     (direction \<times> 'r \<times> 'w \<times> (io_error + unit) poll) option" where
  "direction_loop 0 R W d r w = Some (d, r, w, Pending)"
| "direction_loop (Suc k) R W d r w =
     (case direction_step R W d r w of
        None \<Rightarrow> None
      | Some (d, r, w, Some result) \<Rightarrow> Some (d, r, w, result)
      | Some (d, r, w, None) \<Rightarrow> direction_loop k R W d r w)"

definition direction_poll ::
  "('r, 'x) stream_ops_scheme \<Rightarrow> ('w, 'y) stream_ops_scheme \<Rightarrow> direction \<Rightarrow> 'r \<Rightarrow> 'w \<Rightarrow>
     (direction \<times> 'r \<times> 'w \<times> (io_error + unit) poll) option" where
  "direction_poll R W d r w =
     (if d_done d then Some (d, r, w, Ready (Inr ())) else direction_loop 32 R W d r w)"

text \<open>One poll of \<open>copy_bidirectional\<close>: the upload from \<open>a\<close> to \<open>b\<close>, then the download.\<close>

definition copy_poll ::
  "('a, 'x) stream_ops_scheme \<Rightarrow> ('b, 'y) stream_ops_scheme \<Rightarrow> direction \<Rightarrow> direction \<Rightarrow> 'a \<Rightarrow> 'b \<Rightarrow>
     (direction \<times> direction \<times> 'a \<times> 'b \<times> (io_error + nat \<times> nat) poll) option" where
  "copy_poll A B up down a b =
     (case direction_poll A B up a b of
        None \<Rightarrow> None
      | Some (up, a, b, Ready (Inl e)) \<Rightarrow> Some (up, down, a, b, Ready (Inl e))
      | Some (up, a, b, first) \<Rightarrow>
          (case direction_poll B A down b a of
             None \<Rightarrow> None
           | Some (down, b, a, Ready (Inl e)) \<Rightarrow> Some (up, down, a, b, Ready (Inl e))
           | Some (down, b, a, second) \<Rightarrow>
               if first = Pending \<or> second = Pending then Some (up, down, a, b, Pending)
               else Some (up, down, a, b, Ready (Inr (d_transferred up, d_transferred down)))))"

section \<open>The contract of a stream\<close>

text \<open>
  \<open>avail\<close> is what the peer of the stream has sent and the stream has not handed out, \<open>sent\<close> is what
  has been written to it. A chunk read hands out a prefix of \<open>avail\<close>, and an empty chunk only when
  there is nothing; a chunk write consumes exactly the accepted prefix of the caller's chunk; a
  pending or failing call changes neither.
\<close>

locale chunk_stream =
  fixes S :: "'s stream_ops"
    and avail :: "'s \<Rightarrow> bytes"
    and sent :: "'s \<Rightarrow> bytes"
    and ok :: "'s \<Rightarrow> bool"
  assumes read_law: "ok s \<Longrightarrow> \<exists>s' l r. ch_read S s lease = Some (s', l, r) \<and> ok s' \<and> sent s' = sent s \<and>
      (case r of Ready (Inr b) \<Rightarrow> avail s = b @ avail s' \<and> (b = [] \<longrightarrow> avail s = []) | _ \<Rightarrow> avail s' = avail s)"
    and write_law: "ok s \<Longrightarrow> \<exists>s' rest r. ch_write S s b = Some (s', rest, r) \<and> ok s' \<and> avail s' = avail s \<and>
      (case r of Ready (Inr n) \<Rightarrow> n \<le> length b \<and> rest = drop n b \<and> sent s' = sent s @ take n b
       | _ \<Rightarrow> rest = b \<and> sent s' = sent s)"
    and flush_law: "ok s \<Longrightarrow> \<exists>s' r. io_flush S s = Some (s', r) \<and> ok s' \<and> avail s' = avail s \<and> sent s' = sent s"
    and shutdown_law: "ok s \<Longrightarrow> \<exists>s' r. io_shutdown S s = Some (s', r) \<and> ok s' \<and> avail s' = avail s \<and> sent s' = sent s"
    and consume_law: "ok s \<Longrightarrow> ok (ch_consume S s n) \<and> avail (ch_consume S s n) = avail s \<and> sent (ch_consume S s n) = sent s"

text \<open>A prefix in front of a stream that has the contract gives a stream that has it.\<close>

locale prefixed_stream = chunk_stream

sublocale prefixed_stream \<subseteq> pre: chunk_stream "prefix_stream S" "\<lambda>s. px_bytes s @ avail (px_inner s)"
  "\<lambda>s. sent (px_inner s)" "\<lambda>s. ok (px_inner s)"
proof unfold_locales
  fix s :: "'a prefixed" and lease
  assume ok: "ok (px_inner s)"
  show "\<exists>s' l r. ch_read (prefix_stream S) s lease = Some (s', l, r) \<and> ok (px_inner s') \<and>
      sent (px_inner s') = sent (px_inner s) \<and>
      (case r of Ready (Inr b) \<Rightarrow> px_bytes s @ avail (px_inner s) = b @ (px_bytes s' @ avail (px_inner s')) \<and>
           (b = [] \<longrightarrow> px_bytes s @ avail (px_inner s) = [])
       | _ \<Rightarrow> px_bytes s' @ avail (px_inner s') = px_bytes s @ avail (px_inner s))"
  proof (cases "px_bytes s = []")
    case True
    obtain i l r where "ch_read S (px_inner s) lease = Some (i, l, r)" "ok i" "sent i = sent (px_inner s)"
      "case r of Ready (Inr b) \<Rightarrow> avail (px_inner s) = b @ avail i \<and> (b = [] \<longrightarrow> avail (px_inner s) = [])
         | _ \<Rightarrow> avail i = avail (px_inner s)"
      using read_law [OF ok] by blast
    with True show ?thesis
      by (auto simp: prefix_stream_def prefix_read_chunk_def on_inner_def split: poll.splits sum.splits)
  next
    case False
    with ok show ?thesis by (simp add: prefix_stream_def prefix_read_chunk_def)
  qed
next
  fix s :: "'a prefixed" and b
  assume ok: "ok (px_inner s)"
  show "\<exists>s' rest r. ch_write (prefix_stream S) s b = Some (s', rest, r) \<and> ok (px_inner s') \<and>
      px_bytes s' @ avail (px_inner s') = px_bytes s @ avail (px_inner s) \<and>
      (case r of Ready (Inr n) \<Rightarrow> n \<le> length b \<and> rest = drop n b \<and> sent (px_inner s') = sent (px_inner s) @ take n b
       | _ \<Rightarrow> rest = b \<and> sent (px_inner s') = sent (px_inner s))"
  proof -
    obtain i rest r where "ch_write S (px_inner s) b = Some (i, rest, r)" "ok i" "avail i = avail (px_inner s)"
      "case r of Ready (Inr n) \<Rightarrow> n \<le> length b \<and> rest = drop n b \<and> sent i = sent (px_inner s) @ take n b
         | _ \<Rightarrow> rest = b \<and> sent i = sent (px_inner s)"
      using write_law [OF ok, of b] by blast
    then show ?thesis by (simp add: prefix_stream_def on_inner_def split: poll.splits sum.splits)
  qed
next
  fix s :: "'a prefixed" and n
  assume ok: "ok (px_inner s)"
  show "\<exists>s' r. io_flush (prefix_stream S) s = Some (s', r) \<and> ok (px_inner s') \<and>
      px_bytes s' @ avail (px_inner s') = px_bytes s @ avail (px_inner s) \<and> sent (px_inner s') = sent (px_inner s)"
    using flush_law [OF ok] by (auto simp: prefix_stream_def on_inner_def)
  show "\<exists>s' r. io_shutdown (prefix_stream S) s = Some (s', r) \<and> ok (px_inner s') \<and>
      px_bytes s' @ avail (px_inner s') = px_bytes s @ avail (px_inner s) \<and> sent (px_inner s') = sent (px_inner s)"
    using shutdown_law [OF ok] by (auto simp: prefix_stream_def on_inner_def)
  show "ok (px_inner (ch_consume (prefix_stream S) s n)) \<and>
      px_bytes (ch_consume (prefix_stream S) s n) @ avail (px_inner (ch_consume (prefix_stream S) s n)) =
        px_bytes s @ avail (px_inner s) \<and>
      sent (px_inner (ch_consume (prefix_stream S) s n)) = sent (px_inner s)"
    using ok consume_law [OF ok, of n] by (simp add: prefix_stream_def prefix_consume_def)
qed

text \<open>
  A direction counts what it writes: what its sink got is appended, and the counter, of the width of
  \<open>u64\<close>, advances by its length.
\<close>

definition tallied :: "direction \<Rightarrow> bytes \<Rightarrow> direction \<Rightarrow> bytes \<Rightarrow> bool" where
  "tallied d out d' out' \<longleftrightarrow> (\<exists>b. out' = out @ b \<and>
     d_transferred d' mod (usize_max + 1) = (d_transferred d + length b) mod (usize_max + 1))"

lemma tallied_refl: "tallied d out d out"
  by (simp add: tallied_def)

lemma tallied_trans:
  assumes "tallied d out d1 out1" "tallied d1 out1 d2 out2"
  shows "tallied d out d2 out2"
proof -
  obtain b c where b: "out1 = out @ b" "d_transferred d1 mod (usize_max + 1) = (d_transferred d + length b) mod (usize_max + 1)"
    and c: "out2 = out1 @ c" "d_transferred d2 mod (usize_max + 1) = (d_transferred d1 + length c) mod (usize_max + 1)"
    using assms unfolding tallied_def by blast
  have "d_transferred d2 mod (usize_max + 1) = (d_transferred d + length (b @ c)) mod (usize_max + 1)"
    unfolding c(2) length_append add.assoc [symmetric] using b(2) by (metis mod_add_left_eq)
  then show ?thesis using b(1) c(1) unfolding tallied_def by auto
qed

text \<open>Two streams with the contract, and what one direction of a relay keeps.\<close>

locale relay =
  R: chunk_stream R r_avail r_sent r_ok + W: chunk_stream W w_avail w_sent w_ok
  for R :: "'r stream_ops" and r_avail r_sent r_ok
    and W :: "'w stream_ops" and w_avail w_sent w_ok
begin

text \<open>
  The bytes of the direction, in order: written, held by the relay, not yet read. \<open>moved\<close> says that a
  step keeps them, leaves the other direction of both streams alone, and counts what it wrote.
\<close>

definition flow :: "direction \<Rightarrow> 'r \<Rightarrow> 'w \<Rightarrow> bytes" where
  "flow d r w = w_sent w @ d_bytes d @ r_avail r"

definition moved :: "direction \<Rightarrow> 'r \<Rightarrow> 'w \<Rightarrow> direction \<Rightarrow> 'r \<Rightarrow> 'w \<Rightarrow> bool" where
  "moved d r w d' r' w' \<longleftrightarrow>
     r_ok r' \<and> w_ok w' \<and> flow d' r' w' = flow d r w \<and> r_sent r' = r_sent r \<and> w_avail w' = w_avail w \<and>
     tallied d (w_sent w) d' (w_sent w') \<and>
     (d_eof d' \<longrightarrow> d_eof d \<or> d_bytes d' = [] \<and> r_avail r' = [])"

lemma moved_refl: "r_ok r \<Longrightarrow> w_ok w \<Longrightarrow> moved d r w d r w"
  unfolding moved_def by (simp add: tallied_refl)

lemma moved_trans:
  assumes "moved d r w d1 r1 w1" "moved d1 r1 w1 d2 r2 w2" "\<not> d_eof d1"
  shows "moved d r w d2 r2 w2"
  using assms tallied_trans [of d "w_sent w" d1 "w_sent w1" d2 "w_sent w2"] unfolding moved_def by auto

lemma direction_write_moved:
  assumes "r_ok r" "w_ok w" "d_eof d \<longrightarrow> d_bytes d = [] \<and> r_avail r = []"
  shows "\<exists>d' r' w' res. direction_write R W d r w = Some (d', r', w', res) \<and> moved d r w d' r' w' \<and>
    (res = None \<longrightarrow> \<not> d_eof d') \<and> d_eof d' = d_eof d \<and>
    (d_done d' \<longrightarrow> d_done d \<or> d_eof d') \<and> (res = Some (Ready (Inr ())) \<longrightarrow> d_done d' \<and> d_eof d')"
proof (cases "d_eof d")
  case True
  obtain w' res where "io_shutdown W w = Some (w', res)" "w_ok w'" "w_avail w' = w_avail w" "w_sent w' = w_sent w"
    using W.shutdown_law [OF assms(2)] by blast
  with True assms show ?thesis
    by (auto simp: direction_write_def moved_def tallied_def flow_def split: poll.splits sum.splits)
next
  case False
  obtain w' rest res where w': "ch_write W w (d_bytes d) = Some (w', rest, res)" "w_ok w'" "w_avail w' = w_avail w"
    "case res of Ready (Inr n) \<Rightarrow> n \<le> length (d_bytes d) \<and> rest = drop n (d_bytes d) \<and> w_sent w' = w_sent w @ take n (d_bytes d)
       | _ \<Rightarrow> rest = d_bytes d \<and> w_sent w' = w_sent w"
    using W.write_law [OF assms(2)] by blast
  show ?thesis
  proof (cases "\<exists>n. res = Ready (Inr n)")
    case True
    then obtain n where n: "res = Ready (Inr n)" by blast
    have cons: "r_ok (ch_consume R r n)" "r_avail (ch_consume R r n) = r_avail r" "r_sent (ch_consume R r n) = r_sent r"
      using R.consume_law [OF assms(1)] by blast+
    show ?thesis
      using w' n False assms cons
      by (auto simp: direction_write_def Let_def moved_def tallied_def flow_def wrapping_add_def
          intro!: exI [of _ "take n (d_bytes d)"])
  next
    case False
    then show ?thesis
      using w' \<open>\<not> d_eof d\<close> assms
      by (cases res) (auto simp: direction_write_def moved_def tallied_def flow_def split: sum.splits)
  qed
qed

lemma direction_step_moved:
  assumes "r_ok r" "w_ok w" "d_eof d \<longrightarrow> d_bytes d = [] \<and> r_avail r = []"
  shows "\<exists>d' r' w' res. direction_step R W d r w = Some (d', r', w', res) \<and> moved d r w d' r' w' \<and>
    (res = None \<longrightarrow> \<not> d_eof d') \<and> (d_done d' \<longrightarrow> d_done d \<or> d_eof d') \<and>
    (res = Some (Ready (Inr ())) \<longrightarrow> d_done d' \<and> d_eof d')"
proof (cases "d_bytes d = [] \<and> \<not> d_eof d")
  case False
  then show ?thesis
    using direction_write_moved [OF assms] unfolding direction_step_def by auto
next
  case True
  obtain r' l res where r': "ch_read R r (d_buffer d) = Some (r', l, res)" "r_ok r'" "r_sent r' = r_sent r"
    "case res of Ready (Inr b) \<Rightarrow> r_avail r = b @ r_avail r' \<and> (b = [] \<longrightarrow> r_avail r = []) | _ \<Rightarrow> r_avail r' = r_avail r"
    using R.read_law [OF assms(1)] by blast
  obtain w' fl where w': "io_flush W w = Some (w', fl)" "w_ok w'" "w_avail w' = w_avail w" "w_sent w' = w_sent w"
    using W.flush_law [OF assms(2)] by blast
  show ?thesis
  proof (cases "\<exists>b. res = Ready (Inr b)")
    case False
    then show ?thesis
      using True r' w' assms
      by (cases res; cases fl) (auto simp: direction_step_def moved_def tallied_def flow_def split: sum.splits)
  next
    case True2: True
    then obtain b where b: "res = Ready (Inr b)" by blast
    let ?d = "d\<lparr>d_buffer := l, d_bytes := b, d_eof := b = []\<rparr>"
    have eof: "d_eof ?d \<longrightarrow> d_bytes ?d = [] \<and> r_avail r' = []" using r'(4) b by auto
    obtain d2 r2 w2 res2 where w2: "direction_write R W ?d r' w = Some (d2, r2, w2, res2)" "moved ?d r' w d2 r2 w2"
      "res2 = None \<longrightarrow> \<not> d_eof d2" "d_eof d2 = d_eof ?d" "d_done d2 \<longrightarrow> d_done ?d \<or> d_eof d2"
      "res2 = Some (Ready (Inr ())) \<longrightarrow> d_done d2 \<and> d_eof d2"
      using direction_write_moved [OF r'(2) assms(2) eof] by blast
    have "moved d r w d2 r2 w2"
      using w2(2,4) r' b True eof by (auto simp: moved_def tallied_def flow_def)
    with w2 True r'(1) b show ?thesis by (auto simp: direction_step_def)
  qed
qed

lemma direction_loop_moved:
  assumes "r_ok r" "w_ok w" "d_eof d \<longrightarrow> d_bytes d = [] \<and> r_avail r = []" "\<not> d_done d"
  shows "\<exists>d' r' w' res. direction_loop k R W d r w = Some (d', r', w', res) \<and> moved d r w d' r' w' \<and>
    (d_done d' \<longrightarrow> d_eof d') \<and> (res = Ready (Inr ()) \<longrightarrow> d_done d' \<and> d_eof d')"
  using assms
proof (induction k arbitrary: d r w)
  case 0
  then show ?case using moved_refl by auto
next
  case (Suc k)
  obtain d1 r1 w1 res where 1: "direction_step R W d r w = Some (d1, r1, w1, res)" "moved d r w d1 r1 w1"
    "res = None \<longrightarrow> \<not> d_eof d1" "d_done d1 \<longrightarrow> d_done d \<or> d_eof d1"
    "res = Some (Ready (Inr ())) \<longrightarrow> d_done d1 \<and> d_eof d1"
    using direction_step_moved [OF Suc.prems(1-3)] by blast
  show ?case
  proof (cases res)
    case None
    then have ne: "\<not> d_eof d1" "\<not> d_done d1" using 1 Suc.prems(4) by auto
    obtain d2 r2 w2 res2 where 2: "direction_loop k R W d1 r1 w1 = Some (d2, r2, w2, res2)"
      "moved d1 r1 w1 d2 r2 w2" "d_done d2 \<longrightarrow> d_eof d2" "res2 = Ready (Inr ()) \<longrightarrow> d_done d2 \<and> d_eof d2"
      using Suc.IH [of r1 w1 d1] 1(2) ne unfolding moved_def by blast
    then show ?thesis using 1(1) None moved_trans [OF 1(2) 2(2) ne(1)] by auto
  next
    case (Some x)
    then show ?thesis using 1 Suc.prems(4) by auto
  qed
qed

lemma direction_poll_moved:
  assumes "r_ok r" "w_ok w" "d_eof d \<longrightarrow> d_bytes d = [] \<and> r_avail r = []" "d_done d \<longrightarrow> d_eof d"
  shows "\<exists>d' r' w' res. direction_poll R W d r w = Some (d', r', w', res) \<and> moved d r w d' r' w' \<and>
    (d_done d' \<longrightarrow> d_eof d') \<and> (res = Ready (Inr ()) \<longrightarrow> d_done d' \<and> d_eof d')"
  using direction_loop_moved [OF assms(1-3)] moved_refl [OF assms(1,2)] assms(4)
  by (cases "d_done d") (simp_all add: direction_poll_def)

lemma moved_drained:
  assumes "moved d r w d' r' w'" "d_eof d \<longrightarrow> d_bytes d = [] \<and> r_avail r = []" "d_eof d'"
  shows "d_bytes d' = [] \<and> r_avail r' = []"
  using assms unfolding moved_def flow_def tallied_def by (cases "d_eof d") auto

end

text \<open>Both directions between two streams.\<close>

locale duplex_relay =
  A: chunk_stream A a_avail a_sent a_ok + B: chunk_stream B b_avail b_sent b_ok
  for A :: "'a stream_ops" and a_avail a_sent a_ok
    and B :: "'b stream_ops" and b_avail b_sent b_ok

sublocale duplex_relay \<subseteq> up: relay A a_avail a_sent a_ok B b_avail b_sent b_ok
  by unfold_locales

sublocale duplex_relay \<subseteq> down: relay B b_avail b_sent b_ok A a_avail a_sent a_ok
  by unfold_locales

context duplex_relay
begin

text \<open>A direction that has seen the end has nothing left to move, and only such a one is done.\<close>

definition settled :: "direction \<Rightarrow> direction \<Rightarrow> 'a \<Rightarrow> 'b \<Rightarrow> bool" where
  "settled u d a b \<longleftrightarrow> a_ok a \<and> b_ok b \<and>
     (d_eof u \<longrightarrow> d_bytes u = [] \<and> a_avail a = []) \<and> (d_done u \<longrightarrow> d_eof u) \<and>
     (d_eof d \<longrightarrow> d_bytes d = [] \<and> b_avail b = []) \<and> (d_done d \<longrightarrow> d_eof d)"

lemma copy_poll_flow:
  assumes "settled u d a b"
  shows "\<exists>u' d' a' b' res. copy_poll A B u d a b = Some (u', d', a', b', res) \<and> settled u' d' a' b' \<and>
    b_sent b' @ d_bytes u' @ a_avail a' = b_sent b @ d_bytes u @ a_avail a \<and>
    a_sent a' @ d_bytes d' @ b_avail b' = a_sent a @ d_bytes d @ b_avail b \<and>
    tallied u (b_sent b) u' (b_sent b') \<and> tallied d (a_sent a) d' (a_sent a') \<and>
    (\<forall>n m. res = Ready (Inr (n, m)) \<longrightarrow> n = d_transferred u' \<and> m = d_transferred d' \<and>
       d_bytes u' = [] \<and> a_avail a' = [] \<and> d_bytes d' = [] \<and> b_avail b' = [])"
proof -
  obtain u1 a1 b1 r1 where 1: "direction_poll A B u a b = Some (u1, a1, b1, r1)" "up.moved u a b u1 a1 b1"
    "d_done u1 \<longrightarrow> d_eof u1" "r1 = Ready (Inr ()) \<longrightarrow> d_done u1 \<and> d_eof u1"
    using up.direction_poll_moved [of a b u] assms unfolding settled_def by blast
  have keep1: "a_ok a1" "b_ok b1" "a_sent a1 = a_sent a" "b_avail b1 = b_avail b"
    "b_sent b1 @ d_bytes u1 @ a_avail a1 = b_sent b @ d_bytes u @ a_avail a" "tallied u (b_sent b) u1 (b_sent b1)"
    using 1(2) unfolding up.moved_def up.flow_def by blast+
  have drained1: "d_eof u1 \<longrightarrow> d_bytes u1 = [] \<and> a_avail a1 = []"
    using up.moved_drained [OF 1(2)] assms unfolding settled_def by blast
  have settled1: "settled u1 d a1 b1"
    using assms keep1 1(3) drained1 unfolding settled_def by simp
  obtain d2 b2 a2 r2 where 2: "direction_poll B A d b1 a1 = Some (d2, b2, a2, r2)" "down.moved d b1 a1 d2 b2 a2"
    "d_done d2 \<longrightarrow> d_eof d2" "r2 = Ready (Inr ()) \<longrightarrow> d_done d2 \<and> d_eof d2"
    using down.direction_poll_moved [of b1 a1 d] settled1 unfolding settled_def by blast
  have keep2: "a_ok a2" "b_ok b2" "b_sent b2 = b_sent b1" "a_avail a2 = a_avail a1"
    "a_sent a2 @ d_bytes d2 @ b_avail b2 = a_sent a1 @ d_bytes d @ b_avail b1" "tallied d (a_sent a1) d2 (a_sent a2)"
    using 2(2) unfolding down.moved_def down.flow_def by blast+
  have drained2: "d_eof d2 \<longrightarrow> d_bytes d2 = [] \<and> b_avail b2 = []"
    using down.moved_drained [OF 2(2)] settled1 unfolding settled_def by blast
  have settled2: "settled u1 d2 a2 b2"
    using settled1 keep2 2(3) drained2 unfolding settled_def by simp
  show ?thesis
  proof (cases "\<exists>e. r1 = Ready (Inl e)")
    case True
    then show ?thesis
      using 1(1) settled1 keep1 tallied_refl [of d "a_sent a"] by (auto simp: copy_poll_def)
  next
    case first: False
    show ?thesis
    proof (cases "\<exists>e. r2 = Ready (Inl e)")
      case True
      then show ?thesis
        using first 1(1) 2(1) settled2 keep1 keep2
        by (cases r1) (auto simp: copy_poll_def split: sum.splits)
    next
      case False
      define res where "res = (if r1 = Pending \<or> r2 = Pending then Pending
        else Ready (Inr (d_transferred u1, d_transferred d2)) :: (io_error + nat \<times> nat) poll)"
      have poll: "copy_poll A B u d a b = Some (u1, d2, a2, b2, res)"
        using first False 1(1) 2(1) unfolding res_def
        by (cases r1; cases r2) (auto simp: copy_poll_def split: sum.splits)
      have unit: "r = Pending \<or> r = Ready (Inr ())" if "\<not> (\<exists>e. r = Ready (Inl e))" for r :: "(io_error + unit) poll"
        using that by (cases r) (auto split: sum.splits, metis old.unit.exhaust sum.exhaust)
      have "n = d_transferred u1 \<and> m = d_transferred d2 \<and> d_bytes u1 = [] \<and> a_avail a2 = [] \<and> d_bytes d2 = [] \<and> b_avail b2 = []"
        if "res = Ready (Inr (n, m))" for n m
        using that unit [OF first] unit [OF False] 1(4) 2(4) drained1 drained2 keep2(4)
        unfolding res_def by (auto split: if_splits)
      with poll settled2 keep1 keep2 show ?thesis by auto
    qed
  qed
qed

end

section \<open>The in-memory duplex stream\<close>

text \<open>
  An endpoint of \<open>stream_buffer\<close> is the pipe it reads and the pipe it writes. \<open>t\<close> is the clock during
  the calls and \<open>alloc\<close> the allocator's capacity for a chunk.
\<close>

definition buffered_stream :: "instant \<Rightarrow> nat \<Rightarrow> (pipe \<times> pipe) io_ops" where
  "buffered_stream t alloc =
     \<lparr>io_read = \<lambda>(rd, wr) n. map_option (\<lambda>(rd', r). ((rd', wr), case r of Ready b \<Rightarrow> Ready (Inr b) | Pending \<Rightarrow> Pending))
        (pipe_read rd n t),
      io_write = \<lambda>(rd, wr) b. map_option (\<lambda>(wr', r). ((rd, wr'), r)) (pipe_write wr b alloc t),
      io_flush = \<lambda>s. Some (s, Ready (Inr ())),
      io_shutdown = \<lambda>(rd, wr). Some ((rd, pipe_shutdown wr), Ready (Inr ()))\<rparr>"

definition endpoint_ok :: "pipe \<times> pipe \<Rightarrow> bool" where
  "endpoint_ok s \<longleftrightarrow> pipe_ok (fst s) \<and> pipe_ok (snd s)"

lemma pipe_shutdown_keeps [simp]:
  "buffered (pipe_shutdown p) = buffered p" "pipe_ok (pipe_shutdown p) = pipe_ok p"
  by (simp_all add: pipe_shutdown_def buffered_def pipe_ok_def)

interpretation bs: prefixed_stream "default_stream (buffered_stream t alloc)" "\<lambda>s. buffered (fst s)"
  "\<lambda>s. buffered (snd s)" endpoint_ok for t alloc
proof unfold_locales
  fix s lease
  assume ok: "endpoint_ok s"
  obtain rd wr where s: "s = (rd, wr)" by (cases s)
  show "\<exists>s' l r. ch_read (default_stream (buffered_stream t alloc)) s lease = Some (s', l, r) \<and> endpoint_ok s' \<and>
      buffered (snd s') = buffered (snd s) \<and>
      (case r of Ready (Inr b) \<Rightarrow> buffered (fst s) = b @ buffered (fst s') \<and> (b = [] \<longrightarrow> buffered (fst s) = [])
       | _ \<Rightarrow> buffered (fst s') = buffered (fst s))"
    using pipe_read_takes [of rd 65536 t] ok s
    by (auto simp: endpoint_ok_def default_stream_def default_read_chunk_def buffered_stream_def split: if_splits)
next
  fix s b
  assume ok: "endpoint_ok s"
  obtain rd wr where s: "s = (rd, wr)" by (cases s)
  obtain wr' r where w: "pipe_write wr b alloc t = Some (wr', r)" "pipe_ok wr'" "buffered wr' = buffered wr @ accepted b r"
    "\<forall>n. r = Ready (Inr n) \<longrightarrow> n \<le> length b"
    using pipe_write_appends [of wr b alloc t] ok s unfolding endpoint_ok_def by auto
  show "\<exists>s' rest r. ch_write (default_stream (buffered_stream t alloc)) s b = Some (s', rest, r) \<and> endpoint_ok s' \<and>
      buffered (fst s') = buffered (fst s) \<and>
      (case r of Ready (Inr n) \<Rightarrow> n \<le> length b \<and> rest = drop n b \<and> buffered (snd s') = buffered (snd s) @ take n b
       | _ \<Rightarrow> rest = b \<and> buffered (snd s') = buffered (snd s))"
    using w ok s
    by (cases r)
      (auto simp: endpoint_ok_def default_stream_def default_write_chunk_def buffered_stream_def accepted_def
        split: sum.splits)
qed (auto simp: default_stream_def buffered_stream_def endpoint_ok_def default_consume_chunk_def)

interpretation dr: duplex_relay
  "prefix_stream (default_stream (buffered_stream t alloc))" "\<lambda>s. px_bytes s @ buffered (fst (px_inner s))"
  "\<lambda>s. buffered (snd (px_inner s))" "\<lambda>s. endpoint_ok (px_inner s)"
  "default_stream (buffered_stream t alloc)" "\<lambda>s. buffered (fst s)" "\<lambda>s. buffered (snd s)" endpoint_ok
  for t alloc
  by unfold_locales

section \<open>Properties\<close>

text \<open>
  What a relay is between two calls: both streams are well formed, and a direction that has seen the
  end has nothing left to move.
\<close>

definition relay_ok :: "direction \<Rightarrow> direction \<Rightarrow> (pipe \<times> pipe) prefixed \<Rightarrow> pipe \<times> pipe \<Rightarrow> bool" where
  "relay_ok up down a b \<longleftrightarrow> endpoint_ok (px_inner a) \<and> endpoint_ok b \<and>
     (d_eof up \<longrightarrow> d_bytes up = [] \<and> px_bytes a = [] \<and> buffered (fst (px_inner a)) = []) \<and>
     (d_done up \<longrightarrow> d_eof up) \<and>
     (d_eof down \<longrightarrow> d_bytes down = [] \<and> buffered (fst b) = []) \<and> (d_done down \<longrightarrow> d_eof down)"

lemma relay_ok_settled: "relay_ok up down a b = dr.settled up down a b"
  by (auto simp: relay_ok_def dr.settled_def)

text \<open>
  C12. A relay between a stream whose handshake read ahead and another stream loses, repeats and
  reorders nothing, in either direction: in every poll of \<open>copy_bidirectional\<close> the bytes written,
  followed by the bytes the relay holds, the replayed prefix and the bytes still to be read, stay the
  same sequence. Each direction counts exactly the bytes it appended to its sink, as a \<open>u64\<close>; when the
  poll reports completion both directions are drained and the pair returned is the two counters. No
  poll panics.
\<close>

theorem relay_conserves_streams:
  assumes "relay_ok up down a b"
  shows "\<exists>up' down' a' b' res.
    copy_poll (prefix_stream (default_stream (buffered_stream t alloc))) (default_stream (buffered_stream t alloc))
      up down a b = Some (up', down', a', b', res) \<and> relay_ok up' down' a' b' \<and>
    buffered (snd b') @ d_bytes up' @ px_bytes a' @ buffered (fst (px_inner a')) =
      buffered (snd b) @ d_bytes up @ px_bytes a @ buffered (fst (px_inner a)) \<and>
    buffered (snd (px_inner a')) @ d_bytes down' @ buffered (fst b') =
      buffered (snd (px_inner a)) @ d_bytes down @ buffered (fst b) \<and>
    tallied up (buffered (snd b)) up' (buffered (snd b')) \<and>
    tallied down (buffered (snd (px_inner a))) down' (buffered (snd (px_inner a'))) \<and>
    (case res of Ready (Inr counts) \<Rightarrow> counts = (d_transferred up', d_transferred down') \<and> d_bytes up' = [] \<and> px_bytes a' = [] \<and> d_bytes down' = [] \<and>
         buffered (fst (px_inner a')) = [] \<and> buffered (fst b') = []
     | _ \<Rightarrow> True)"
proof -
  have "dr.settled up down a b" using assms by (simp add: relay_ok_settled)
  then obtain up' down' a' b' res where
    poll: "copy_poll (prefix_stream (default_stream (buffered_stream t alloc))) (default_stream (buffered_stream t alloc))
      up down a b = Some (up', down', a', b', res)" and ok: "dr.settled up' down' a' b'"
    and flow: "buffered (snd b') @ d_bytes up' @ (px_bytes a' @ buffered (fst (px_inner a'))) =
      buffered (snd b) @ d_bytes up @ (px_bytes a @ buffered (fst (px_inner a)))"
    "buffered (snd (px_inner a')) @ d_bytes down' @ buffered (fst b') =
      buffered (snd (px_inner a)) @ d_bytes down @ buffered (fst b)"
    and count: "tallied up (buffered (snd b)) up' (buffered (snd b'))"
      "tallied down (buffered (snd (px_inner a))) down' (buffered (snd (px_inner a')))"
    and fin: "\<forall>n m. res = Ready (Inr (n, m)) \<longrightarrow> n = d_transferred up' \<and> m = d_transferred down' \<and> d_bytes up' = [] \<and>
      px_bytes a' @ buffered (fst (px_inner a')) = [] \<and> d_bytes down' = [] \<and> buffered (fst b') = []"
    using dr.copy_poll_flow [of up down a b t alloc] by blast
  from fin have "case res of Ready (Inr counts) \<Rightarrow> counts = (d_transferred up', d_transferred down') \<and> d_bytes up' = [] \<and> px_bytes a' = [] \<and> d_bytes down' = [] \<and>
      buffered (fst (px_inner a')) = [] \<and> buffered (fst b') = [] | _ \<Rightarrow> True"
    by (auto split: poll.split sum.split)
  with poll ok flow count show ?thesis by (simp add: relay_ok_settled)
qed

theorem relay_conserves_streams_witness:
  "\<exists>up' down' a' b' res.
    copy_poll (prefix_stream (default_stream (buffered_stream 0 8))) (default_stream (buffered_stream 0 8))
      direction_new direction_new \<lparr>px_bytes = [1, 2], px_inner = (pipe_new 4 0, pipe_new 4 0), px_read = False\<rparr>
      (pipe_new 4 0, pipe_new 4 0) = Some (up', down', a', b', res) \<and> relay_ok up' down' a' b' \<and>
    buffered (snd b') @ d_bytes up' @ px_bytes a' @ buffered (fst (px_inner a')) =
      buffered (pipe_new 4 0) @ d_bytes direction_new @ [1, 2] @ buffered (pipe_new 4 0) \<and>
    buffered (snd (px_inner a')) @ d_bytes down' @ buffered (fst b') =
      buffered (pipe_new 4 0) @ d_bytes direction_new @ buffered (pipe_new 4 0) \<and>
    tallied direction_new (buffered (pipe_new 4 0)) up' (buffered (snd b')) \<and>
    tallied direction_new (buffered (pipe_new 4 0)) down' (buffered (snd (px_inner a'))) \<and>
    (case res of Ready (Inr counts) \<Rightarrow> counts = (d_transferred up', d_transferred down') \<and> d_bytes up' = [] \<and> px_bytes a' = [] \<and> d_bytes down' = [] \<and>
         buffered (fst (px_inner a')) = [] \<and> buffered (fst b') = []
     | _ \<Rightarrow> True)"
proof -
  have ok: "relay_ok direction_new direction_new
      \<lparr>px_bytes = [1, 2], px_inner = (pipe_new 4 0, pipe_new 4 0), px_read = False\<rparr> (pipe_new 4 0, pipe_new 4 0)"
    using pipe_new_ok [of 4 0] by (simp add: relay_ok_def direction_new_def endpoint_ok_def usize_max_def)
  show ?thesis using relay_conserves_streams [OF ok, of 0 8] by simp
qed

end
