(* ===== verification/Naive_Padding.thy ===== *)
theory Naive_Padding
  imports Prelude
begin

text \<open>
  The padding codec of the Naive protocol (\<open>crates/naive/src/padding.rs\<close>): the first eight frames of
  a tunnel carry a length, a padding length and zero padding, everything after them is raw. The
  random padding length is an argument of the encoder. The framing loops that drive the codec
  (\<open>FramedRead\<close>, \<open>FramedWrite\<close> of \<open>tokio_util\<close>) hand the decoder whatever has arrived, so the decoder is
  studied on arbitrary splits of the wire.
\<close>

section \<open>The codec\<close>

definition FIRST_PADDINGS :: nat where
  "FIRST_PADDINGS = 8"

definition MAX_PAYLOAD :: nat where
  "MAX_PAYLOAD = 65535"

text \<open>
  The header value: \<open>len\<close> is the random length, \<open>pick i\<close> the random index at the \<open>i\<close>-th position. The
  alphabet is \<open>!#$()+<>?@[]^`{}\<close>.
\<close>

definition ALPHABET :: bytes where
  "ALPHABET = [33, 35, 36, 40, 41, 43, 60, 62, 63, 64, 91, 93, 94, 96, 123, 125]"

definition header_range :: "bool \<Rightarrow> nat \<times> nat" where
  "header_range response = (if response then (30, 62) else (16, 32))"

definition padding_header :: "nat \<Rightarrow> (nat \<Rightarrow> nat) \<Rightarrow> bytes" where
  "padding_header len pick = map (\<lambda>i. if i < 16 then ALPHABET ! pick i else 126) [0..<len]"

type_synonym codec = nat

definition codec_new :: "bool \<Rightarrow> codec" where
  "codec_new enabled = (if enabled then FIRST_PADDINGS else 0)"

text \<open>
  \<open>decode\<close>: the remaining frame count, what is left of the source, and a payload or \<open>None\<close> when more
  bytes are needed. It cannot fail.
\<close>

function decode :: "codec \<Rightarrow> bytes \<Rightarrow> codec \<times> bytes \<times> bytes option" where
  "decode remaining source =
     (if source = [] then (remaining, source, None)
      else if remaining = 0 then (remaining, [], Some source)
      else if length source < 3 then (remaining, source, None)
      else
        let payload = u16_of (source ! 0) (source ! 1);
            padding = unat (source ! 2);
            total = 3 + payload + padding
        in if length source < total then (remaining, source, None)
           else
             let source = drop 3 source;
                 b = take payload source;
                 source = drop padding (drop payload source);
                 remaining = remaining - 1
             in if b \<noteq> [] then (remaining, source, Some b) else decode remaining source)"
  by pat_completeness auto
termination
  by (relation "measure fst") auto

declare decode.simps [simp del]

text \<open>\<open>encode\<close> appends to the destination; \<open>padding\<close> is the random byte.\<close>

definition encode :: "codec \<Rightarrow> bytes \<Rightarrow> byte \<Rightarrow> bytes \<Rightarrow> codec \<times> bytes \<times> (io_error + unit)" where
  "encode remaining b padding destination =
     (if b = [] then (remaining, destination, Inr ())
      else if MAX_PAYLOAD < length b then (remaining, destination, Inl Invalid_Input)
      else if remaining = 0 then (remaining, destination @ b, Inr ())
      else (remaining - 1,
            destination @ be16 (length b) @ [padding] @ b @ replicate (unat padding) 0, Inr ()))"

text \<open>
  \<open>poll_write\<close> of \<open>Padding\<close> offers at most one frame; \<open>pads\<close> are the random bytes of successive calls.
\<close>

definition offered :: "bytes \<Rightarrow> bytes" where
  "offered b = take (min (length b) MAX_PAYLOAD) b"

text \<open>
  What \<open>FramedRead\<close> does with the codec: append what arrived to its buffer and take every payload that
  can be decoded.
\<close>

fun drain :: "nat \<Rightarrow> codec \<Rightarrow> bytes \<Rightarrow> codec \<times> bytes \<times> bytes" where
  "drain 0 c buf = (c, buf, [])"
| "drain (Suc k) c buf =
     (case decode c buf of
        (c, buf, None) \<Rightarrow> (c, buf, [])
      | (c, buf, Some b) \<Rightarrow> (case drain k c buf of (c, buf, out) \<Rightarrow> (c, buf, b @ out)))"

definition framed_read :: "codec \<times> bytes \<Rightarrow> bytes \<Rightarrow> (codec \<times> bytes) \<times> bytes" where
  "framed_read s arrived =
     (case s of (c, buf) \<Rightarrow>
        case drain (Suc (length (buf @ arrived))) c (buf @ arrived) of (c, buf, out) \<Rightarrow> ((c, buf), out))"

text \<open>A sequence of writes, each with its padding byte.\<close>

fun encode_all :: "codec \<Rightarrow> (bytes \<times> byte) list \<Rightarrow> bytes \<Rightarrow> (codec \<times> bytes) option" where
  "encode_all c [] wire = Some (c, wire)"
| "encode_all c ((b, pad) # ws) wire =
     (case encode c b pad wire of
        (c, wire, Inr _) \<Rightarrow> encode_all c ws wire
      | (c, wire, Inl _) \<Rightarrow> None)"

fun read_all :: "codec \<times> bytes \<Rightarrow> bytes list \<Rightarrow> (codec \<times> bytes) \<times> bytes" where
  "read_all s [] = (s, [])"
| "read_all s (a # as) =
     (case framed_read s a of (s, out) \<Rightarrow> case read_all s as of (s, out') \<Rightarrow> (s, out @ out'))"

section \<open>The reference parser\<close>

text \<open>
  What a wire means: all complete frames at once, with the frames still expected, the bytes that do
  not make a frame yet, and the payload.
\<close>

definition frame_length :: "bytes \<Rightarrow> nat" where
  "frame_length source = 3 + u16_of (source ! 0) (source ! 1) + unat (source ! 2)"

function parse :: "codec \<Rightarrow> bytes \<Rightarrow> codec \<times> bytes \<times> bytes" where
  "parse c source =
     (if source = [] then (c, [], [])
      else if c = 0 then (0, [], source)
      else if length source < 3 \<or> length source < frame_length source then (c, source, [])
      else
        (case parse (c - 1) (drop (frame_length source) source) of
           (c', rest, out) \<Rightarrow> (c', rest, take (u16_of (source ! 0) (source ! 1)) (drop 3 source) @ out)))"
  by pat_completeness auto
termination
  by (relation "measure fst") auto

declare parse.simps [simp del]

lemma parse_Nil [simp]: "parse c [] = (c, [], [])"
  by (simp add: parse.simps)

lemma parse_raw [simp]: "parse 0 source = (0, [], source)"
  by (simp add: parse.simps)

lemma parse_short:
  "c \<noteq> 0 \<Longrightarrow> length source < 3 \<or> length source < frame_length source \<Longrightarrow> parse c source = (c, source, [])"
  by (subst parse.simps) auto

lemma parse_frame:
  assumes "c \<noteq> 0" "3 \<le> length source" "frame_length source \<le> length source"
    and "parse (c - 1) (drop (frame_length source) source) = (c', rest, out)"
  shows "parse c source = (c', rest, take (u16_of (source ! 0) (source ! 1)) (drop 3 source) @ out)"
  using assms by (subst parse.simps) auto

lemma decode_parse:
  "(case decode c source of
      (c', rest, None) \<Rightarrow> parse c source = (c', rest, [])
    | (c', rest, Some b) \<Rightarrow> length rest < length source \<and>
        parse c source = (case parse c' rest of (c2, r2, out) \<Rightarrow> (c2, r2, b @ out)))"
proof (induction c source rule: decode.induct)
  case (1 c source)
  let ?n = "u16_of (source ! 0) (source ! 1)"
  consider "source = []" | "source \<noteq> []" "c = 0"
    | "source \<noteq> []" "c \<noteq> 0" "length source < 3 \<or> length source < frame_length source"
    | "source \<noteq> []" "c \<noteq> 0" "\<not> length source < 3" "\<not> length source < frame_length source" by blast
  then show ?case
  proof cases
    case 3
    then show ?thesis
      by (subst decode.simps) (auto simp: parse_short Let_def frame_length_def)
  next
    case 4
    let ?rest = "drop (unat (source ! 2)) (drop ?n (drop 3 source))"
    have rest: "?rest = drop (frame_length source) source"
      by (simp add: frame_length_def add.commute add.left_commute)
    have len: "length ?rest < length source" using 4 by (simp add: frame_length_def)
    have parse: "parse c source =
        (case parse (c - 1) ?rest of (c', r, out) \<Rightarrow> (c', r, take ?n (drop 3 source) @ out))"
      using 4 unfolding rest by (subst parse.simps) simp
    show ?thesis
    proof (cases "take ?n (drop 3 source) = []")
      case False
      then have "decode c source = (c - 1, ?rest, Some (take ?n (drop 3 source)))"
        using 4 by (subst decode.simps) (auto simp: Let_def frame_length_def add.assoc)
      then show ?thesis using parse len by simp
    next
      case True
      then have dec: "decode c source = decode (c - 1) ?rest"
        using 4 by (subst decode.simps) (auto simp: Let_def frame_length_def)
      have par: "parse c source = parse (c - 1) ?rest"
        unfolding parse True by (simp split: prod.split)
      have "case decode (c - 1) ?rest of
          (c', rest, None) \<Rightarrow> parse (c - 1) ?rest = (c', rest, [])
        | (c', rest, Some b) \<Rightarrow> length rest < length ?rest \<and>
            parse (c - 1) ?rest = (case parse c' rest of (c2, r2, out) \<Rightarrow> (c2, r2, b @ out))"
        using 4 True
        by (intro 1 [OF _ _ _ refl refl refl _ refl refl refl refl]) (auto simp: frame_length_def)
      then show ?thesis
        unfolding dec par using len by (auto split: prod.splits option.splits)
    qed
  qed (subst decode.simps, simp)+
qed

lemma drain_parse: "length buf < k \<Longrightarrow> drain k c buf = parse c buf"
proof (induction k arbitrary: c buf)
  case (Suc k)
  show ?case
  proof (cases "snd (snd (decode c buf))")
    case None
    then show ?thesis using decode_parse [of c buf] by (auto split: prod.splits option.splits)
  next
    case (Some b)
    then obtain c1 r1 where d: "decode c buf = (c1, r1, Some b)" by (metis prod.collapse)
    then have "length r1 < length buf"
      and p: "parse c buf = (case parse c1 r1 of (c2, r2, out) \<Rightarrow> (c2, r2, b @ out))"
      using decode_parse [of c buf] by simp_all
    then have "drain k c1 r1 = parse c1 r1" using Suc by simp
    with d p show ?thesis by simp
  qed
qed simp

text \<open>Parsing is insensitive to where the wire is split.\<close>

lemma frame_length_append: "3 \<le> length xs \<Longrightarrow> frame_length (xs @ ys) = frame_length xs"
  by (cases xs) (auto simp: frame_length_def nth_append)

lemma parse_append:
  "parse c xs = (c', rest, out) \<Longrightarrow> parse c' (rest @ ys) = (c2, r2, out2) \<Longrightarrow>
     parse c (xs @ ys) = (c2, r2, out @ out2)"
proof (induction c xs arbitrary: c' rest out rule: parse.induct)
  case (1 c xs)
  consider "xs = []" | "xs \<noteq> []" "c = 0"
    | "xs \<noteq> []" "c \<noteq> 0" "length xs < 3 \<or> length xs < frame_length xs"
    | "xs \<noteq> []" "c \<noteq> 0" "3 \<le> length xs" "frame_length xs \<le> length xs" by linarith
  then show ?case
  proof cases
    case 4
    let ?n = "u16_of (xs ! 0) (xs ! 1)"
    obtain o1 where p1: "parse (c - 1) (drop (frame_length xs) xs) = (c', rest, o1)"
      and out: "out = take ?n (drop 3 xs) @ o1"
      using 1(2) 4 by (subst (asm) parse.simps) (auto split: prod.splits)
    have "parse (c - 1) (drop (frame_length xs) xs @ ys) = (c2, r2, o1 @ out2)"
      using 1(1) [OF _ _ _ p1 1(3)] 4 by auto
    moreover have "drop (frame_length xs) (xs @ ys) = drop (frame_length xs) xs @ ys" using 4 by simp
    moreover have "take ?n (drop 3 (xs @ ys)) = take ?n (drop 3 xs)"
      using 4 by (simp add: frame_length_def)
    ultimately show ?thesis
      using parse_frame [of c "xs @ ys" c2 r2 "o1 @ out2"] 4 out
      by (simp add: frame_length_append nth_append)
  next
    case 3
    with 1(2,3) show ?thesis by (simp add: parse_short)
  qed (use 1(2,3) in auto)
qed

lemma read_all_parse:
  "read_all (c, buf) as = (case parse c (buf @ concat as) of (c', rest, out) \<Rightarrow> ((c', rest), out))"
  if "parse c buf = (c, buf, [])" for as
  using that
proof (induction as arbitrary: c buf)
  case Nil
  then show ?case by simp
next
  case (Cons a as)
  obtain c1 b1 o1 where p1: "parse c (buf @ a) = (c1, b1, o1)" by (cases "parse c (buf @ a)")
  have step: "framed_read (c, buf) a = ((c1, b1), o1)"
    using drain_parse [of "buf @ a" "Suc (length (buf @ a))" c] p1 by (simp add: framed_read_def)
  have stable: "parse c1 b1 = (c1, b1, [])"
  proof -
    obtain c3 b3 o3 where p3: "parse c1 b1 = (c3, b3, o3)" by (cases "parse c1 b1")
    have "parse c1 (b1 @ []) = (c3, b3, o3)" using p3 by simp
    from parse_append [OF p1 this] p1 have "c3 = c1" "b3 = b1" "o3 = []" by auto
    with p3 show ?thesis by simp
  qed
  obtain c2 b2 o2 where p2: "parse c1 (b1 @ concat as) = (c2, b2, o2)" by (cases "parse c1 (b1 @ concat as)")
  have "parse c ((buf @ a) @ concat as) = (c2, b2, o1 @ o2)" by (rule parse_append [OF p1 p2])
  then show ?case using Cons.IH [OF stable] p2 step by simp
qed

section \<open>Properties\<close>

lemma parse_encoded_frame:
  assumes "c \<noteq> 0" "b \<noteq> []" "length b \<le> MAX_PAYLOAD"
  shows "parse c (be16 (length b) @ [pad] @ b @ replicate (unat pad) 0) = (c - 1, [], b)"
proof -
  let ?f = "be16 (length b) @ [pad] @ b @ replicate (unat pad) 0"
  have n: "u16_of (?f ! 0) (?f ! 1) = length b"
    using u16_of_be16 [of "length b"] assms(3) by (simp add: nth_append MAX_PAYLOAD_def)
  have p: "?f ! 2 = pad" by (simp add: nth_append)
  have fl: "frame_length ?f = length ?f" unfolding frame_length_def n p by simp
  have "take (length b) (drop 3 ?f) = b" by simp
  then show ?thesis
    using parse_frame [of c ?f "c - 1" "[]" "[]"] assms(1) fl n by simp
qed

lemma encode_parse:
  assumes "encode c b pad wire = (c', wire', Inr u)" "parse c0 wire = (c, [], out)"
  shows "parse c0 wire' = (c', [], out @ b)"
proof -
  obtain frame where wire': "wire' = wire @ frame" and frame: "parse c frame = (c', [], b)"
    using assms(1) parse_encoded_frame [of c b pad] by (auto simp: encode_def split: if_splits)
  then show ?thesis using parse_append [OF assms(2), of frame] by simp
qed

lemma encode_all_parse:
  "encode_all c ws wire = Some (c', wire') \<Longrightarrow> parse c0 wire = (c, [], out) \<Longrightarrow>
     parse c0 wire' = (c', [], out @ concat (map fst ws))"
proof (induction c ws wire arbitrary: out rule: encode_all.induct)
  case (2 c b pad ws wire)
  from 2(2) obtain c1 w1 u where e: "encode c b pad wire = (c1, w1, Inr u)" "encode_all c1 ws w1 = Some (c', wire')"
    by (auto split: prod.splits sum.splits)
  from encode_parse [OF e(1) 2(3)] have "parse c0 w1 = (c1, [], out @ b)" .
  with 2(1) [OF e(1) [symmetric] refl refl e(2)] show ?case by simp
qed simp

text \<open>
  C18. Whatever was written through the padding encoder comes out of the decoder unchanged: for any
  writes of at most a frame each, any padding bytes, and any way the network splits or merges the
  wire, the decoder yields exactly the concatenation of the writes, keeps nothing, and both ends
  agree on how many padded frames remain.
\<close>

theorem padding_roundtrip:
  assumes "encode_all (codec_new enabled) ws [] = Some (c, wire)" "concat arrivals = wire"
  shows "read_all (codec_new enabled, []) arrivals = ((c, []), concat (map fst ws))"
  using encode_all_parse [OF assms(1), of "codec_new enabled" "[]"]
    read_all_parse [of "codec_new enabled" "[]" arrivals] assms(2) by simp

theorem padding_roundtrip_witness:
  "\<exists>c wire. encode_all (codec_new True) [([1, 2, 3], 2), ([4], 0)] [] = Some (c, wire) \<and>
     concat [take 4 wire, drop 4 wire] = wire \<and>
     read_all (codec_new True, []) [take 4 wire, drop 4 wire] = ((c, []), [1, 2, 3, 4])"
proof -
  have "\<exists>c wire. encode_all (codec_new True) [([1, 2, 3], 2), ([4], 0)] [] = Some (c, wire)"
    by (simp add: codec_new_def FIRST_PADDINGS_def encode_def MAX_PAYLOAD_def)
  then obtain c wire where e: "encode_all (codec_new True) [([1, 2, 3], 2), ([4], 0)] [] = Some (c, wire)" by blast
  from padding_roundtrip [OF this, of "[take 4 wire, drop 4 wire]"] e show ?thesis by auto
qed

text \<open>
  The padding encoder accepts exactly what fits a frame, never fails on what \<open>poll_write\<close> offers
  it, and adds at most 258 bytes, only while padded frames remain.
\<close>

lemma encode_bounds:
  "(case encode c b pad wire of
      (c', wire', Inl e) \<Rightarrow> e = Invalid_Input \<and> MAX_PAYLOAD < length b \<and> c' = c \<and> wire' = wire
    | (c', wire', Inr _) \<Rightarrow> length b \<le> MAX_PAYLOAD \<and> c' \<le> c \<and>
        length wire + length b \<le> length wire' \<and> length wire' \<le> length wire + length b + (if c = 0 then 0 else 258)) \<and>
   snd (snd (encode c (offered b) pad wire)) = Inr ()"
proof -
  have "unat pad < 256" by (rule unat_byte_less)
  then show ?thesis by (simp add: encode_def offered_def MAX_PAYLOAD_def)
qed

end
