(* ===== verification/Text.thy ===== *)
theory Text
  imports Prelude
begin

text \<open>
  The text functions of the standard library that the protocols use, on byte strings: decimal
  printing and parsing of \<open>u16\<close>, UTF-8 validity, searching for a byte, splitting at its last
  occurrence, and ASCII case folding.
\<close>

section \<open>Decimal numbers\<close>

fun show_decimal :: "nat \<Rightarrow> bytes" where
  "show_decimal n = (if n < 10 then [of_nat (48 + n)] else show_decimal (n div 10) @ [of_nat (48 + n mod 10)])"

declare show_decimal.simps [simp del]

definition is_digit :: "byte \<Rightarrow> bool" where
  "is_digit b \<longleftrightarrow> 48 \<le> unat b \<and> unat b \<le> 57"

definition decimal_value :: "bytes \<Rightarrow> nat" where
  "decimal_value s = foldl (\<lambda>n b. n * 10 + (unat b - 48)) 0 s"

text \<open>\<open>str::parse::<u16>\<close>: an optional plus sign, at least one digit, and no overflow.\<close>

definition parse_u16 :: "bytes \<Rightarrow> nat option" where
  "parse_u16 s =
     (let d = (case s of [] \<Rightarrow> [] | c # t \<Rightarrow> if c = 43 \<and> t \<noteq> [] then t else s)
      in if d \<noteq> [] \<and> list_all is_digit d \<and> decimal_value d \<le> 65535 then Some (decimal_value d) else None)"

lemma decimal_value_snoc: "decimal_value (s @ [b]) = decimal_value s * 10 + (unat b - 48)"
  by (simp add: decimal_value_def)

lemma unat_digit: "d < 10 \<Longrightarrow> unat (of_nat (48 + d) :: byte) = 48 + d"
  by (simp add: unat_of_nat_byte del: of_nat_add)

lemma show_decimal_digits: "list_all is_digit (show_decimal n) \<and> show_decimal n \<noteq> [] \<and> decimal_value (show_decimal n) = n"
proof (induction n rule: show_decimal.induct)
  case (1 n)
  show ?case
  proof (cases "n < 10")
    case True
    then show ?thesis
      using unat_digit [of n] by (simp add: show_decimal.simps [of n] is_digit_def decimal_value_def del: of_nat_add)
  next
    case False
    then show ?thesis
      using 1 unat_digit [of "n mod 10"]
      by (simp add: show_decimal.simps [of n] is_digit_def decimal_value_snoc del: of_nat_add)
  qed
qed

lemma digit_not_plus [simp]: "\<not> is_digit 43"
  by (simp add: is_digit_def)

lemma parse_show_u16: "n \<le> 65535 \<Longrightarrow> parse_u16 (show_decimal n) = Some n"
  using show_decimal_digits [of n]
  by (auto simp: parse_u16_def Let_def split: list.splits)

section \<open>Searching and splitting\<close>

text \<open>\<open>rsplit_once\<close>: before and after the last occurrence of a byte.\<close>

fun rsplit_once :: "byte \<Rightarrow> bytes \<Rightarrow> (bytes \<times> bytes) option" where
  "rsplit_once c [] = None"
| "rsplit_once c (b # s) =
     (case rsplit_once c s of
        Some (x, y) \<Rightarrow> Some (b # x, y)
      | None \<Rightarrow> if b = c then Some ([], s) else None)"

lemma rsplit_once_None: "rsplit_once c s = None \<longleftrightarrow> c \<notin> set s"
  by (induction s) (auto split: option.splits)

lemma rsplit_once_append: "c \<notin> set y \<Longrightarrow> rsplit_once c (x @ c # y) = Some (x, y)"
proof (induction x)
  case Nil
  then have "rsplit_once c y = None" by (simp add: rsplit_once_None)
  then show ?case by simp
qed simp

lemma rsplit_once_Some:
  assumes "rsplit_once c s = Some (x, y)"
  shows "s = x @ c # y \<and> c \<notin> set y"
  using assms
proof (induction s arbitrary: x)
  case (Cons b s)
  show ?case
  proof (cases "rsplit_once c s")
    case None
    then have "c \<notin> set s" by (simp add: rsplit_once_None)
    then show ?thesis using Cons.prems None by (simp split: if_splits)
  next
    case (Some r)
    then obtain x' y' where r: "rsplit_once c s = Some (x', y')" by (cases r) auto
    then show ?thesis using Cons.prems Cons.IH [of x'] by simp
  qed
qed simp

lemma digits_no_colon: "58 \<notin> set (show_decimal n)"
proof
  assume "58 \<in> set (show_decimal n)"
  then have "is_digit 58" using show_decimal_digits [of n] by (auto simp: list_all_iff)
  then show False by (simp add: is_digit_def)
qed

section \<open>UTF-8\<close>

definition continuation :: "byte \<Rightarrow> bool" where
  "continuation b \<longleftrightarrow> 128 \<le> unat b \<and> unat b < 192"

text \<open>
  The length of the character that starts a string. \<open>str::from_utf8\<close> accepts exactly the well-formed
  sequences: no overlong forms, no surrogates, nothing above U+10FFFF.
\<close>

definition utf8_tail :: "nat \<Rightarrow> nat \<Rightarrow> nat \<Rightarrow> bytes \<Rightarrow> nat option" where
  "utf8_tail n low high t =
     (if n \<le> length t \<and> list_all continuation (take n t) \<and> low \<le> unat (t ! 0) \<and> unat (t ! 0) < high
      then Some (Suc n) else None)"

definition utf8_char :: "bytes \<Rightarrow> nat option" where
  "utf8_char s =
     (case s of
        [] \<Rightarrow> None
      | a # t \<Rightarrow>
          if unat a < 128 then Some 1
          else if unat a < 194 then None
          else if unat a < 224 then utf8_tail 1 128 192 t
          else if unat a < 240 then
            utf8_tail 2 (if unat a = 224 then 160 else 128) (if unat a = 237 then 160 else 192) t
          else if unat a < 245 then
            utf8_tail 3 (if unat a = 240 then 144 else 128) (if unat a = 244 then 144 else 192) t
          else None)"

lemma utf8_tail_Some: "utf8_tail n low high t = Some k \<Longrightarrow> k = Suc n \<and> n \<le> length t"
  by (simp add: utf8_tail_def split: if_splits)

lemma utf8_tail_append: "0 < n \<Longrightarrow> utf8_tail n low high t = Some k \<Longrightarrow> utf8_tail n low high (t @ u) = Some k"
  by (auto simp: utf8_tail_def nth_append split: if_splits)

lemma utf8_char_bounds: "utf8_char s = Some k \<Longrightarrow> 0 < k \<and> k \<le> length s"
  by (cases s) (auto simp: utf8_char_def dest!: utf8_tail_Some split: if_splits)

lemma utf8_char_append: "utf8_char s = Some k \<Longrightarrow> utf8_char (s @ t) = Some k"
  by (cases s) (auto simp: utf8_char_def utf8_tail_append split: if_splits)

function valid_utf8 :: "bytes \<Rightarrow> bool" where
  "valid_utf8 s =
     (if s = [] then True
      else case utf8_char s of None \<Rightarrow> False | Some k \<Rightarrow> valid_utf8 (drop k s))"
  by pat_completeness auto
termination
  by (relation "measure length") (auto dest!: utf8_char_bounds)

declare valid_utf8.simps [simp del]

definition ascii :: "bytes \<Rightarrow> bool" where
  "ascii s \<longleftrightarrow> list_all (\<lambda>b. unat b < 128) s"

lemma ascii_utf8: "ascii s \<Longrightarrow> valid_utf8 s"
proof (induction s)
  case (Cons a s)
  then have "utf8_char (a # s) = Some 1" "valid_utf8 s" by (auto simp: ascii_def utf8_char_def)
  then show ?case by (subst valid_utf8.simps) simp
qed (simp add: valid_utf8.simps)

lemma ascii_show_decimal: "ascii (show_decimal n)"
  using show_decimal_digits [of n] by (auto simp: ascii_def list_all_iff is_digit_def)

lemma valid_utf8_append: "valid_utf8 s \<Longrightarrow> valid_utf8 t \<Longrightarrow> valid_utf8 (s @ t)"
proof (induction s rule: valid_utf8.induct)
  case (1 s)
  show ?case
  proof (cases "s = []")
    case False
    then obtain k where k: "utf8_char s = Some k" "valid_utf8 (drop k s)"
      using 1(2) by (subst (asm) valid_utf8.simps) (auto split: option.splits)
    then have "valid_utf8 (drop k s @ t)" using 1(1) [OF False k(1)] 1(3) by simp
    moreover have "drop k (s @ t) = drop k s @ t" using utf8_char_bounds [OF k(1)] by simp
    ultimately show ?thesis
      using False utf8_char_append [OF k(1), of t] by (subst valid_utf8.simps) simp
  qed (use 1(3) in simp)
qed

section \<open>ASCII case\<close>

definition to_lower :: "byte \<Rightarrow> byte" where
  "to_lower b = (if 65 \<le> unat b \<and> unat b \<le> 90 then of_nat (unat b + 32) else b)"

definition lower :: "bytes \<Rightarrow> bytes" where
  "lower s = map to_lower s"

lemma to_lower_idem [simp]: "to_lower (to_lower b) = to_lower b"
  using unat_byte_less [of b] by (auto simp: to_lower_def unat_of_nat_byte simp del: of_nat_add)

lemma lower_idem [simp]: "lower (lower s) = lower s"
  by (simp add: lower_def)

end
