(* ===== verification/Target.thy ===== *)
theory Target
  imports Text
begin

text \<open>
  Targets and carrier capabilities (\<open>crates/config/src/target.rs\<close>, \<open>crates/protocol/src/lib.rs\<close>): what a
  connection asks for, what a carrier offers, and when a server's own name is resolved. A resolver is
  any function from a name to the addresses it found.
\<close>

section \<open>Targets\<close>

datatype ip_addr = V4 "32 word" | V6 "128 word"

datatype target = Ip ip_addr nat | Domain bytes nat

fun target_port :: "target \<Rightarrow> nat" where
  "target_port (Ip a p) = p"
| "target_port (Domain n p) = p"

datatype transport = Tcp | Udp

definition target_of :: "ip_addr \<times> nat \<Rightarrow> target" where
  "target_of a = Ip (fst a) (snd a)"

datatype target_error = Requires_Ip | No_Addresses | Lacks_Capabilities | Resolver_Failed

definition socket_addr :: "target \<Rightarrow> target_error + ip_addr \<times> nat" where
  "socket_addr t = (case t of Ip a p \<Rightarrow> Inr (a, p) | Domain n p \<Rightarrow> Inl Requires_Ip)"

definition from_server :: "target \<Rightarrow> target \<Rightarrow> bool" where
  "from_server server source =
     (case server of Domain n p \<Rightarrow> target_port source = p | Ip a p \<Rightarrow> server = source)"

section \<open>Capabilities\<close>

record capabilities =
  can_tcp :: bool
  can_udp :: bool
  domain_targets :: bool

definition caps_tcp :: capabilities where
  "caps_tcp = \<lparr>can_tcp = True, can_udp = False, domain_targets = False\<rparr>"

definition caps_udp :: capabilities where
  "caps_udp = \<lparr>can_tcp = False, can_udp = True, domain_targets = False\<rparr>"

definition caps_both :: capabilities where
  "caps_both = \<lparr>can_tcp = True, can_udp = True, domain_targets = False\<rparr>"

definition caps_require :: "capabilities \<Rightarrow> capabilities \<Rightarrow> target_error + unit" where
  "caps_require self required =
     (if (can_tcp required \<and> \<not> can_tcp self) \<or> (can_udp required \<and> \<not> can_udp self) \<or>
         (domain_targets required \<and> \<not> domain_targets self)
      then Inl Lacks_Capabilities else Inr ())"

definition caps_require_for :: "capabilities \<Rightarrow> transport \<Rightarrow> target \<Rightarrow> target_error + unit" where
  "caps_require_for self protocol t =
     caps_require self
       ((case protocol of Tcp \<Rightarrow> caps_tcp | Udp \<Rightarrow> caps_udp)
          \<lparr>domain_targets := (case t of Domain n p \<Rightarrow> True | Ip a p \<Rightarrow> False)\<rparr>)"

text \<open>\<open>Endpoint::target\<close>: \<open>resolve\<close> is the endpoint's resolver.\<close>

definition endpoint_target ::
  "target \<Rightarrow> (bytes \<Rightarrow> target_error + ip_addr list) \<Rightarrow> capabilities \<Rightarrow> target_error + target" where
  "endpoint_target address resolve caps =
     (case address of
        Domain name port \<Rightarrow>
          if \<not> domain_targets caps then
            try_res (resolve name) (\<lambda>addresses.
              case addresses of [] \<Rightarrow> Inl No_Addresses | a # _ \<Rightarrow> Inr (Ip a port))
          else Inr address
      | _ \<Rightarrow> Inr address)"

section \<open>Properties\<close>

text \<open>
  The target an endpoint asks of a carrier is one that carrier accepts: for any carrier that
  offers the transport, a resolved endpoint target passes the capability check, keeps the configured
  port, and is a domain only when the carrier takes domains.
\<close>

lemma endpoint_target_accepted:
  assumes "endpoint_target address resolve caps = Inr t"
    and "case protocol of Tcp \<Rightarrow> can_tcp caps | Udp \<Rightarrow> can_udp caps"
  shows "caps_require_for caps protocol t = Inr () \<and> target_port t = target_port address \<and>
    (domain_targets caps \<or> (\<exists>a. t = Ip a (target_port address)))"
proof (cases address)
  case (Ip a p)
  with assms show ?thesis
    by (cases protocol) (auto simp: endpoint_target_def caps_require_for_def caps_require_def caps_tcp_def caps_udp_def)
next
  case (Domain n p)
  show ?thesis
  proof (cases "domain_targets caps")
    case True
    with assms Domain show ?thesis
      by (cases protocol) (auto simp: endpoint_target_def caps_require_for_def caps_require_def caps_tcp_def caps_udp_def)
  next
    case False
    then obtain xs where xs: "resolve n = Inr xs"
      "(case xs of [] \<Rightarrow> Inl No_Addresses | a # _ \<Rightarrow> Inr (Ip a p)) = Inr t"
      using assms(1) Domain by (auto simp: endpoint_target_def try_res_Inr)
    then obtain a where "t = Ip a p" by (cases xs) auto
    with assms(2) Domain False show ?thesis
      by (cases protocol) (auto simp: caps_require_for_def caps_require_def caps_tcp_def caps_udp_def)
  qed
qed

end
