(* ===== verification/Hysteria_Wire.thy ===== *)
theory Hysteria_Wire
  imports Target
begin

text \<open>
  The wire format of Hysteria 2 (\<open>crates/hysteria2/src/wire.rs\<close>): addresses, TCP requests and
  responses, and UDP fragments; their reassembly is the theory \<open>Hysteria_Reassembly\<close>. The variable-length integers are those of
  \<open>quinn\<close> and the text of a socket address that of the standard library; both are parameters, with
  the round trips they promise as \<open>varint_ok\<close> and \<open>addr_text_ok\<close>. Random padding is an argument.
\<close>

section \<open>Parameters\<close>

record wire_codec =
  vi_encode :: "nat \<Rightarrow> bytes option"
  vi_decode :: "bytes \<Rightarrow> (nat \<times> bytes) option"
  at_show :: "ip_addr \<Rightarrow> nat \<Rightarrow> bytes"
  at_parse :: "bytes \<Rightarrow> (ip_addr \<times> nat) option"

text \<open>
  A QUIC integer below \<open>2 ^ 62\<close> has an encoding whose length the two top bits of its first byte give,
  and decoding consumes exactly the encoding.
\<close>

definition varint_ok :: "wire_codec \<Rightarrow> bool" where
  "varint_ok W \<longleftrightarrow>
     (\<forall>n < 2 ^ 62. \<exists>b. vi_encode W n = Some b \<and> b \<noteq> [] \<and> length b = 2 ^ (unat (hd b) div 64) \<and>
        (\<forall>rest. vi_decode W (b @ rest) = Some (n, rest)))"

text \<open>The text of a socket address is ASCII, short, and parses back.\<close>

definition addr_text_ok :: "wire_codec \<Rightarrow> bool" where
  "addr_text_ok W \<longleftrightarrow>
     (\<forall>a p. p \<le> 65535 \<longrightarrow> at_parse W (at_show W a p) = Some (a, p) \<and> ascii (at_show W a p) \<and>
        length (at_show W a p) \<le> 100)"

section \<open>Addresses and fields\<close>

datatype wire_error =
    Invalid_Domain | Address_Too_Long | Missing_Port | Invalid_Port | Integer_Too_Large | Integer_Truncated
  | Short_Input | Oversized_Field | Invalid_Text | Tcp_Rejected | Short_Datagram | Invalid_Index
  | Invalid_Address_Length | Oversized_Datagram | Oversized_Payload | Address_Exceeds_Mtu | Too_Many_Fragments
  | Inconsistent_Fragments | Oversized_Reassembly

definition TCP_REQUEST :: nat where "TCP_REQUEST = 1025"
definition MAX_ADDRESS :: nat where "MAX_ADDRESS = 2048"
definition MAX_PADDING :: nat where "MAX_PADDING = 4096"
definition MAX_DATAGRAM :: nat where "MAX_DATAGRAM = 65507"

text \<open>The bytes \<open>:\<close>, \<open>[\<close>, \<open>]\<close> and NUL may not occur in a domain.\<close>

definition domain_ok :: "bytes \<Rightarrow> bool" where
  "domain_ok name \<longleftrightarrow> name \<noteq> [] \<and> \<not> (58 \<in> set name \<or> 91 \<in> set name \<or> 93 \<in> set name \<or> 0 \<in> set name)"

definition address :: "wire_codec \<Rightarrow> target \<Rightarrow> wire_error + bytes" where
  "address W t =
     try_res
       (case t of
          Ip a p \<Rightarrow> Inr (at_show W a p)
        | Domain name p \<Rightarrow> ensure (domain_ok name) Invalid_Domain (Inr (name @ [58] @ show_decimal p)))
       (\<lambda>value. ensure (length value \<le> MAX_ADDRESS) Address_Too_Long (Inr value))"

definition parse_address :: "wire_codec \<Rightarrow> bytes \<Rightarrow> wire_error + target" where
  "parse_address W value =
     ensure (length value \<le> MAX_ADDRESS) Address_Too_Long
       (case at_parse W value of
          Some a \<Rightarrow> Inr (target_of a)
        | None \<Rightarrow>
            try_res (or_error (rsplit_once 58 value) Missing_Port) (\<lambda>(name, port).
              ensure (domain_ok name) Invalid_Domain
                (try_res (or_error (parse_u16 port) Invalid_Port) (\<lambda>p. Inr (Domain name p)))))"

definition put_varint :: "wire_codec \<Rightarrow> bytes \<Rightarrow> nat \<Rightarrow> wire_error + bytes" where
  "put_varint W out n = try_res (or_error (vi_encode W n) Integer_Too_Large) (\<lambda>b. Inr (out @ b))"

text \<open>Reading from a stream: the result and the rest of the input.\<close>

definition read_exact :: "nat \<Rightarrow> bytes \<Rightarrow> wire_error + bytes \<times> bytes" where
  "read_exact n input = (if length input < n then Inl Short_Input else Inr (take n input, drop n input))"

definition read_varint :: "wire_codec \<Rightarrow> bytes \<Rightarrow> wire_error + nat \<times> bytes" where
  "read_varint W input =
     try_res (read_exact 1 input) (\<lambda>(first, rest).
       let len = 2 ^ (unat (hd first) div 64) in
       try_res (read_exact (len - 1) rest) (\<lambda>(more, rest).
         try_res (or_error (vi_decode W (first @ more)) Integer_Truncated) (\<lambda>(n, _). Inr (n, rest))))"

definition read_field :: "wire_codec \<Rightarrow> bytes \<Rightarrow> nat \<Rightarrow> wire_error + bytes \<times> bytes" where
  "read_field W input maximum =
     try_res (read_varint W input) (\<lambda>(len, rest).
       ensure (len \<le> maximum) Oversized_Field (read_exact len rest))"

definition put_field :: "wire_codec \<Rightarrow> bytes \<Rightarrow> bytes \<Rightarrow> wire_error + bytes" where
  "put_field W out value = try_res (put_varint W out (length value)) (\<lambda>out. Inr (out @ value))"

section \<open>TCP requests and responses\<close>

text \<open>\<open>padding\<close> is the random text of 64 to 512 alphanumeric characters.\<close>

definition request :: "wire_codec \<Rightarrow> target \<Rightarrow> bytes \<Rightarrow> wire_error + bytes" where
  "request W t padding =
     try_res (put_varint W [] TCP_REQUEST) (\<lambda>out.
       try_res (address W t) (\<lambda>a.
         try_res (put_field W out a) (\<lambda>out. put_field W out padding)))"

definition read_request :: "wire_codec \<Rightarrow> bytes \<Rightarrow> wire_error + target \<times> bytes" where
  "read_request W input =
     try_res (read_field W input MAX_ADDRESS) (\<lambda>(b, rest).
       ensure (valid_utf8 b) Invalid_Text
         (try_res (parse_address W b) (\<lambda>t.
            try_res (read_field W rest MAX_PADDING) (\<lambda>(_, rest). Inr (t, rest)))))"

definition response :: "wire_codec \<Rightarrow> bytes \<Rightarrow> wire_error + bytes" where
  "response W padding = try_res (put_field W [0] []) (\<lambda>out. put_field W out padding)"

definition read_response :: "wire_codec \<Rightarrow> bytes \<Rightarrow> wire_error + bytes" where
  "read_response W input =
     try_res (read_exact 1 input) (\<lambda>(status, rest).
       try_res (read_field W rest MAX_ADDRESS) (\<lambda>(message, rest).
         try_res (read_field W rest MAX_PADDING) (\<lambda>(_, rest).
           ensure (hd status = 0) Tcp_Rejected (Inr rest))))"

section \<open>Fragments\<close>

record fragment =
  f_session :: nat
  f_packet :: nat
  f_index :: nat
  f_count :: nat
  f_target :: target
  f_payload :: bytes

definition decode_fragment :: "wire_codec \<Rightarrow> bytes \<Rightarrow> wire_error + fragment" where
  "decode_fragment W b =
     ensure (9 \<le> length b) Short_Datagram
       (let session = u32_of (b ! 0) (b ! 1) (b ! 2) (b ! 3);
            packet = u16_of (b ! 4) (b ! 5);
            index = unat (b ! 6);
            count = unat (b ! 7)
        in ensure (0 < count \<and> (count = 1 \<or> index < count)) Invalid_Index
             (try_res (or_error (vi_decode W (drop 8 b)) Integer_Truncated) (\<lambda>(len, rest).
                ensure (len \<le> MAX_ADDRESS \<and> len \<le> length rest) Invalid_Address_Length
                  (ensure (valid_utf8 (take len rest)) Invalid_Text
                     (try_res (parse_address W (take len rest)) (\<lambda>t.
                        let payload = drop len rest in
                        ensure (length payload \<le> MAX_DATAGRAM) Oversized_Datagram
                          (Inr \<lparr>f_session = session, f_packet = packet, f_index = index, f_count = count,
                                f_target = t, f_payload = payload\<rparr>)))))))"

text \<open>\<open>fragments\<close>; \<open>None\<close> stands for a failing \<open>debug_assert!\<close>.\<close>

definition fragments ::
  "wire_codec \<Rightarrow> nat \<Rightarrow> nat \<Rightarrow> target \<Rightarrow> bytes \<Rightarrow> nat \<Rightarrow> (wire_error + bytes list) option" where
  "fragments W session packet t payload mtu =
     (let checked =
        ensure (length payload \<le> MAX_DATAGRAM) Oversized_Payload
          (try_res (address W t) (\<lambda>a.
             try_res (put_field W (be32 session @ be16 packet @ [0, 1]) a) (\<lambda>header.
               ensure (length header < mtu) Address_Exceeds_Mtu
                 (let capacity = mtu - length header;
                      count = max (div_ceil (length payload) capacity) 1
                  in ensure (count \<le> 255) Too_Many_Fragments
                       (Inr (map (\<lambda>i. header[7 := of_nat count, 6 := of_nat i] @
                               rslice (i * capacity) (min (i * capacity + capacity) (length payload)) payload)
                             [0..<count]))))))
      in case checked of
           Inl e \<Rightarrow> Some (Inl e)
         | Inr result \<Rightarrow> if list_all (\<lambda>b. length b \<le> mtu) result then Some (Inr result) else None)"

text \<open>The datagrams never exceed the MTU, so the assertion holds.\<close>

lemma fragments_total: "\<exists>r. fragments W session packet t payload mtu = Some r"
proof (cases "address W t")
  case (Inr a)
  show ?thesis
  proof (cases "put_field W (be32 session @ be16 packet @ [0, 1]) a")
    case (Inr h)
    have "length (h[7 := x, 6 := y] @ rslice (i * c) (min (i * c + c) (length payload)) payload) \<le> mtu"
      if "length h < mtu" "c = mtu - length h" for x y i c
      using that by (simp add: rslice_def)
    then show ?thesis using Inr \<open>address W t = Inr a\<close> by (auto simp: fragments_def ensure_def Let_def list_all_iff)
  qed (use Inr in \<open>simp add: fragments_def ensure_def Let_def\<close>)
qed (simp add: fragments_def ensure_def Let_def)

section \<open>A codec that keeps the promises\<close>

text \<open>
  The integers of RFC 9000 and a simple text for socket addresses, at which the properties are
  evaluated: the parameters' hypotheses can hold together.
\<close>

primrec be_bytes :: "nat \<Rightarrow> nat \<Rightarrow> bytes" where
  "be_bytes 0 n = []"
| "be_bytes (Suc k) n = be_bytes k (n div 256) @ [of_nat n]"

definition be_value :: "bytes \<Rightarrow> nat" where
  "be_value b = foldl (\<lambda>v x. v * 256 + unat x) 0 b"

lemma length_be_bytes [simp]: "length (be_bytes k n) = k"
  by (induction k arbitrary: n) auto

lemma be_value_snoc: "be_value (b @ [x]) = be_value b * 256 + unat x"
  by (simp add: be_value_def)

lemma be_value_be_bytes: "n < 256 ^ k \<Longrightarrow> be_value (be_bytes k n) = n"
proof (induction k arbitrary: n)
  case (Suc k)
  have "n div 256 < 256 ^ k" using Suc.prems by (simp add: less_mult_imp_div_less mult.commute)
  then show ?case using Suc.IH by (simp add: be_value_snoc unat_of_nat_byte)
qed (simp add: be_value_def)

lemma hd_be_bytes: "0 < k \<Longrightarrow> hd (be_bytes k n) = of_nat (n div 256 ^ (k - 1))"
proof (induction k arbitrary: n)
  case (Suc k)
  show ?case
  proof (cases k)
    case 0
    then show ?thesis by simp
  next
    case (Suc m)
    then have "be_bytes k (n div 256) \<noteq> []" by simp
    then have "hd (be_bytes (Suc k) n) = hd (be_bytes k (n div 256))" by simp
    then show ?thesis using Suc.IH [of "n div 256"] Suc by (simp add: div_mult2_eq)
  qed
qed simp

definition quic_encode :: "nat \<Rightarrow> bytes option" where
  "quic_encode n =
     (if n < 2 ^ 6 then Some (be_bytes 1 n)
      else if n < 2 ^ 14 then Some (be_bytes 2 (n + 2 ^ 14))
      else if n < 2 ^ 30 then Some (be_bytes 4 (n + 2 * 2 ^ 30))
      else if n < 2 ^ 62 then Some (be_bytes 8 (n + 3 * 2 ^ 62))
      else None)"

definition quic_decode :: "bytes \<Rightarrow> (nat \<times> bytes) option" where
  "quic_decode b =
     (case b of
        [] \<Rightarrow> None
      | x # _ \<Rightarrow>
          let len = 2 ^ (unat x div 64) in
          if length b < len then None
          else Some (be_value (take len b) mod 2 ^ (8 * len - 2), drop len b))"

lemma quic_tagged:
  assumes "k = 2 ^ tag" "tag < 4" "n < 2 ^ (8 * k - 2)"
  defines "b \<equiv> be_bytes k (n + tag * 2 ^ (8 * k - 2))"
  shows "b \<noteq> []" "unat (hd b) div 64 = tag" "quic_decode (b @ rest) = Some (n, rest)"
proof -
  let ?N = "n + tag * 2 ^ (8 * k - 2)"
  have k: "0 < k" using assms(1) by simp
  have split: "(2 :: nat) ^ (8 * k - 2) = 64 * 256 ^ (k - 1)"
  proof -
    have "8 * k - 2 = 6 + 8 * (k - 1)" using k by simp
    then have "(2 :: nat) ^ (8 * k - 2) = 2 ^ 6 * (2 ^ 8) ^ (k - 1)" by (simp only: power_add power_mult)
    then show ?thesis by simp
  qed
  have full: "(256 :: nat) ^ k = 4 * 2 ^ (8 * k - 2)" using k split by (cases k) simp_all
  have "?N < (tag + 1) * 2 ^ (8 * k - 2)" using assms(3) by simp
  also have "\<dots> \<le> 4 * 2 ^ (8 * k - 2)" using assms(2) by (intro mult_le_mono1) simp
  finally have N: "?N < 256 ^ k" unfolding full .
  show ne: "b \<noteq> []" using k by (simp add: b_def flip: length_0_conv)
  have "?N div 256 ^ (k - 1) < 256"
    using N k by (cases k) (simp_all add: less_mult_imp_div_less)
  then have "unat (hd b) = ?N div 256 ^ (k - 1)"
    unfolding b_def hd_be_bytes [OF k] by (simp add: unat_of_nat_byte)
  then have "unat (hd b) div 64 = ?N div 2 ^ (8 * k - 2)"
    unfolding split by (simp add: div_mult2_eq [symmetric] mult.commute)
  then show tag: "unat (hd b) div 64 = tag" using assms(3) by simp
  obtain x xs where x: "b = x # xs" using ne by (cases b) auto
  have len: "length b = 2 ^ tag" using assms(1) by (simp add: b_def)
  then have "take (2 ^ tag) (b @ rest) = b" "drop (2 ^ tag) (b @ rest) = rest" by simp_all
  moreover have "be_value b mod 2 ^ (8 * 2 ^ tag - 2) = n"
    using be_value_be_bytes [OF N] assms(1,3) by (simp add: b_def)
  ultimately show "quic_decode (b @ rest) = Some (n, rest)"
    using tag x len by (simp add: quic_decode_def Let_def)
qed

text \<open>The text of a sample address: its family digit, its value and its port.\<close>

definition sample_show :: "ip_addr \<Rightarrow> nat \<Rightarrow> bytes" where
  "sample_show a p =
     (case a of V4 w \<Rightarrow> 52 # show_decimal (unat w) | V6 w \<Rightarrow> 54 # show_decimal (unat w)) @ [58] @ show_decimal p"

definition sample_parse :: "bytes \<Rightarrow> (ip_addr \<times> nat) option" where
  "sample_parse s =
     Option.bind (rsplit_once 58 s) (\<lambda>(h, p).
       Option.bind (parse_u16 p) (\<lambda>p.
         case h of
           [] \<Rightarrow> None
         | f # d \<Rightarrow>
             if d = [] \<or> \<not> list_all is_digit d then None
             else if f = 52 then Some (V4 (of_nat (decimal_value d)), p)
             else if f = 54 then Some (V6 (of_nat (decimal_value d)), p)
             else None))"

definition sample_codec :: wire_codec where
  "sample_codec = \<lparr>vi_encode = quic_encode, vi_decode = quic_decode, at_show = sample_show, at_parse = sample_parse\<rparr>"

lemma sample_varint_ok: "varint_ok sample_codec"
  unfolding varint_ok_def
proof (intro allI impI)
  fix n :: nat
  assume n: "n < 2 ^ 62"
  have "\<exists>k tag. k = 2 ^ tag \<and> tag < 4 \<and> n < 2 ^ (8 * k - 2) \<and> quic_encode n = Some (be_bytes k (n + tag * 2 ^ (8 * k - 2)))"
  proof -
    consider "n < 2 ^ 6" | "\<not> n < 2 ^ 6" "n < 2 ^ 14" | "\<not> n < 2 ^ 14" "n < 2 ^ 30" | "\<not> n < 2 ^ 30" by blast
    then show ?thesis
    proof cases
      case 1
      then show ?thesis by (intro exI [of _ 1] exI [of _ 0]) (simp add: quic_encode_def)
    next
      case 2
      then show ?thesis by (intro exI [of _ 2] exI [of _ 1]) (simp add: quic_encode_def)
    next
      case 3
      then show ?thesis by (intro exI [of _ 4] exI [of _ 2]) (simp add: quic_encode_def)
    next
      case 4
      then show ?thesis using n by (intro exI [of _ 8] exI [of _ 3]) (simp add: quic_encode_def)
    qed
  qed
  then obtain k tag where k: "k = 2 ^ tag" "tag < 4" "n < 2 ^ (8 * k - 2)"
    and enc: "quic_encode n = Some (be_bytes k (n + tag * 2 ^ (8 * k - 2)))" by blast
  note q = quic_tagged [OF k]
  show "\<exists>b. vi_encode sample_codec n = Some b \<and> b \<noteq> [] \<and> length b = 2 ^ (unat (hd b) div 64) \<and>
      (\<forall>rest. vi_decode sample_codec (b @ rest) = Some (n, rest))"
    using enc q k(1) by (intro exI [of _ "be_bytes k (n + tag * 2 ^ (8 * k - 2))"]) (simp add: sample_codec_def)
qed

lemma length_show_decimal: "n < 10 ^ Suc k \<Longrightarrow> length (show_decimal n) \<le> Suc k"
proof (induction k arbitrary: n)
  case 0
  then show ?case by (simp add: show_decimal.simps)
next
  case (Suc k)
  show ?case
  proof (cases "n < 10")
    case True
    then show ?thesis by (simp add: show_decimal.simps)
  next
    case False
    have "n div 10 < 10 ^ Suc k" using Suc.prems by (simp add: less_mult_imp_div_less mult.commute)
    then show ?thesis using Suc.IH False by (subst show_decimal.simps) simp
  qed
qed

lemma sample_addr_text_ok: "addr_text_ok sample_codec"
  unfolding addr_text_ok_def
proof (intro allI impI)
  fix a :: ip_addr and p :: nat
  assume p: "p \<le> 65535"
  obtain f n where h: "(case a of V4 w \<Rightarrow> 52 # show_decimal (unat w) | V6 w \<Rightarrow> 54 # show_decimal (unat w)) =
      f # show_decimal n" "n < 2 ^ 128" "f = 52 \<and> a = V4 (of_nat n) \<or> f = 54 \<and> a = V6 (of_nat n)"
  proof (cases a)
    case (V4 w)
    have "unsigned w < (2 :: nat) ^ LENGTH(32)" by (rule unsigned_less)
    then have "unat w < 2 ^ 128" by simp
    with V4 that [of 52 "unat w"] show thesis by simp
  next
    case (V6 w)
    have "unsigned w < (2 :: nat) ^ LENGTH(128)" by (rule unsigned_less)
    then have "unat w < 2 ^ 128" by simp
    with V6 that [of 54 "unat w"] show thesis by simp
  qed
  have s: "sample_show a p = (f # show_decimal n) @ 58 # show_decimal p"
    using h(1) by (simp add: sample_show_def)
  have "sample_parse (sample_show a p) = Some (a, p)"
    unfolding sample_parse_def s rsplit_once_append [OF digits_no_colon]
    using show_decimal_digits [of n] h(3) p by (auto simp: parse_show_u16)
  moreover have "ascii (sample_show a p)"
    using ascii_show_decimal [of n] ascii_show_decimal [of p] h(3) unfolding s by (auto simp: ascii_def)
  moreover have "length (sample_show a p) \<le> 100"
  proof -
    have "n < 10 ^ Suc 38" using h(2) by simp
    moreover have "p < 10 ^ Suc 4" using p by simp
    ultimately show ?thesis
      using length_show_decimal [of n 38] length_show_decimal [of p 4] unfolding s by simp
  qed
  ultimately show "at_parse sample_codec (at_show sample_codec a p) = Some (a, p) \<and>
      ascii (at_show sample_codec a p) \<and> length (at_show sample_codec a p) \<le> 100"
    by (simp add: sample_codec_def)
qed

section \<open>Addresses and fields read back\<close>

text \<open>
  Targets that survive their text form: a port that fits \<open>u16\<close>, a valid name, and a name that is not
  itself the text of a socket address.
\<close>

definition plain_target :: "wire_codec \<Rightarrow> target \<Rightarrow> bool" where
  "plain_target W t \<longleftrightarrow> target_port t \<le> 65535 \<and>
     (case t of Ip a p \<Rightarrow> True
      | Domain name p \<Rightarrow> valid_utf8 name \<and> at_parse W (name @ [58] @ show_decimal p) = None)"

lemma address_parses:
  assumes "addr_text_ok W" "plain_target W t" "address W t = Inr a"
  shows "parse_address W a = Inr t" "valid_utf8 a" "length a \<le> MAX_ADDRESS"
proof -
  have len: "length a \<le> MAX_ADDRESS"
    using assms(3) by (auto simp: address_def result_Inr)
  then show "length a \<le> MAX_ADDRESS" .
  show "parse_address W a = Inr t" "valid_utf8 a"
  proof (atomize (full), cases t)
    case (Ip ip p)
    then have "a = at_show W ip p" "p \<le> 65535"
      using assms(2,3) by (auto simp: address_def plain_target_def result_Inr)
    then show "parse_address W a = Inr t \<and> valid_utf8 a"
      using assms(1) len Ip by (auto simp: parse_address_def addr_text_ok_def target_of_def ascii_utf8)
  next
    case (Domain name p)
    then have a: "a = name @ [58] @ show_decimal p" "domain_ok name" "p \<le> 65535" "valid_utf8 name"
      "at_parse W a = None"
      using assms(2,3) by (auto simp: address_def plain_target_def result_Inr)
    have "rsplit_once 58 a = Some (name, show_decimal p)"
      unfolding a(1) using rsplit_once_append [OF digits_no_colon] by simp
    then have "parse_address W a = Inr t"
      using a len Domain by (simp add: parse_address_def parse_show_u16)
    moreover have "valid_utf8 ([58] @ show_decimal p)"
      using ascii_show_decimal [of p] by (intro ascii_utf8) (simp add: ascii_def)
    then have "valid_utf8 a" unfolding a(1) by (rule valid_utf8_append [OF a(4)])
    ultimately show "parse_address W a = Inr t \<and> valid_utf8 a" by simp
  qed
qed

lemma put_varint_reads:
  assumes "varint_ok W" "put_varint W out n = Inr out'" "n < 2 ^ 62"
  shows "\<exists>b. out' = out @ b \<and> b \<noteq> [] \<and> (\<forall>rest. read_varint W (b @ rest) = Inr (n, rest) \<and>
    vi_decode W (b @ rest) = Some (n, rest))"
proof -
  obtain b where b: "vi_encode W n = Some b" "b \<noteq> []" "length b = 2 ^ (unat (hd b) div 64)"
    "\<And>rest. vi_decode W (b @ rest) = Some (n, rest)"
    using assms(1,3) unfolding varint_ok_def by blast
  have "out' = out @ b" using assms(2) b(1) by (simp add: put_varint_def)
  moreover have "read_varint W (b @ rest) = Inr (n, rest)" for rest
  proof -
    obtain x xs where x: "b = x # xs" using b(2) by (cases b) auto
    have "vi_decode W (x # xs) = Some (n, [])" using b(4) [of "[]"] x by simp
    moreover have "2 ^ (unat x div 64) - 1 = length xs" using b(3) x by simp
    ultimately show ?thesis
      by (simp add: read_varint_def read_exact_def x Let_def)
  qed
  ultimately show ?thesis using b by blast
qed

lemma put_field_reads:
  assumes "varint_ok W" "put_field W out v = Inr out'" "length v \<le> maximum" "maximum < 2 ^ 62"
  shows "\<exists>f. out' = out @ f \<and> f \<noteq> [] \<and> (\<forall>rest. read_field W (f @ rest) maximum = Inr (v, rest) \<and>
    vi_decode W (f @ rest) = Some (length v, v @ rest))"
proof -
  obtain o1 where o1: "put_varint W out (length v) = Inr o1" "out' = o1 @ v"
    using assms(2) by (auto simp: put_field_def try_res_Inr)
  have "length v < 2 ^ 62" using assms(3,4) by linarith
  then obtain b where b: "o1 = out @ b" "b \<noteq> []"
    "\<And>rest. read_varint W (b @ rest) = Inr (length v, rest) \<and> vi_decode W (b @ rest) = Some (length v, rest)"
    using put_varint_reads [OF assms(1) o1(1)] by blast
  have "read_field W ((b @ v) @ rest) maximum = Inr (v, rest)" for rest
    using b(3) [of "v @ rest"] assms(3) by (simp add: read_field_def read_exact_def)
  moreover have "vi_decode W ((b @ v) @ rest) = Some (length v, v @ rest)" for rest
    using b(3) [of "v @ rest"] by simp
  ultimately show ?thesis using o1(2) b(1,2) by (intro exI [of _ "b @ v"]) auto
qed

lemma bounds_62: "MAX_ADDRESS < 2 ^ 62" "MAX_PADDING < 2 ^ 62" "TCP_REQUEST < 2 ^ 62"
  by (simp_all add: MAX_ADDRESS_def MAX_PADDING_def TCP_REQUEST_def)

text \<open>
  C17. A TCP request reads back: the server that reads the request id and then the request from the
  client's bytes gets the client's target and leaves exactly the bytes that follow, whatever the
  padding.
\<close>

theorem tcp_request_roundtrip:
  assumes "varint_ok W" "addr_text_ok W" "plain_target W t" "length padding \<le> MAX_PADDING"
    and "request W t padding = Inr b"
  shows "\<exists>rest. read_varint W (b @ tail) = Inr (TCP_REQUEST, rest) \<and> read_request W rest = Inr (t, tail)"
proof -
  obtain o1 a o2 where o: "put_varint W [] TCP_REQUEST = Inr o1" "address W t = Inr a"
    "put_field W o1 a = Inr o2" "put_field W o2 padding = Inr b"
    using assms(5) by (auto simp: request_def try_res_Inr)
  note a = address_parses [OF assms(2,3) o(2)]
  obtain h where h: "o1 = h" "\<And>rest. read_varint W (h @ rest) = Inr (TCP_REQUEST, rest)"
    using put_varint_reads [OF assms(1) o(1) bounds_62(3)] by auto
  obtain f where f: "o2 = o1 @ f" "\<And>rest. read_field W (f @ rest) MAX_ADDRESS = Inr (a, rest)"
    using put_field_reads [OF assms(1) o(3) a(3) bounds_62(1)] by auto
  obtain g where g: "b = o2 @ g" "\<And>rest. read_field W (g @ rest) MAX_PADDING = Inr (padding, rest)"
    using put_field_reads [OF assms(1) o(4) assms(4) bounds_62(2)] by auto
  have "read_request W (f @ g @ tail) = Inr (t, tail)"
    using f(2) [of "g @ tail"] g(2) [of tail] a by (simp add: read_request_def)
  moreover have "read_varint W (b @ tail) = Inr (TCP_REQUEST, f @ g @ tail)"
    using h f(1) g(1) by simp
  ultimately show ?thesis by blast
qed

theorem tcp_request_roundtrip_witness:
  "\<exists>b rest. request sample_codec (Ip (V4 7) 443) [120, 121] = Inr b \<and>
     read_varint sample_codec (b @ [1, 2]) = Inr (TCP_REQUEST, rest) \<and>
     read_request sample_codec rest = Inr (Ip (V4 7) 443, [1, 2])"
proof -
  have "\<exists>b. request sample_codec (Ip (V4 7) 443) [120, 121] = Inr b"
    by (simp add: request_def put_varint_def put_field_def address_def sample_codec_def quic_encode_def
        TCP_REQUEST_def sample_show_def MAX_ADDRESS_def show_decimal.simps)
  then obtain b where b: "request sample_codec (Ip (V4 7) 443) [120, 121] = Inr b" by blast
  have "plain_target sample_codec (Ip (V4 7) 443)" "length ([120, 121] :: bytes) \<le> MAX_PADDING"
    by (simp_all add: plain_target_def MAX_PADDING_def)
  from tcp_request_roundtrip [OF sample_varint_ok sample_addr_text_ok this b, of "[1, 2]"] b
  show ?thesis by blast
qed

text \<open>The accepting response reads back as acceptance; a non-zero status is a rejection.\<close>

lemma tcp_response_roundtrip:
  assumes "varint_ok W" "length padding \<le> MAX_PADDING" "response W padding = Inr b"
  shows "read_response W (b @ tail) = Inr tail \<and> (status \<noteq> 0 \<longrightarrow> read_response W (status # tl b @ tail) = Inl Tcp_Rejected)"
proof -
  obtain o1 where o: "put_field W [0] [] = Inr o1" "put_field W o1 padding = Inr b"
    using assms(3) by (auto simp: response_def try_res_Inr)
  obtain f where f: "o1 = [0] @ f" "\<And>rest. read_field W (f @ rest) MAX_ADDRESS = Inr ([], rest)"
    using put_field_reads [OF assms(1) o(1) _ bounds_62(1)] by auto
  obtain g where g: "b = o1 @ g" "\<And>rest. read_field W (g @ rest) MAX_PADDING = Inr (padding, rest)"
    using put_field_reads [OF assms(1) o(2) assms(2) bounds_62(2)] by auto
  have "read_field W (f @ g @ tail) MAX_ADDRESS = Inr ([], g @ tail)" by (rule f(2))
  then show ?thesis
    using g(2) [of tail] f(1) g(1) by (simp add: read_response_def read_exact_def ensure_def)
qed

section \<open>Fragments decode\<close>

lemma concat_slices:
  "concat (map (\<lambda>i. rslice (i * c) (min (i * c + c) (length xs)) xs) [0..<m]) = take (m * c) xs"
proof (induction m)
  case (Suc m)
  have "rslice (m * c) (min (m * c + c) (length xs)) xs = take c (drop (m * c) xs)"
    by (cases "m * c + c \<le> length xs") (auto simp: rslice_def min_def)
  moreover have "take (Suc m * c) xs = take (m * c) xs @ take c (drop (m * c) xs)"
    using take_add [of "m * c" c xs] by (simp add: add.commute)
  ultimately show ?case using Suc by simp
qed simp

lemma div_ceil_covers: "0 < c \<Longrightarrow> n \<le> div_ceil n c * c"
proof -
  assume c: "0 < c"
  have "n + c - 1 = div_ceil n c * c + (n + c - 1) mod c" by (simp add: div_ceil_def)
  moreover have "(n + c - 1) mod c \<le> c - 1" using mod_less_divisor [OF c, of "n + c - 1"] by linarith
  ultimately show ?thesis using c by linarith
qed

lemma header_update:
  assumes "length h = 6"
  shows "(h @ [x, y] @ f)[7 := b, 6 := a] = h @ [a, b] @ f"
  using assms by (simp add: list_update_append)

lemma decode_header:
  assumes "varint_ok W" "addr_text_ok W" "plain_target W t" "address W t = Inr a"
    and "vi_decode W (f @ payload) = Some (length a, a @ payload)" "f \<noteq> []"
    and "session < 2 ^ 32" "packet < 65536" "i < count" "count \<le> 255" "length payload \<le> MAX_DATAGRAM"
  shows "decode_fragment W ((be32 session @ be16 packet) @ [of_nat i, of_nat count] @ f @ payload) =
    Inr \<lparr>f_session = session, f_packet = packet, f_index = i, f_count = count, f_target = t, f_payload = payload\<rparr>"
proof -
  let ?b = "(be32 session @ be16 packet) @ [of_nat i, of_nat count] @ f @ payload"
  have nth: "?b ! 0 = be32 session ! 0" "?b ! 1 = be32 session ! 1" "?b ! 2 = be32 session ! 2"
    "?b ! 3 = be32 session ! 3" "?b ! 4 = be16 packet ! 0" "?b ! 5 = be16 packet ! 1"
    "?b ! 6 = of_nat i" "?b ! 7 = of_nat count"
    by (simp_all add: be32_def be16_def)
  have "1 \<le> length f" using assms(6) by (cases f) simp_all
  then have len: "9 \<le> length ?b" by simp
  have drop: "drop 8 ?b = f @ payload" by (simp add: be32_def be16_def)
  note addr = address_parses [OF assms(2-4)]
  have nums: "u32_of (?b ! 0) (?b ! 1) (?b ! 2) (?b ! 3) = session" "u16_of (?b ! 4) (?b ! 5) = packet"
    "unat (?b ! 6) = i" "unat (?b ! 7) = count"
    unfolding nth using assms(7-10) u32_of_be32 [of session] u16_of_be16 [of packet]
    by (simp_all add: unat_of_nat_byte)
  show ?thesis
    unfolding decode_fragment_def nums drop Let_def
    using len assms(5,9,11) addr by simp
qed

text \<open>
  C16. Fragmentation loses nothing and fits the datagrams: for a valid target and any payload,
  \<open>fragments\<close> either refuses with an error or produces at most 255 datagrams, none longer than the
  MTU, which decode to consecutive parts of the payload carrying the same session, packet id, target
  and count.
\<close>

theorem fragments_decode:
  assumes "varint_ok W" "addr_text_ok W" "plain_target W t" "session < 2 ^ 32" "packet < 65536"
  shows "\<exists>r. fragments W session packet t payload mtu = Some r \<and>
    (case r of Inl e \<Rightarrow> True
     | Inr ds \<Rightarrow> length ds \<le> 255 \<and> list_all (\<lambda>d. length d \<le> mtu) ds \<and>
         (\<exists>parts. concat parts = payload \<and>
            map (decode_fragment W) ds =
              map (\<lambda>(i, part). Inr \<lparr>f_session = session, f_packet = packet, f_index = i, f_count = length ds,
                   f_target = t, f_payload = part\<rparr>) (enumerate 0 parts)))"
proof (cases "length payload \<le> MAX_DATAGRAM \<and> (\<exists>a h. address W t = Inr a \<and>
    put_field W (be32 session @ be16 packet @ [0, 1]) a = Inr h \<and> length h < mtu \<and>
    max (div_ceil (length payload) (mtu - length h)) 1 \<le> 255)")
  case False
  then have "\<exists>e. fragments W session packet t payload mtu = Some (Inl e)"
    by (cases "address W t"; cases "put_field W (be32 session @ be16 packet @ [0, 1]) (projr (address W t))")
      (auto simp: fragments_def ensure_def Let_def split: sum.splits)
  then show ?thesis by auto
next
  case True
  then obtain a h where a: "address W t = Inr a" and h: "put_field W (be32 session @ be16 packet @ [0, 1]) a = Inr h"
    and mtu: "length h < mtu" and small: "length payload \<le> MAX_DATAGRAM"
    and count255: "max (div_ceil (length payload) (mtu - length h)) 1 \<le> 255" by blast
  define c where "c = mtu - length h"
  define count where "count = max (div_ceil (length payload) c) 1"
  define part where "part i = rslice (i * c) (min (i * c + c) (length payload)) payload" for i
  obtain f where f: "h = (be32 session @ be16 packet @ [0, 1]) @ f" "f \<noteq> []"
    "\<And>rest. vi_decode W (f @ rest) = Some (length a, a @ rest)"
    using put_field_reads [OF assms(1) h address_parses(3) [OF assms(2,3) a] bounds_62(1)] by blast
  define head where "head i = (be32 session @ be16 packet) @ [of_nat i, of_nat count] @ f" for i
  have head: "h[7 := of_nat count, 6 := of_nat i] = head i" for i
    using header_update [of "be32 session @ be16 packet" 0 1 f] unfolding f(1) head_def by simp
  have len_head: "length (head i) = length h" for i unfolding head_def f(1) by simp
  let ?ds = "map (\<lambda>i. head i @ part i) [0..<count]"
  have part_le: "length (part i) \<le> c" for i by (simp add: part_def rslice_def)
  have "length (head i @ part i) \<le> mtu" for i
    using part_le [of i] mtu unfolding length_append len_head c_def by linarith
  then have fits: "list_all (\<lambda>d. length d \<le> mtu) ?ds" by (auto simp: list_all_iff)
  have frag: "fragments W session packet t payload mtu = Some (Inr ?ds)"
    using small mtu count255 fits
    unfolding fragments_def Let_def a h try_res.simps c_def [symmetric] count_def [symmetric]
      part_def [symmetric] head by simp
  have "concat (map part [0..<count]) = take (count * c) payload"
    unfolding part_def by (rule concat_slices)
  moreover have "length payload \<le> count * c"
    using div_ceil_covers [of c "length payload"] mtu
    by (auto simp: count_def c_def max_def intro: order_trans)
  ultimately have parts: "concat (map part [0..<count]) = payload" by simp
  have dec: "decode_fragment W (head i @ part i) =
      Inr \<lparr>f_session = session, f_packet = packet, f_index = i, f_count = count, f_target = t, f_payload = part i\<rparr>"
    if "i < count" for i
    using decode_header [OF assms(1-3) a f(3) f(2) assms(4,5) that] count255 small
    by (simp add: head_def count_def c_def part_def rslice_def)
  have "map (decode_fragment W) ?ds =
      map (\<lambda>(i, part). Inr \<lparr>f_session = session, f_packet = packet, f_index = i, f_count = length ?ds,
         f_target = t, f_payload = part\<rparr>) (enumerate 0 (map part [0..<count]))"
    by (rule nth_equalityI) (simp_all add: dec nth_enumerate_eq)
  with frag fits parts count255 show ?thesis by (auto simp: count_def c_def)
qed

theorem fragments_decode_witness:
  "\<exists>ds. fragments sample_codec 9 4 (Ip (V4 7) 443) [1, 2, 3, 4, 5] 17 = Some (Inr ds) \<and> length ds = 3 \<and>
    list_all (\<lambda>d. length d \<le> 17) ds \<and>
    (\<exists>parts. concat parts = [1, 2, 3, 4, 5] \<and>
       map (decode_fragment sample_codec) ds =
         map (\<lambda>(i, part). Inr \<lparr>f_session = 9, f_packet = 4, f_index = i, f_count = length ds,
              f_target = Ip (V4 7) 443, f_payload = part\<rparr>) (enumerate 0 parts))"
proof -
  have "\<exists>ds. fragments sample_codec 9 4 (Ip (V4 7) 443) [1, 2, 3, 4, 5] 17 = Some (Inr ds) \<and> length ds = 3"
  proof -
    have a: "address sample_codec (Ip (V4 7) 443) = Inr [52, 55, 58, 52, 52, 51]"
      by (simp add: address_def sample_codec_def sample_show_def MAX_ADDRESS_def show_decimal.simps)
    have h: "put_field sample_codec (be32 9 @ be16 4 @ [0, 1]) [52, 55, 58, 52, 52, 51] =
        Inr (be32 9 @ be16 4 @ [0, 1, 6, 52, 55, 58, 52, 52, 51])"
      by (simp add: put_field_def put_varint_def sample_codec_def quic_encode_def)
    have c: "max (div_ceil (length ([1, 2, 3, 4, 5] :: bytes))
        (17 - length (be32 9 @ be16 4 @ [0, 1, 6, 52, 55, 58, 52, 52, 51]))) 1 = 3"
      by (simp add: div_ceil_def)
    show ?thesis
      unfolding fragments_def Let_def a h try_res.simps c
      by (simp add: MAX_DATAGRAM_def rslice_def upt_rec numeral_3_eq_3)
  qed
  then obtain ds where ds: "fragments sample_codec 9 4 (Ip (V4 7) 443) [1, 2, 3, 4, 5] 17 = Some (Inr ds)" "length ds = 3"
    by blast
  have "plain_target sample_codec (Ip (V4 7) 443)" by (simp add: plain_target_def)
  from fragments_decode [OF sample_varint_ok sample_addr_text_ok this, of 9 4 "[1, 2, 3, 4, 5]" 17] ds
  show ?thesis by auto
qed

end
