(* ===== verification/Hash_Table.thy ===== *)
theory Hash_Table
  imports Prelude "HOL-Library.AList"
begin

text \<open>
  Hash maps of the program as association lists with distinct keys, whose order stands for the
  iteration order: how insertion, removal and \<open>retain\<close> change a sum over the values, the number of
  entries, and what a lookup finds.
\<close>

definition table_sum :: "('v \<Rightarrow> nat) \<Rightarrow> ('k \<times> 'v) list \<Rightarrow> nat" where
  "table_sum f ps = sum_list (map (f \<circ> snd) ps)"

lemma table_sum_simps [simp]:
  "table_sum f [] = 0"
  "table_sum f (x # ps) = f (snd x) + table_sum f ps"
  by (simp_all add: table_sum_def)

lemma delete_head: "distinct (map fst (x # ps)) \<Longrightarrow> AList.delete (fst x) ps = ps"
  by (simp add: delete_id)

lemma table_sum_delete:
  "distinct (map fst ps) \<Longrightarrow> map_of ps k = Some p \<Longrightarrow> table_sum f ps = f p + table_sum f (AList.delete k ps)"
proof (induction ps)
  case (Cons x ps)
  show ?case
  proof (cases "fst x = k")
    case True
    then show ?thesis using delete_head [OF Cons.prems(1)] Cons.prems(2) by (cases x) simp
  next
    case False
    then show ?thesis using Cons by (cases x) simp
  qed
qed simp

lemma length_delete:
  "distinct (map fst ps) \<Longrightarrow> map_of ps k = Some p \<Longrightarrow> length ps = Suc (length (AList.delete k ps))"
proof (induction ps)
  case (Cons x ps)
  show ?case
  proof (cases "fst x = k")
    case True
    then show ?thesis using delete_head [OF Cons.prems(1)] by (cases x) simp
  next
    case False
    then show ?thesis using Cons by (cases x) simp
  qed
qed simp

lemma table_sum_update:
  "distinct (map fst ps) \<Longrightarrow> map_of ps k = Some p \<Longrightarrow>
     table_sum f (AList.update k q ps) + f p = table_sum f ps + f q"
  by (induction ps) (auto split: if_splits)

lemma table_sum_insert: "map_of ps k = None \<Longrightarrow> table_sum f (AList.update k q ps) = table_sum f ps + f q"
  by (induction ps) (auto split: if_splits)

lemma length_update:
  "length (AList.update k q ps) = (if map_of ps k = None then Suc (length ps) else length ps)"
  by (induction ps) auto

lemma set_update_subset: "set (AList.update k q ps) \<subseteq> insert (k, q) (set ps)"
  by (induction ps) auto

lemma set_delete: "set (AList.delete k ps) = {x \<in> set ps. fst x \<noteq> k}"
  by (auto simp: AList.delete_eq)

lemma table_sum_member: "map_of ps k = Some p \<Longrightarrow> f p \<le> table_sum f ps"
  by (induction ps) (auto split: if_splits)

text \<open>\<open>retain\<close> splits the table into what it keeps and what it drops.\<close>

lemma table_sum_retain:
  "table_sum f (filter P ps) + table_sum f (filter (\<lambda>x. \<not> P x) ps) = table_sum f ps"
  by (induction ps) auto

lemma map_of_retain:
  "distinct (map fst ps) \<Longrightarrow>
     map_of (filter P ps) k = (case map_of ps k of None \<Rightarrow> None | Some v \<Rightarrow> if P (k, v) then Some v else None)"
proof (induction ps)
  case (Cons x ps)
  have "map_of (filter P ps) (fst x) = None"
    using Cons.prems by (force simp: map_of_eq_None_iff)
  with Cons show ?case by (cases x) (auto split: option.splits)
qed simp

lemma distinct_retain: "distinct (map fst ps) \<Longrightarrow> distinct (map fst (filter P ps))"
  by (rule distinct_map_filter)

text \<open>Every entry satisfies \<open>P\<close>; the table changes one key at a time.\<close>

definition table_all :: "('k \<Rightarrow> 'v \<Rightarrow> bool) \<Rightarrow> ('k \<times> 'v) list \<Rightarrow> bool" where
  "table_all P ps \<longleftrightarrow> (\<forall>x \<in> set ps. P (fst x) (snd x))"

lemma table_all_lookup: "table_all P ps \<Longrightarrow> map_of ps k = Some v \<Longrightarrow> P k v"
  using map_of_SomeD [of ps k v] by (fastforce simp: table_all_def)

lemma table_all_iff: "distinct (map fst ps) \<Longrightarrow> table_all P ps \<longleftrightarrow> (\<forall>k v. map_of ps k = Some v \<longrightarrow> P k v)"
  by (force simp: table_all_def map_of_eq_Some_iff)

lemma table_all_update: "table_all P ps \<Longrightarrow> P k v \<Longrightarrow> table_all P (AList.update k v ps)"
  using set_update_subset [of k v ps] by (fastforce simp: table_all_def)

lemma table_all_filter: "table_all P ps \<Longrightarrow> table_all P (filter Q ps)"
  by (simp add: table_all_def)

lemma table_all_delete: "table_all P ps \<Longrightarrow> table_all P (AList.delete k ps)"
  by (simp add: table_all_def set_delete)

lemma table_all_mono: "table_all P ps \<Longrightarrow> (\<And>k v. (k, v) \<in> set ps \<Longrightarrow> P k v \<Longrightarrow> Q k v) \<Longrightarrow> table_all Q ps"
  by (fastforce simp: table_all_def)

text \<open>Replacing the entry of one key, when only that key's condition changes.\<close>

lemma table_all_replace:
  assumes "distinct (map fst ps)" "table_all P ps" "Q k v" "\<And>k' v'. k' \<noteq> k \<Longrightarrow> P k' v' \<Longrightarrow> Q k' v'"
  shows "table_all Q (AList.update k v ps)"
proof -
  have "distinct (map fst (AList.update k v ps))" using assms(1) by (rule distinct_update)
  then show ?thesis
    using assms by (auto simp: table_all_iff update_conv' split: if_splits)
qed

lemma table_all_without:
  assumes "table_all P ps" "\<And>k' v'. k' \<noteq> k \<Longrightarrow> P k' v' \<Longrightarrow> Q k' v'"
  shows "table_all Q (AList.delete k ps)"
  using assms by (auto simp: table_all_def set_delete)

text \<open>A column of the table, in iteration order.\<close>

definition column :: "('v \<Rightarrow> 'a) \<Rightarrow> ('k \<times> 'v) list \<Rightarrow> 'a list" where
  "column f ps = map (f \<circ> snd) ps"

lemma column_simps [simp]: "column f [] = []" "column f (x # ps) = f (snd x) # column f ps"
  by (simp_all add: column_def)

lemma column_lookup: "map_of ps k = Some v \<Longrightarrow> f v \<in> set (column f ps)"
  by (induction ps) (auto split: if_splits)

lemma column_insert: "map_of ps k = None \<Longrightarrow> column f (AList.update k v ps) = column f ps @ [f v]"
  by (induction ps) (auto split: if_splits)

lemma column_update:
  "map_of ps k = Some v \<Longrightarrow> f v' = f v \<Longrightarrow> column f (AList.update k v' ps) = column f ps"
  by (induction ps) (auto split: if_splits)

lemma column_delete:
  "distinct (map fst ps) \<Longrightarrow> distinct (column f ps) \<Longrightarrow> map_of ps k = Some v \<Longrightarrow>
     column f (AList.delete k ps) = removeAll (f v) (column f ps)"
proof (induction ps)
  case (Cons x ps)
  show ?case
  proof (cases "fst x = k")
    case True
    then have "snd x = v" "AList.delete k (x # ps) = ps" using delete_head [OF Cons.prems(1)] Cons.prems(3) by (cases x, simp)+
    then show ?thesis using Cons.prems(2) by (simp add: removeAll_id)
  next
    case False
    then have "map_of ps k = Some v" using Cons.prems(3) by (cases x) simp
    moreover from column_lookup [OF this, of f] have "f (snd x) \<noteq> f v" using Cons.prems(2) by auto
    ultimately show ?thesis using Cons False by (cases x) simp
  qed
qed simp

lemma column_retain:
  "distinct (column f ps) \<Longrightarrow> distinct (column f (filter P ps)) \<and> distinct (column f (filter (\<lambda>x. \<not> P x) ps)) \<and>
     set (column f (filter P ps)) = set (column f ps) - set (column f (filter (\<lambda>x. \<not> P x) ps))"
  by (induction ps) (auto simp: column_def)

end
