(* ===== verification/Hysteria_Reassembly.thy ===== *)
theory Hysteria_Reassembly
  imports Hysteria_Wire Hash_Table
begin

text \<open>
  Reassembly of Hysteria 2 UDP packets (\<open>Reassembly\<close> of \<open>crates/hysteria2/src/wire.rs\<close>): at most 64
  incomplete packets and 256 KiB per connection, oldest evicted first, ten seconds of retention. The
  hash map is an association list; its order is not used. The two loops may only fail to return if the
  order and the map disagree, which the invariant excludes.
\<close>

definition MAX_PENDING :: nat where "MAX_PENDING = 64"
definition MAX_BUFFERED :: nat where "MAX_BUFFERED = 256 * 1024"

section \<open>Reassembly\<close>

record pending =
  pd_target :: target
  pd_fragments :: "bytes option list"
  pd_bytes :: nat
  pd_received :: nat
  pd_created :: instant

type_synonym packet_key = "nat \<times> nat"

record reassembly =
  re_pending :: "(packet_key \<times> pending) list"
  re_order :: "packet_key list"
  re_bytes :: nat

definition reassembly_new :: reassembly where
  "reassembly_new = \<lparr>re_pending = [], re_order = [], re_bytes = 0\<rparr>"

text \<open>\<open>remove\<close>; the outer \<open>None\<close> is the failing \<open>debug_assert!\<close>.\<close>

definition re_remove :: "reassembly \<Rightarrow> packet_key \<Rightarrow> (reassembly \<times> pending option) option" where
  "re_remove r key =
     (case map_of (re_pending r) key of
        None \<Rightarrow> Some (r, None)
      | Some p \<Rightarrow>
          if re_bytes r < pd_bytes p then None
          else Some (\<lparr>re_pending = AList.delete key (re_pending r),
                      re_order = filter (\<lambda>k. k \<noteq> key) (re_order r),
                      re_bytes = re_bytes r - pd_bytes p\<rparr>, Some p))"

text \<open>Dropping expired packets from the front of the order; ten seconds are \<open>10 ^ 10\<close> nanoseconds.\<close>

partial_function (option) re_expire :: "instant \<Rightarrow> reassembly \<Rightarrow> reassembly option" where
  [code]: "re_expire now r =
     (case re_order r of
        [] \<Rightarrow> Some r
      | key # _ \<Rightarrow>
          if (case map_of (re_pending r) key of None \<Rightarrow> False | Some p \<Rightarrow> now - pd_created p < 10 * 1000000000)
          then Some r
          else Option.bind (re_remove r key) (\<lambda>(r, _). re_expire now r))"

text \<open>Making room for a payload of \<open>n\<close> bytes under \<open>key\<close>.\<close>

partial_function (option) re_evict :: "packet_key \<Rightarrow> nat \<Rightarrow> reassembly \<Rightarrow> reassembly option" where
  [code]: "re_evict key n r =
     (if MAX_BUFFERED < re_bytes r + n \<or>
         (map_of (re_pending r) key = None \<and> MAX_PENDING \<le> length (re_pending r))
      then
        (case re_order r of
           [] \<Rightarrow> Some r
         | oldest # _ \<Rightarrow> Option.bind (re_remove r oldest) (\<lambda>(r, _). re_evict key n r))
      else Some r)"

definition re_entry :: "reassembly \<Rightarrow> fragment \<Rightarrow> packet_key \<Rightarrow> instant \<Rightarrow> reassembly \<times> pending" where
  "re_entry r part key now =
     (case map_of (re_pending r) key of
        Some p \<Rightarrow> (r, p)
      | None \<Rightarrow>
          let p = \<lparr>pd_target = f_target part, pd_fragments = replicate (f_count part) None, pd_bytes = 0,
                   pd_received = 0, pd_created = now\<rparr>
          in (r\<lparr>re_pending := AList.update key p (re_pending r), re_order := re_order r @ [key]\<rparr>, p))"

definition re_store :: "reassembly \<Rightarrow> fragment \<Rightarrow> packet_key \<Rightarrow> pending \<Rightarrow> reassembly \<times> pending" where
  "re_store r part key p =
     (let n = length (f_payload part);
          p = p\<lparr>pd_bytes := pd_bytes p + n, pd_received := pd_received p + 1,
                pd_fragments := (pd_fragments p)[f_index part := Some (f_payload part)]\<rparr>
      in (r\<lparr>re_bytes := re_bytes r + n, re_pending := AList.update key p (re_pending r)\<rparr>, p))"

type_synonym received = "wire_error + (nat \<times> target \<times> bytes) option"

definition re_finish :: "reassembly \<Rightarrow> packet_key \<Rightarrow> pending \<Rightarrow> (reassembly \<times> received) option" where
  "re_finish r key p =
     (if MAX_DATAGRAM < pd_bytes p then
        Option.bind (re_remove r key) (\<lambda>(r, _). Some (r, Inl Oversized_Reassembly))
      else if pd_received p \<noteq> length (pd_fragments p) then Some (r, Inr None)
      else
        (case re_remove r key of
           Some (r, Some complete) \<Rightarrow>
             if list_all (\<lambda>f. f \<noteq> None) (pd_fragments complete)
             then Some (r, Inr (Some (fst key, pd_target complete, concat (map the (pd_fragments complete)))))
             else None
         | _ \<Rightarrow> None))"

definition re_receive :: "reassembly \<Rightarrow> fragment \<Rightarrow> instant \<Rightarrow> (reassembly \<times> received) option" where
  "re_receive r part now =
     Option.bind (re_expire now r) (\<lambda>r.
       if f_count part = 1 then Some (r, Inr (Some (f_session part, f_target part, f_payload part)))
       else
         let key = (f_session part, f_packet part) in
         if (case map_of (re_pending r) key of
               None \<Rightarrow> False
             | Some previous \<Rightarrow> pd_target previous \<noteq> f_target part \<or> length (pd_fragments previous) \<noteq> f_count part)
         then Option.bind (re_remove r key) (\<lambda>(r, _). Some (r, Inl Inconsistent_Fragments))
         else
           Option.bind (re_evict key (length (f_payload part)) r) (\<lambda>r.
             let (r, p) = re_entry r part key now in
             if length (pd_fragments p) \<le> f_index part then None
             else if pd_fragments p ! f_index part \<noteq> None then Some (r, Inr None)
             else let (r, p) = re_store r part key p in re_finish r key p))"


section \<open>Invariant\<close>

definition stored :: "bytes option list \<Rightarrow> nat" where
  "stored fs = sum_list (map (\<lambda>f. case f of None \<Rightarrow> 0 | Some b \<Rightarrow> length b) fs)"

definition filled :: "bytes option list \<Rightarrow> nat" where
  "filled fs = sum_list (map (\<lambda>f. if f = None then 0 else 1) fs)"

text \<open>An incomplete packet: its counters are those of its slots, and at least one slot is empty.\<close>

definition pending_ok :: "pending \<Rightarrow> bool" where
  "pending_ok p \<longleftrightarrow> pd_bytes p = stored (pd_fragments p) \<and> pd_received p = filled (pd_fragments p) \<and>
     pd_bytes p \<le> MAX_DATAGRAM \<and> pd_received p < length (pd_fragments p)"

abbreviation re_total :: "(packet_key \<times> pending) list \<Rightarrow> nat" where
  "re_total ps \<equiv> table_sum pd_bytes ps"

text \<open>The map and the order hold the same packets, and the byte counter is their sum.\<close>

definition re_shape :: "reassembly \<Rightarrow> bool" where
  "re_shape r \<longleftrightarrow> distinct (map fst (re_pending r)) \<and> distinct (re_order r) \<and>
     set (re_order r) = fst ` set (re_pending r) \<and> re_bytes r = re_total (re_pending r)"

definition re_ok :: "reassembly \<Rightarrow> bool" where
  "re_ok r \<longleftrightarrow> re_shape r \<and> (\<forall>x \<in> set (re_pending r). pending_ok (snd x)) \<and> re_bytes r \<le> MAX_BUFFERED \<and> length (re_pending r) \<le> MAX_PENDING"

lemmas re_total_delete = table_sum_delete [where f = "pd_bytes :: pending \<Rightarrow> nat"]
lemmas re_total_update = table_sum_update [where f = "pd_bytes :: pending \<Rightarrow> nat"]
lemmas re_total_insert = table_sum_insert [where f = "pd_bytes :: pending \<Rightarrow> nat"]

section \<open>Slots\<close>

lemma stored_fill:
  "i < length fs \<Longrightarrow> fs ! i = None \<Longrightarrow> stored (fs[i := Some b]) = stored fs + length b"
  using sum_list_update_nat [of i fs "\<lambda>f. case f of None \<Rightarrow> 0 | Some b \<Rightarrow> length b" "Some b"]
  by (simp add: stored_def)

lemma filled_fill: "i < length fs \<Longrightarrow> fs ! i = None \<Longrightarrow> filled (fs[i := Some b]) = filled fs + 1"
  using sum_list_update_nat [of i fs "\<lambda>f. if f = None then 0 else 1" "Some b"] by (simp add: filled_def)

lemma filled_le: "filled fs \<le> length fs"
  by (induction fs) (auto simp: filled_def)

lemma filled_all: "filled fs = length fs \<Longrightarrow> list_all (\<lambda>f. f \<noteq> None) fs"
proof (induction fs)
  case (Cons f fs)
  then show ?case using filled_le [of fs] by (auto simp: filled_def split: if_splits)
qed simp

lemma empty_slots [simp]: "stored (replicate n None) = 0" "filled (replicate n None) = 0"
  by (induction n) (simp_all add: stored_def filled_def)

section \<open>The operations keep the invariant\<close>

lemma re_remove_shape:
  assumes "re_shape r"
  shows "\<exists>r' x. re_remove r key = Some (r', x) \<and> x = map_of (re_pending r) key \<and> re_shape r' \<and>
    re_bytes r' \<le> re_bytes r \<and> length (re_pending r') \<le> length (re_pending r) \<and>
    map_of (re_pending r') = (map_of (re_pending r))(key := None) \<and>
    set (re_pending r') = {x \<in> set (re_pending r). fst x \<noteq> key} \<and>
    re_order r' = filter (\<lambda>k. k \<noteq> key) (re_order r)"
proof (cases "map_of (re_pending r) key")
  case None
  have "key \<notin> set (re_order r)" using assms None by (auto simp: re_shape_def map_of_eq_None_iff)
  then have "filter (\<lambda>k. k \<noteq> key) (re_order r) = re_order r" by (auto simp: filter_id_conv)
  moreover have "(map_of (re_pending r))(key := None) = map_of (re_pending r)" using None by (simp add: fun_upd_idem)
  moreover have "fst x \<noteq> key" if "x \<in> set (re_pending r)" for x
    using None that by (force simp: map_of_eq_None_iff)
  ultimately show ?thesis using None assms by (auto simp: re_remove_def)
next
  case (Some p)
  have dist: "distinct (map fst (re_pending r))" using assms by (simp add: re_shape_def)
  note total = re_total_delete [OF dist Some]
  have le: "pd_bytes p \<le> re_bytes r" using assms total by (simp add: re_shape_def)
  let ?r = "\<lparr>re_pending = AList.delete key (re_pending r), re_order = filter (\<lambda>k. k \<noteq> key) (re_order r),
      re_bytes = re_bytes r - pd_bytes p\<rparr>"
  have "re_shape ?r"
    using assms total distinct_delete [OF dist, of key] unfolding re_shape_def
    by (auto simp: AList.delete_eq)
  moreover have "map_of (re_pending ?r) = (map_of (re_pending r))(key := None)"
    by (auto simp: delete_conv')
  ultimately show ?thesis
    using Some le length_delete [OF dist Some] by (auto simp: re_remove_def set_delete)
qed

lemma re_expire_shape:
  assumes "re_shape r"
  shows "\<exists>r'. re_expire now r = Some r' \<and> re_shape r' \<and> re_bytes r' \<le> re_bytes r \<and>
    length (re_pending r') \<le> length (re_pending r) \<and> set (re_pending r') \<subseteq> set (re_pending r)"
  using assms
proof (induction "length (re_order r)" arbitrary: r rule: less_induct)
  case less
  show ?case
  proof (cases "re_order r")
    case Nil
    then show ?thesis using less.prems by (subst re_expire.simps) simp
  next
    case (Cons key ks)
    obtain r1 x where r1: "re_remove r key = Some (r1, x)" "re_shape r1" "re_bytes r1 \<le> re_bytes r"
      "length (re_pending r1) \<le> length (re_pending r)" "re_order r1 = filter (\<lambda>k. k \<noteq> key) (re_order r)"
      "set (re_pending r1) \<subseteq> set (re_pending r)"
      using re_remove_shape [OF less.prems, of key] by blast
    have shorter: "length (re_order r1) < length (re_order r)"
      unfolding r1(5) Cons by (simp add: le_imp_less_Suc)
    from less.hyps [OF shorter r1(2)] r1 Cons less.prems show ?thesis
      by (subst re_expire.simps) (auto simp: Cons)
  qed
qed

lemma re_evict_shape:
  assumes "re_shape r" "n \<le> MAX_BUFFERED"
  shows "\<exists>r'. re_evict key n r = Some r' \<and> re_shape r' \<and> re_bytes r' + n \<le> MAX_BUFFERED \<and>
    re_bytes r' \<le> re_bytes r \<and> length (re_pending r') \<le> length (re_pending r) \<and>
    set (re_pending r') \<subseteq> set (re_pending r) \<and>
    (map_of (re_pending r') key = None \<longrightarrow> length (re_pending r') < MAX_PENDING) \<and>
    (map_of (re_pending r') key = map_of (re_pending r) key \<or> map_of (re_pending r') key = None)"
  using assms(1)
proof (induction "length (re_order r)" arbitrary: r rule: less_induct)
  case less
  show ?case
  proof (cases "MAX_BUFFERED < re_bytes r + n \<or> (map_of (re_pending r) key = None \<and> MAX_PENDING \<le> length (re_pending r))")
    case False
    then show ?thesis using less.prems by (subst re_evict.simps) auto
  next
    case True
    show ?thesis
    proof (cases "re_order r")
      case Nil
      then have "re_pending r = []" using less.prems by (auto simp: re_shape_def)
      with Nil less.prems assms(2) True show ?thesis
        by (simp add: re_shape_def MAX_PENDING_def)
    next
      case (Cons old ks)
      obtain r1 x where r1: "re_remove r old = Some (r1, x)" "re_shape r1" "re_bytes r1 \<le> re_bytes r"
        "length (re_pending r1) \<le> length (re_pending r)" "re_order r1 = filter (\<lambda>k. k \<noteq> old) (re_order r)"
        "map_of (re_pending r1) = (map_of (re_pending r))(old := None)"
        "set (re_pending r1) \<subseteq> set (re_pending r)"
        using re_remove_shape [OF less.prems, of old] by blast
      have shorter: "length (re_order r1) < length (re_order r)"
        unfolding r1(5) Cons by (simp add: le_imp_less_Suc)
      have step: "re_evict key n r = re_evict key n r1"
        using True r1(1) by (subst re_evict.simps) (simp add: Cons)
      obtain r2 where r2: "re_evict key n r1 = Some r2" "re_shape r2" "re_bytes r2 + n \<le> MAX_BUFFERED"
        "re_bytes r2 \<le> re_bytes r1" "length (re_pending r2) \<le> length (re_pending r1)"
        "set (re_pending r2) \<subseteq> set (re_pending r1)"
        "map_of (re_pending r2) key = None \<longrightarrow> length (re_pending r2) < MAX_PENDING"
        "map_of (re_pending r2) key = map_of (re_pending r1) key \<or> map_of (re_pending r2) key = None"
        using less.hyps [OF shorter r1(2)] by (elim exE conjE)
      have "map_of (re_pending r2) key = map_of (re_pending r) key \<or> map_of (re_pending r2) key = None"
        using r2(8) r1(6) by (auto split: if_splits)
      moreover have "set (re_pending r2) \<subseteq> set (re_pending r)" using r2(6) r1(7) by (rule subset_trans)
      ultimately show ?thesis
        using r2 r1(3,4) by (intro exI [of _ r2]) (simp add: step)
    qed
  qed
qed

text \<open>What \<open>Fragment::decode\<close> guarantees of a fragment.\<close>

definition fragment_ok :: "fragment \<Rightarrow> bool" where
  "fragment_ok f \<longleftrightarrow> 0 < f_count f \<and> (f_count f = 1 \<or> f_index f < f_count f) \<and> length (f_payload f) \<le> MAX_DATAGRAM"

lemma decode_fragment_ok: "decode_fragment W b = Inr f \<Longrightarrow> fragment_ok f"
  by (auto simp: decode_fragment_def fragment_ok_def Let_def result_Inr)

lemma re_entry_ok:
  assumes "re_ok r" "map_of (re_pending r) key = None \<longrightarrow> length (re_pending r) < MAX_PENDING"
    and "0 < f_count part" "re_entry r part key now = (r', p)"
    and "\<And>q. map_of (re_pending r) key = Some q \<Longrightarrow> length (pd_fragments q) = f_count part"
  shows "re_ok r' \<and> map_of (re_pending r') key = Some p \<and> length (pd_fragments p) = f_count part \<and>
    re_bytes r' = re_bytes r \<and> pending_ok p"
proof (cases "map_of (re_pending r) key")
  case None
  define q where "q = \<lparr>pd_target = f_target part, pd_fragments = replicate (f_count part) None, pd_bytes = 0,
      pd_received = 0, pd_created = now\<rparr>"
  have r': "r' = r\<lparr>re_pending := AList.update key q (re_pending r), re_order := re_order r @ [key]\<rparr>" "p = q"
    using assms(4) None by (auto simp: re_entry_def q_def Let_def)
  have q: "pending_ok q" using assms(3) by (simp add: pending_ok_def q_def)
  have notin: "key \<notin> set (re_order r)" using assms(1) None by (auto simp: re_ok_def re_shape_def map_of_eq_None_iff)
  have "re_shape r'"
    using assms(1) notin re_total_insert [OF None, of q] unfolding re_ok_def re_shape_def r'
    by (simp add: distinct_update dom_update q_def)
  moreover have "\<forall>x \<in> set (re_pending r'). pending_ok (snd x)"
    using assms(1) q set_update_subset [of key q "re_pending r"] by (auto simp: re_ok_def r')
  ultimately show ?thesis
    using assms(1,2) None q by (simp add: re_ok_def r' length_update q_def update_conv')
next
  case (Some q)
  then have "r' = r" "p = q" using assms(4) by (auto simp: re_entry_def)
  moreover have "pending_ok q" using assms(1) map_of_SomeD [OF Some] by (auto simp: re_ok_def)
  ultimately show ?thesis using assms(1,5) Some by simp
qed

lemma re_store_shape:
  assumes "re_shape r" "map_of (re_pending r) key = Some p" "re_store r part key p = (r', q)"
  shows "re_shape r' \<and> map_of (re_pending r') key = Some q \<and> re_bytes r' = re_bytes r + length (f_payload part) \<and>
    length (re_pending r') = length (re_pending r) \<and> set (re_pending r') \<subseteq> insert (key, q) (set (re_pending r)) \<and>
    q = p\<lparr>pd_bytes := pd_bytes p + length (f_payload part), pd_received := pd_received p + 1,
          pd_fragments := (pd_fragments p)[f_index part := Some (f_payload part)]\<rparr>"
proof -
  have q: "q = p\<lparr>pd_bytes := pd_bytes p + length (f_payload part), pd_received := pd_received p + 1,
          pd_fragments := (pd_fragments p)[f_index part := Some (f_payload part)]\<rparr>"
    and r': "r' = r\<lparr>re_bytes := re_bytes r + length (f_payload part), re_pending := AList.update key q (re_pending r)\<rparr>"
    using assms(3) by (auto simp: re_store_def Let_def)
  have dist: "distinct (map fst (re_pending r))" using assms(1) by (simp add: re_shape_def)
  have key: "key \<in> fst ` set (re_pending r)" using map_of_SomeD [OF assms(2)] by force
  have "re_total (AList.update key q (re_pending r)) = re_total (re_pending r) + length (f_payload part)"
    using re_total_update [OF dist assms(2), of q] by (simp add: q)
  then have "re_shape r'"
    using assms(1) key unfolding re_shape_def r'
    by (simp add: distinct_update dom_update insert_absorb)
  then show ?thesis
    using q set_update_subset [of key q "re_pending r"] assms(2)
    by (simp add: r' update_conv' length_update)
qed

lemma re_finish_ok:
  assumes "re_shape r" "map_of (re_pending r) key = Some p"
    and "pd_bytes p = stored (pd_fragments p)" "pd_received p = filled (pd_fragments p)"
    and "\<forall>x \<in> set (re_pending r). fst x \<noteq> key \<longrightarrow> pending_ok (snd x)"
    and "re_bytes r \<le> MAX_BUFFERED" "length (re_pending r) \<le> MAX_PENDING"
  shows "\<exists>r' res. re_finish r key p = Some (r', res) \<and> re_ok r' \<and>
    (pd_bytes p \<le> MAX_DATAGRAM \<longrightarrow> res = (if pd_received p = length (pd_fragments p)
      then Inr (Some (fst key, pd_target p, concat (map the (pd_fragments p)))) else Inr None))"
proof -
  obtain r1 where r1: "re_remove r key = Some (r1, Some p)" "re_shape r1" "re_bytes r1 \<le> re_bytes r"
    "length (re_pending r1) \<le> length (re_pending r)" "set (re_pending r1) = {x \<in> set (re_pending r). fst x \<noteq> key}"
    using re_remove_shape [OF assms(1), of key] assms(2) by auto
  have ok1: "re_ok r1" using r1 assms(5-7) by (auto simp: re_ok_def)
  have only: "x = (key, p)" if "x \<in> set (re_pending r)" "fst x = key" for x
  proof -
    have "map_of (re_pending r) (fst x) = Some (snd x)"
      using that(1) assms(1) by (simp add: re_shape_def map_of_is_SomeI)
    then show ?thesis using assms(2) that(2) by (cases x) simp
  qed
  show ?thesis
  proof (cases "MAX_DATAGRAM < pd_bytes p")
    case True
    then show ?thesis using r1(1) ok1 by (simp add: re_finish_def)
  next
    case small: False
    show ?thesis
    proof (cases "pd_received p = length (pd_fragments p)")
      case True
      then have "list_all (\<lambda>f. f \<noteq> None) (pd_fragments p)" using filled_all assms(4) by simp
      with True small r1(1) ok1 show ?thesis by (simp add: re_finish_def)
    next
      case False
      then have "pending_ok p"
        using small assms(3,4) filled_le [of "pd_fragments p"] by (simp add: pending_ok_def)
      then have "\<forall>x \<in> set (re_pending r). pending_ok (snd x)" using assms(5) only by (metis snd_conv)
      then have "re_ok r" using assms by (simp add: re_ok_def)
      with False small show ?thesis by (simp add: re_finish_def)
    qed
  qed
qed

lemma re_store_finish:
  assumes "re_ok r" "map_of (re_pending r) key = Some p" "f_index part < length (pd_fragments p)"
    and "pd_fragments p ! f_index part = None" "re_bytes r + length (f_payload part) \<le> MAX_BUFFERED"
    and "re_store r part key p = (r', q)"
  shows "\<exists>r'' res. re_finish r' key q = Some (r'', res) \<and> re_ok r''"
proof -
  let ?n = "length (f_payload part)"
  have "re_shape r" and p: "pending_ok p" using assms(1) map_of_SomeD [OF assms(2)] by (auto simp: re_ok_def)
  from re_store_shape [OF this(1) assms(2,6)] have r': "re_shape r'" "map_of (re_pending r') key = Some q"
    "re_bytes r' = re_bytes r + ?n" "length (re_pending r') = length (re_pending r)"
    "set (re_pending r') \<subseteq> insert (key, q) (set (re_pending r))"
    "q = p\<lparr>pd_bytes := pd_bytes p + ?n, pd_received := pd_received p + 1,
       pd_fragments := (pd_fragments p)[f_index part := Some (f_payload part)]\<rparr>" by blast+
  have "pd_bytes q = stored (pd_fragments q)" "pd_received q = filled (pd_fragments q)"
    using p stored_fill [OF assms(3,4)] filled_fill [OF assms(3,4)] by (simp_all add: r'(6) pending_ok_def)
  moreover have "\<forall>x \<in> set (re_pending r'). fst x \<noteq> key \<longrightarrow> pending_ok (snd x)"
    using r'(5) assms(1) by (auto simp: re_ok_def)
  moreover have "re_bytes r' \<le> MAX_BUFFERED" "length (re_pending r') \<le> MAX_PENDING"
    using r'(3,4) assms(1,5) by (simp_all add: re_ok_def)
  ultimately show ?thesis using re_finish_ok [OF r'(1,2)] by blast
qed

text \<open>A fragment that agrees with what is known of its packet, after expiry.\<close>

lemma re_receive_fits:
  assumes "re_expire now r = Some r1" "re_ok r1" "fragment_ok part" "f_count part \<noteq> 1"
    and "\<And>q. map_of (re_pending r1) (f_session part, f_packet part) = Some q \<Longrightarrow>
      pd_target q = f_target part \<and> length (pd_fragments q) = f_count part"
  shows "\<exists>r' res. re_receive r part now = Some (r', res) \<and> re_ok r'"
proof -
  let ?key = "(f_session part, f_packet part)"
  let ?n = "length (f_payload part)"
  have good: "(case map_of (re_pending r1) ?key of None \<Rightarrow> False
      | Some q \<Rightarrow> pd_target q \<noteq> f_target part \<or> length (pd_fragments q) \<noteq> f_count part) = False"
    using assms(5) by (auto split: option.splits)
  have "re_shape r1" "?n \<le> MAX_BUFFERED"
    using assms(2,3) by (simp_all add: re_ok_def fragment_ok_def MAX_DATAGRAM_def MAX_BUFFERED_def)
  from re_evict_shape [OF this, of ?key] obtain r3 where
    r3: "re_evict ?key ?n r1 = Some r3" "re_shape r3" "re_bytes r3 + ?n \<le> MAX_BUFFERED"
    "length (re_pending r3) \<le> length (re_pending r1)" "set (re_pending r3) \<subseteq> set (re_pending r1)"
    "map_of (re_pending r3) ?key = None \<longrightarrow> length (re_pending r3) < MAX_PENDING"
    "map_of (re_pending r3) ?key = map_of (re_pending r1) ?key \<or> map_of (re_pending r3) ?key = None"
    by (elim exE conjE)
  have ok3: "re_ok r3" using r3 assms(2) by (auto simp: re_ok_def)
  obtain r4 p where e: "re_entry r3 part ?key now = (r4, p)" by (cases "re_entry r3 part ?key now")
  have r4: "re_ok r4" "map_of (re_pending r4) ?key = Some p" "length (pd_fragments p) = f_count part" "re_bytes r4 = re_bytes r3"
    using re_entry_ok [OF ok3 r3(6) _ e] assms(3-5) r3(7) by (auto simp: fragment_ok_def)
  have idx: "f_index part < length (pd_fragments p)" using assms(3,4) r4(3) by (simp add: fragment_ok_def)
  show ?thesis
  proof (cases "pd_fragments p ! f_index part")
    case (Some y)
    then show ?thesis using assms(1,4) r3(1) e r4(1) idx by (simp add: re_receive_def Let_def good)
  next
    case None
    obtain r5 q where st: "re_store r4 part ?key p = (r5, q)" by (cases "re_store r4 part ?key p")
    have "\<exists>r' res. re_finish r5 ?key q = Some (r', res) \<and> re_ok r'"
      using r3(3) r4(4) by (intro re_store_finish [OF r4(1,2) idx None _ st]) simp
    then show ?thesis using assms(1,4) r3(1) e idx None st by (simp add: re_receive_def Let_def good)
  qed
qed

lemma re_receive_ok:
  assumes "re_ok r" "fragment_ok part"
  shows "\<exists>r' res. re_receive r part now = Some (r', res) \<and> re_ok r'"
proof -
  obtain r1 where r1: "re_expire now r = Some r1" "re_shape r1" "re_bytes r1 \<le> re_bytes r"
    "length (re_pending r1) \<le> length (re_pending r)" "set (re_pending r1) \<subseteq> set (re_pending r)"
    using re_expire_shape [of r now] assms(1) unfolding re_ok_def by blast
  have ok1: "re_ok r1" using r1 assms(1) by (auto simp: re_ok_def)
  let ?key = "(f_session part, f_packet part)"
  consider "f_count part = 1"
    | q where "f_count part \<noteq> 1" "map_of (re_pending r1) ?key = Some q" "pd_target q \<noteq> f_target part \<or> length (pd_fragments q) \<noteq> f_count part"
    | "f_count part \<noteq> 1" "\<And>q. map_of (re_pending r1) ?key = Some q \<Longrightarrow> pd_target q = f_target part \<and> length (pd_fragments q) = f_count part"
    by blast
  then show ?thesis
  proof cases
    case 1
    then show ?thesis using r1(1) ok1 by (simp add: re_receive_def)
  next
    case 2
    obtain r2 x where r2: "re_remove r1 ?key = Some (r2, x)" "re_shape r2" "re_bytes r2 \<le> re_bytes r1"
      "length (re_pending r2) \<le> length (re_pending r1)" "set (re_pending r2) \<subseteq> set (re_pending r1)"
      using re_remove_shape [OF r1(2), of ?key] by blast
    have "re_ok r2" using r2 ok1 by (auto simp: re_ok_def)
    with 2 r1(1) r2(1) show ?thesis by (simp add: re_receive_def Let_def)
  next
    case 3
    then show ?thesis by (intro re_receive_fits [OF r1(1) ok1 assms(2)]) blast+
  qed
qed

text \<open>
  C15. Reassembly is bounded whatever arrives: for every decoded fragment \<open>receive\<close> returns (its loops
  end and none of its assertions fails), and afterwards there are at most 64 incomplete packets and
  256 KiB buffered, the eviction order lists exactly the incomplete packets, and the byte counter is
  the sum of what their slots hold.
\<close>

theorem reassembly_bounded:
  assumes "re_ok r" "decode_fragment W b = Inr part"
  shows "\<exists>r' res. re_receive r part now = Some (r', res) \<and> re_ok r' \<and>
    length (re_pending r') \<le> MAX_PENDING \<and> re_bytes r' \<le> MAX_BUFFERED"
  using re_receive_ok [OF assms(1) decode_fragment_ok [OF assms(2)], of now] by (auto simp: re_ok_def)

lemma re_ok_new: "re_ok reassembly_new"
  by (simp add: re_ok_def re_shape_def reassembly_new_def)

theorem reassembly_bounded_witness:
  "\<exists>part r' res. decode_fragment sample_codec (be32 9 @ be16 4 @ [1, 3, 6, 52, 55, 58, 52, 52, 51, 8, 9]) = Inr part \<and>
    f_count part = 3 \<and> re_receive reassembly_new part 0 = Some (r', res) \<and> re_ok r' \<and>
    length (re_pending r') \<le> MAX_PENDING \<and> re_bytes r' \<le> MAX_BUFFERED"
proof -
  have addr: "address sample_codec (Ip (V4 7) 443) = Inr [52, 55, 58, 52, 52, 51]"
    by (simp add: address_def sample_codec_def sample_show_def MAX_ADDRESS_def show_decimal.simps)
  have plain: "plain_target sample_codec (Ip (V4 7) 443)" by (simp add: plain_target_def)
  have "decode_fragment sample_codec ((be32 9 @ be16 4) @ [of_nat 1, of_nat 3] @ [6, 52, 55, 58, 52, 52, 51] @ [8, 9]) =
      Inr \<lparr>f_session = 9, f_packet = 4, f_index = 1, f_count = 3, f_target = Ip (V4 7) 443, f_payload = [8, 9]\<rparr>"
    by (rule decode_header [OF sample_varint_ok sample_addr_text_ok plain addr])
      (simp_all add: sample_codec_def quic_decode_def be_value_def MAX_DATAGRAM_def Let_def)
  then have d: "decode_fragment sample_codec (be32 9 @ be16 4 @ [1, 3, 6, 52, 55, 58, 52, 52, 51, 8, 9]) =
      Inr \<lparr>f_session = 9, f_packet = 4, f_index = 1, f_count = 3, f_target = Ip (V4 7) 443, f_payload = [8, 9]\<rparr>"
    by simp
  from reassembly_bounded [OF re_ok_new d, of 0] d show ?thesis by fastforce
qed

section \<open>Reassembly completes\<close>

text \<open>The state after the fragments with indices in \<open>seen\<close> of one packet have arrived.\<close>

definition slots :: "bytes list \<Rightarrow> nat set \<Rightarrow> bytes option list" where
  "slots parts seen = map (\<lambda>i. if i \<in> seen then Some (parts ! i) else None) [0..<length parts]"

definition gathering :: "nat \<Rightarrow> nat \<Rightarrow> target \<Rightarrow> bytes list \<Rightarrow> nat set \<Rightarrow> instant \<Rightarrow> reassembly" where
  "gathering session packet t parts seen created =
     (let p = \<lparr>pd_target = t, pd_fragments = slots parts seen, pd_bytes = stored (slots parts seen),
               pd_received = filled (slots parts seen), pd_created = created\<rparr>
      in \<lparr>re_pending = [((session, packet), p)], re_order = [(session, packet)],
          re_bytes = stored (slots parts seen)\<rparr>)"

definition part_of :: "nat \<Rightarrow> nat \<Rightarrow> target \<Rightarrow> bytes list \<Rightarrow> nat \<Rightarrow> fragment" where
  "part_of session packet t parts i =
     \<lparr>f_session = session, f_packet = packet, f_index = i, f_count = length parts, f_target = t, f_payload = parts ! i\<rparr>"

lemma slots_fill: "i < length parts \<Longrightarrow> (slots parts seen)[i := Some (parts ! i)] = slots parts (insert i seen)"
  by (rule nth_equalityI) (auto simp: slots_def nth_list_update)

lemma length_slots [simp]: "length (slots parts seen) = length parts"
  by (simp add: slots_def)

lemma slots_nth: "i < length parts \<Longrightarrow> slots parts seen ! i = (if i \<in> seen then Some (parts ! i) else None)"
  by (simp add: slots_def)

lemma slots_full: "{..<length parts} \<subseteq> seen \<Longrightarrow> slots parts seen = map Some parts"
  by (rule nth_equalityI) (auto simp: slots_def)

lemma stored_slots_le: "stored (slots parts seen) \<le> length (concat parts)"
proof -
  have le: "stored (map (\<lambda>i. if i \<in> seen then Some (parts ! i) else None) ns) \<le>
    sum_list (map (\<lambda>i. length (parts ! i)) ns)" for ns
  proof (induction ns)
    case (Cons n ns)
    then show ?case by (cases "n \<in> seen") (simp_all add: stored_def)
  qed (simp add: stored_def)
  have "map (\<lambda>i. length (parts ! i)) [0..<length parts] = map length parts"
    by (rule nth_equalityI) simp_all
  with le [of "[0..<length parts]"] show ?thesis by (simp only: slots_def length_concat)
qed

lemma filled_slots_lt:
  assumes "i < length parts" "i \<notin> seen"
  shows "filled (slots parts seen) < length parts"
proof (rule ccontr)
  assume "\<not> filled (slots parts seen) < length parts"
  then have "filled (slots parts seen) = length (slots parts seen)"
    using filled_le [of "slots parts seen"] by simp
  then have "list_all (\<lambda>f. f \<noteq> None) (slots parts seen)" by (rule filled_all)
  then have "slots parts seen ! i \<noteq> None" using assms(1) by (simp add: list_all_length)
  with assms show False by (simp add: slots_nth)
qed

lemma stored_insert:
  assumes "i < length parts" "i \<notin> seen"
  shows "stored (slots parts (insert i seen)) = stored (slots parts seen) + length (parts ! i)"
    "filled (slots parts (insert i seen)) = filled (slots parts seen) + 1"
proof -
  have "slots parts seen ! i = None" "i < length (slots parts seen)" using assms by (simp_all add: slots_nth)
  then show "stored (slots parts (insert i seen)) = stored (slots parts seen) + length (parts ! i)"
    "filled (slots parts (insert i seen)) = filled (slots parts seen) + 1"
    using stored_fill [of i "slots parts seen" "parts ! i"] filled_fill [of i "slots parts seen" "parts ! i"]
      slots_fill [OF assms(1), of seen] by simp_all
qed

lemma filled_Some: "filled (map Some xs) = length xs"
  by (induction xs) (simp_all add: filled_def)

lemma re_finish_gathering:
  assumes "length (concat parts) \<le> MAX_DATAGRAM"
    and r: "re_pending r = [(key, p)]" "re_order r = [key]" "re_bytes r = pd_bytes p" "fst key = session"
    and p: "pd_target p = t" "pd_fragments p = slots parts seen"
      "pd_bytes p = stored (slots parts seen)" "pd_received p = filled (slots parts seen)"
  shows "re_finish r key p =
    (if {..<length parts} \<subseteq> seen then Some (reassembly_new, Inr (Some (session, t, concat parts)))
     else Some (r, Inr None))"
proof -
  have small: "\<not> MAX_DATAGRAM < pd_bytes p" using stored_slots_le [of parts seen] assms(1) p(3) by linarith
  have removed: "re_remove r key = Some (reassembly_new, Some p)"
    using r by (simp add: re_remove_def reassembly_new_def)
  show ?thesis
  proof (cases "{..<length parts} \<subseteq> seen")
    case True
    then have full: "slots parts seen = map Some parts" by (rule slots_full)
    have "re_finish r key p = Some (reassembly_new, Inr (Some (session, t, concat parts)))"
      unfolding re_finish_def removed using small p r(4)
      by (simp add: full filled_Some list_all_iff comp_def)
    with True show ?thesis by simp
  next
    case False
    then obtain i where "i < length parts" "i \<notin> seen" by auto
    then have "pd_received p \<noteq> length (pd_fragments p)" using filled_slots_lt [of i parts seen] p(2,4) by simp
    with False small show ?thesis by (simp add: re_finish_def)
  qed
qed

lemma re_receive_known:
  assumes "re_expire now r = Some r" "re_evict key (length (f_payload part)) r = Some r"
    and "f_count part \<noteq> 1" "key = (f_session part, f_packet part)" "map_of (re_pending r) key = Some p"
    and "pd_target p = f_target part" "length (pd_fragments p) = f_count part" "f_index part < f_count part"
  shows "re_receive r part now =
    (if pd_fragments p ! f_index part \<noteq> None then Some (r, Inr None)
     else let (r, p) = re_store r part key p in re_finish r key p)"
  using assms by (simp add: re_receive_def Let_def re_entry_def)

lemma receive_gathering:
  assumes "2 \<le> length parts" "length (concat parts) \<le> MAX_DATAGRAM" "j < length parts"
    and "now - created < 10 * 1000000000" "\<not> {..<length parts} \<subseteq> seen"
  shows "re_receive (gathering session packet t parts seen created) (part_of session packet t parts j) now =
    (if {..<length parts} \<subseteq> insert j seen then Some (reassembly_new, Inr (Some (session, t, concat parts)))
     else Some (gathering session packet t parts (insert j seen) created, Inr None))"
proof -
  define r where "r = gathering session packet t parts seen created"
  define key where "key = (session, packet)"
  define p where "p = \<lparr>pd_target = t, pd_fragments = slots parts seen, pd_bytes = stored (slots parts seen),
    pd_received = filled (slots parts seen), pd_created = created\<rparr>"
  have r: "re_pending r = [(key, p)]" "re_order r = [key]" "re_bytes r = stored (slots parts seen)"
    by (simp_all add: r_def gathering_def p_def key_def Let_def)
  have expire: "re_expire now r = Some r"
    using assms(4) by (subst re_expire.simps) (simp add: r p_def)
  have "length (parts ! j) \<le> length (concat parts)"
    using assms(3) by (auto simp: length_concat intro: member_le_sum_list)
  then have "re_bytes r + length (parts ! j) \<le> MAX_BUFFERED"
    using stored_slots_le [of parts seen] assms(2) unfolding r(3) MAX_DATAGRAM_def MAX_BUFFERED_def by linarith
  then have evict: "re_evict key (length (parts ! j)) r = Some r"
    by (subst re_evict.simps) (simp add: r)
  have slot: "pd_fragments p ! j = (if j \<in> seen then Some (parts ! j) else None)"
    using assms(3) by (simp add: p_def slots_nth)
  have step: "re_receive r (part_of session packet t parts j) now =
    (if j \<in> seen then Some (r, Inr None)
     else let (r, p) = re_store r (part_of session packet t parts j) key p in re_finish r key p)"
    by (subst re_receive_known [of now r key "part_of session packet t parts j" p])
      (use expire evict assms(1,3) slot in \<open>simp_all add: part_of_def key_def r p_def\<close>)
  show ?thesis
  proof (cases "j \<in> seen")
    case True
    then have "insert j seen = seen" by auto
    then show ?thesis using True assms(5) step by (simp add: r_def)
  next
    case False
    define q where "q = p\<lparr>pd_bytes := pd_bytes p + length (parts ! j), pd_received := pd_received p + 1,
      pd_fragments := (pd_fragments p)[j := Some (parts ! j)]\<rparr>"
    define r' where "r' = gathering session packet t parts (insert j seen) created"
    have r': "re_store r (part_of session packet t parts j) key p = (r', q)" "re_pending r' = [(key, q)]"
      using stored_insert [OF assms(3) False] slots_fill [OF assms(3), of seen]
      by (simp_all add: r_def re_store_def part_of_def r'_def gathering_def Let_def q_def p_def key_def)
    have "re_finish r' key q =
        (if {..<length parts} \<subseteq> insert j seen then Some (reassembly_new, Inr (Some (session, t, concat parts)))
         else Some (r', Inr None))"
      using stored_insert [OF assms(3) False] slots_fill [OF assms(3), of seen]
      by (intro re_finish_gathering [OF assms(2) r'(2)])
        (simp_all add: r'_def gathering_def Let_def q_def p_def key_def)
    moreover have "re_receive r (part_of session packet t parts j) now = re_finish r' key q"
      using step False r'(1) by simp
    ultimately show ?thesis unfolding r_def r'_def by (rule trans [rotated])
  qed
qed

text \<open>A sequence of arrivals, each with its time, and what the receiver got from each.\<close>

fun re_run :: "reassembly \<Rightarrow> (fragment \<times> instant) list \<Rightarrow> (reassembly \<times> received list) option" where
  "re_run r [] = Some (r, [])"
| "re_run r ((part, now) # xs) =
     Option.bind (re_receive r part now) (\<lambda>(r, res). map_option (\<lambda>(r, rs). (r, res # rs)) (re_run r xs))"

lemma re_run_append:
  "re_run r (xs @ ys) =
     Option.bind (re_run r xs) (\<lambda>(r, rs). map_option (\<lambda>(r, rs'). (r, rs @ rs')) (re_run r ys))"
  by (induction r xs rule: re_run.induct) (auto split: Option.bind_split simp: option.map_comp comp_def case_prod_beta option.map_ident)

text \<open>The first fragment of a packet opens its entry.\<close>

lemma receive_first:
  assumes "2 \<le> length parts" "length (concat parts) \<le> MAX_DATAGRAM" "j < length parts"
  shows "re_receive reassembly_new (part_of session packet t parts j) now =
    Some (gathering session packet t parts {j} now, Inr None)"
proof -
  define key where "key = (session, packet)"
  define p where "p = \<lparr>pd_target = t, pd_fragments = slots parts {}, pd_bytes = stored (slots parts {}),
    pd_received = filled (slots parts {}), pd_created = now\<rparr>"
  define r where "r = gathering session packet t parts {} now"
  have none: "slots parts {} = replicate (length parts) None"
    by (rule nth_equalityI) (simp_all add: slots_nth)
  have zero: "stored (slots parts {}) = 0" "filled (slots parts {}) = 0" by (simp_all add: none)
  have "length (parts ! j) \<le> length (concat parts)"
    using assms(3) by (auto simp: length_concat intro: member_le_sum_list)
  then have evict: "re_evict key (length (parts ! j)) reassembly_new = Some reassembly_new"
    using assms(2) by (subst re_evict.simps) (simp add: reassembly_new_def MAX_DATAGRAM_def MAX_BUFFERED_def MAX_PENDING_def)
  have expire: "re_expire now reassembly_new = Some reassembly_new"
    by (subst re_expire.simps) (simp add: reassembly_new_def)
  have entry: "re_entry reassembly_new (part_of session packet t parts j) key now = (r, p)"
    using zero none by (simp add: re_entry_def reassembly_new_def part_of_def p_def r_def gathering_def key_def Let_def)
  have step: "re_receive reassembly_new (part_of session packet t parts j) now =
      (let (r, p) = re_store r (part_of session packet t parts j) key p in re_finish r key p)"
    unfolding re_receive_def expire using assms(1,3) evict entry
    by (simp add: part_of_def key_def [symmetric] p_def slots_nth) (simp add: reassembly_new_def)
  define q where "q = p\<lparr>pd_bytes := pd_bytes p + length (parts ! j), pd_received := pd_received p + 1,
    pd_fragments := (pd_fragments p)[j := Some (parts ! j)]\<rparr>"
  define r' where "r' = gathering session packet t parts {j} now"
  have r': "re_store r (part_of session packet t parts j) key p = (r', q)" "re_pending r' = [(key, q)]"
    using stored_insert [OF assms(3), of "{}"] slots_fill [OF assms(3), of "{}"]
    by (simp_all add: r_def re_store_def part_of_def r'_def gathering_def Let_def q_def p_def key_def)
  have "re_finish r' key q = (if {..<length parts} \<subseteq> {j} then Some (reassembly_new, Inr (Some (session, t, concat parts)))
      else Some (r', Inr None))"
    using stored_insert [OF assms(3), of "{}"] slots_fill [OF assms(3), of "{}"]
    by (intro re_finish_gathering [OF assms(2) r'(2)])
      (simp_all add: r'_def gathering_def Let_def q_def p_def key_def)
  moreover have "\<not> {..<length parts} \<subseteq> {j}"
    using assms(1) by (metis card_lessThan card_mono card.empty card_insert_disjoint empty_iff finite.emptyI finite.insertI
      One_nat_def Suc_1 not_less_eq_eq)
  ultimately show ?thesis using step r'(1) unfolding r'_def by simp
qed

lemma re_run_gathering:
  assumes "2 \<le> length parts" "length (concat parts) \<le> MAX_DATAGRAM" "i < length parts" "i \<notin> seen"
    and "list_all (\<lambda>(j, now). j < length parts \<and> j \<noteq> i \<and> now - created < 10 * 1000000000) arrivals"
  shows "re_run (gathering session packet t parts seen created)
      (map (\<lambda>(j, now). (part_of session packet t parts j, now)) arrivals) =
    Some (gathering session packet t parts (seen \<union> fst ` set arrivals) created, replicate (length arrivals) (Inr None))"
  using assms(4,5)
proof (induction arrivals arbitrary: seen)
  case (Cons a arrivals)
  obtain j now where a: "a = (j, now)" by (cases a)
  have open1: "\<not> {..<length parts} \<subseteq> seen" "\<not> {..<length parts} \<subseteq> insert j seen"
    using assms(3) Cons.prems a by auto
  show ?case
    using receive_gathering [OF assms(1,2) _ _ open1(1), of j now created session packet t] open1(2)
      Cons.IH [of "insert j seen"] Cons.prems a by simp
qed simp

text \<open>
  C14. Reassembly completes: however the fragments of one packet are ordered and repeated, as long as they
  arrive within ten seconds of the first, nothing is delivered before the last missing one, which
  delivers exactly the original payload with its session and target and leaves nothing behind.
\<close>

theorem reassembly_completes:
  assumes "2 \<le> length parts" "length (concat parts) \<le> MAX_DATAGRAM" "i < length parts"
    and "set (map fst arrivals) = {..<length parts} - {i}"
    and "list_all (\<lambda>(j, now). now - snd (hd arrivals) < 10 * 1000000000) arrivals"
    and "now - snd (hd arrivals) < 10 * 1000000000"
  shows "re_run reassembly_new
      (map (\<lambda>(j, now). (part_of session packet t parts j, now)) arrivals @ [(part_of session packet t parts i, now)]) =
    Some (reassembly_new, replicate (length arrivals) (Inr None) @ [Inr (Some (session, t, concat parts))])"
proof -
  have "arrivals \<noteq> []"
  proof
    assume "arrivals = []"
    then have "{..<length parts} \<subseteq> {i}" using assms(4) by auto
    then have "card {..<length parts} \<le> 1" by (metis card_mono card.empty card_insert_disjoint empty_iff finite.emptyI finite.insertI One_nat_def)
    with assms(1) show False by simp
  qed
  then obtain j0 c rest where arr: "arrivals = (j0, c) # rest" by (metis list.exhaust surj_pair)
  have mem: "j < length parts \<and> j \<noteq> i" if "(j, n) \<in> set arrivals" for j n
    using that assms(4) by (metis DiffD1 DiffD2 fst_conv image_eqI insertI1 lessThan_iff list.set_map)
  have ok: "list_all (\<lambda>(j, now). j < length parts \<and> j \<noteq> i \<and> now - c < 10 * 1000000000) rest"
    using assms(5) mem arr by (fastforce simp: list_all_iff)
  have j0: "j0 < length parts" "j0 \<noteq> i" using mem arr by auto
  have seen: "{j0} \<union> fst ` set rest = {..<length parts} - {i}" using assms(4) arr by auto
  have last: "re_receive (gathering session packet t parts ({..<length parts} - {i}) c) (part_of session packet t parts i) now =
      Some (reassembly_new, Inr (Some (session, t, concat parts)))"
    using receive_gathering [OF assms(1-3), of now c "{..<length parts} - {i}" session packet t] assms(3,6) arr
    by (auto simp: insert_absorb)
  show ?thesis
    using receive_first [OF assms(1,2) j0(1), of session packet t c]
      re_run_gathering [OF assms(1-3) _ ok, of "{j0}" session packet t] j0(2) seen last
    by (simp add: arr re_run_append)
qed

theorem reassembly_completes_witness:
  "re_run reassembly_new
     (map (\<lambda>(j, now). (part_of 9 4 (Ip (V4 7) 443) [[1, 2], [3], [4, 5]] j, now)) [(2, 5), (0, 6), (2, 7)] @
       [(part_of 9 4 (Ip (V4 7) 443) [[1, 2], [3], [4, 5]] 1, 8)]) =
   Some (reassembly_new, [Inr None, Inr None, Inr None, Inr (Some (9, Ip (V4 7) 443, [1, 2, 3, 4, 5]))])"
proof -
  have "set (map fst [(2, 5), (0, 6), (2, 7 :: nat)]) = {..<length [[1, 2], [3], [4, 5 :: 8 word]]} - {1 :: nat}"
    by (auto simp: eval_nat_numeral)
  from reassembly_completes [OF _ _ _ this, of 8 9 4 "Ip (V4 7) 443"] show ?thesis
    by (simp add: MAX_DATAGRAM_def numeral_3_eq_3)
qed

end
