(* ===== verification/Hysteria_Udp.thy ===== *)
theory Hysteria_Udp
  imports Hysteria_Reassembly "HOL-Library.Product_Lexorder"
begin

text \<open>
  The UDP associations of Hysteria 2 (\<open>crates/hysteria2/src/udp.rs\<close>): the server's table with its activity
  index, the handlers of the server and client loops, and the fragmenting sender. Scopes are numbered; a
  scope is closed when its association is dropped (\<open>sa_closed\<close>) or from outside, which is the argument
  \<open>ext\<close> of a handler. The results of \<open>try_send\<close> and of quinn's \<open>send_datagram\<close> are arguments. A failing
  assertion, or a loop that does not end, is \<open>None\<close>.
\<close>

section \<open>The table of the server\<close>

record association =
  as_scope :: nat
  as_active :: instant

text \<open>\<open>sa_activity\<close> is the \<open>BTreeSet\<close>: a sorted list without repetitions.\<close>

record server_associations =
  sa_entries :: "(nat \<times> association) list"
  sa_activity :: "(instant \<times> nat) list"
  sa_closed :: "nat list"

definition bt_insert :: "instant \<times> nat \<Rightarrow> (instant \<times> nat) list \<Rightarrow> (instant \<times> nat) list" where
  "bt_insert x xs = (if x \<in> set xs then xs else insort x xs)"

definition sa_new :: server_associations where
  "sa_new = \<lparr>sa_entries = [], sa_activity = [], sa_closed = []\<rparr>"

definition sa_remove :: "nat \<Rightarrow> server_associations \<Rightarrow> server_associations option" where
  "sa_remove sid s =
     (case map_of (sa_entries s) sid of
        None \<Rightarrow> Some s
      | Some a \<Rightarrow>
          if (as_active a, sid) \<in> set (sa_activity s)
          then Some (s\<lparr>sa_entries := AList.delete sid (sa_entries s),
                       sa_activity := remove1 (as_active a, sid) (sa_activity s),
                       sa_closed := sa_closed s @ [as_scope a]\<rparr>)
          else None)"

definition sa_insert :: "nat \<Rightarrow> association \<Rightarrow> server_associations \<Rightarrow> server_associations option" where
  "sa_insert sid a s =
     Option.bind (sa_remove sid s) (\<lambda>s.
       Some (s\<lparr>sa_activity := bt_insert (as_active a, sid) (sa_activity s), sa_entries := AList.update sid a (sa_entries s)\<rparr>))"

definition sa_touch :: "instant \<Rightarrow> nat \<Rightarrow> server_associations \<Rightarrow> server_associations option" where
  "sa_touch now sid s =
     (case map_of (sa_entries s) sid of
        None \<Rightarrow> None
      | Some a \<Rightarrow>
          if (as_active a, sid) \<in> set (sa_activity s)
          then Some (s\<lparr>sa_activity := bt_insert (now, sid) (remove1 (as_active a, sid) (sa_activity s)),
                       sa_entries := AList.update sid (a\<lparr>as_active := now\<rparr>) (sa_entries s)\<rparr>)
          else None)"

definition sa_next_expiry :: "nat \<Rightarrow> server_associations \<Rightarrow> instant option" where
  "sa_next_expiry retention s = (case sa_activity s of [] \<Rightarrow> None | x # _ \<Rightarrow> Some (fst x + retention))"

partial_function (option) sa_expire_loop :: "nat \<Rightarrow> instant \<Rightarrow> server_associations \<Rightarrow> server_associations option" where
  [code]: "sa_expire_loop retention now s =
     (case sa_activity s of
        [] \<Rightarrow> Some s
      | x # _ \<Rightarrow>
          if now < fst x + retention then Some s
          else Option.bind (sa_remove (snd x) s) (sa_expire_loop retention now))"

definition sa_expire :: "nat \<Rightarrow> instant \<Rightarrow> server_associations \<Rightarrow> server_associations option" where
  "sa_expire retention now s =
     Option.bind (sa_expire_loop retention now s) (\<lambda>s.
       if length (sa_entries s) = length (sa_activity s) then Some s else None)"

section \<open>Sending a packet\<close>

datatype send_result = Sent | Too_Large | Send_Failed

text \<open>The datagrams sent, and whether the loop ends without an error.\<close>

fun send_all :: "(bytes \<Rightarrow> send_result) \<Rightarrow> bytes list \<Rightarrow> bytes list \<times> bool" where
  "send_all io [] = ([], True)"
| "send_all io (d # ds) =
     (case io d of
        Sent \<Rightarrow> (case send_all io ds of (sent, ok) \<Rightarrow> (d # sent, ok))
      | Too_Large \<Rightarrow> send_all io ds
      | Send_Failed \<Rightarrow> ([], False))"

definition hy_send ::
  "wire_codec \<Rightarrow> nat option \<Rightarrow> (bytes \<Rightarrow> send_result) \<Rightarrow> nat \<Rightarrow> nat \<Rightarrow> target \<Rightarrow> bytes \<Rightarrow> (nat \<times> bytes list \<times> bool) option" where
  "hy_send W mtu io session counter t payload =
     (case mtu of
        None \<Rightarrow> Some (counter, [], False)
      | Some mtu \<Rightarrow>
          Option.bind (fragments W session counter t payload mtu) (\<lambda>r.
            case r of
              Inl _ \<Rightarrow> Some (counter, [], True)
            | Inr ds \<Rightarrow> Some ((counter + 1) mod 65536, send_all io ds)))"

section \<open>The server loop\<close>

text \<open>
  \<open>hs_made\<close> lists the associations made so far, as scope and session id; \<open>hs_delivered\<close> what was handed to
  their handlers and \<open>hs_sent\<close> what was sent to the peer.
\<close>

record hy_server =
  hs_table :: server_associations
  hs_reassembly :: reassembly
  hs_counter :: nat
  hs_made :: "(nat \<times> nat) list"
  hs_delivered :: "(nat \<times> target \<times> bytes) list"
  hs_sent :: "bytes list"

definition server_new :: hy_server where
  "server_new = \<lparr>hs_table = sa_new, hs_reassembly = reassembly_new, hs_counter = 0, hs_made = [], hs_delivered = [], hs_sent = []\<rparr>"

definition scope_closed :: "(nat \<Rightarrow> bool) \<Rightarrow> server_associations \<Rightarrow> nat \<Rightarrow> bool" where
  "scope_closed ext s scope \<longleftrightarrow> ext scope \<or> scope \<in> set (sa_closed s)"

text \<open>A packet for a session: \<open>admitted\<close> is whether \<open>associate\<close> succeeds, \<open>accepts\<close> whether the queue takes the packet.\<close>

definition server_packet ::
  "(nat \<Rightarrow> bool) \<Rightarrow> bool \<Rightarrow> bool \<Rightarrow> instant \<Rightarrow> nat \<Rightarrow> target \<Rightarrow> bytes \<Rightarrow> hy_server \<Rightarrow> (hy_server \<times> bool) option" where
  "server_packet ext admitted accepts now sid t payload h =
     Option.bind
       (case map_of (sa_entries (hs_table h)) sid of
          Some a \<Rightarrow> if scope_closed ext (hs_table h) (as_scope a) then sa_remove sid (hs_table h) else Some (hs_table h)
        | None \<Rightarrow> Some (hs_table h)) (\<lambda>s.
     if map_of (sa_entries s) sid = None \<and> \<not> admitted then Some (h\<lparr>hs_table := s\<rparr>, False)
     else
       Option.bind
         (if map_of (sa_entries s) sid = None then
            let scope = length (hs_made h) in
            map_option (\<lambda>s. h\<lparr>hs_table := s, hs_made := hs_made h @ [(scope, sid)]\<rparr>)
              (sa_insert sid \<lparr>as_scope = scope, as_active = now\<rparr> s)
          else Some (h\<lparr>hs_table := s\<rparr>)) (\<lambda>h.
       case map_of (sa_entries (hs_table h)) sid of
         None \<Rightarrow> None
       | Some a \<Rightarrow>
           if accepts then
             map_option (\<lambda>s. (h\<lparr>hs_table := s, hs_delivered := hs_delivered h @ [(as_scope a, t, payload)]\<rparr>, True))
               (sa_touch now sid (hs_table h))
           else Some (h, True)))"

definition server_datagram ::
  "wire_codec \<Rightarrow> bool \<Rightarrow> (nat \<Rightarrow> bool) \<Rightarrow> bool \<Rightarrow> bool \<Rightarrow> instant \<Rightarrow> bytes \<Rightarrow> hy_server \<Rightarrow> (hy_server \<times> bool) option" where
  "server_datagram W authenticated ext admitted accepts now b h =
     (if \<not> authenticated then Some (h, True)
      else
        (case decode_fragment W b of
           Inl _ \<Rightarrow> Some (h, True)
         | Inr part \<Rightarrow>
             Option.bind (re_receive (hs_reassembly h) part now) (\<lambda>(r, res).
               let h = h\<lparr>hs_reassembly := r\<rparr> in
               (case res of
                  Inr (Some (sid, t, payload)) \<Rightarrow> server_packet ext admitted accepts now sid t payload h
                | _ \<Rightarrow> Some (h, True)))))"

text \<open>A reply made by the association with the given scope.\<close>

definition server_reply ::
  "wire_codec \<Rightarrow> nat option \<Rightarrow> (bytes \<Rightarrow> send_result) \<Rightarrow> (nat \<Rightarrow> bool) \<Rightarrow> instant \<Rightarrow> nat \<Rightarrow> nat \<Rightarrow> target \<Rightarrow> bytes \<Rightarrow>
     hy_server \<Rightarrow> (hy_server \<times> bool) option" where
  "server_reply W mtu io ext now scope sid t payload h =
     (if scope_closed ext (hs_table h) scope \<or> map_of (sa_entries (hs_table h)) sid = None then Some (h, True)
      else
        Option.bind (hy_send W mtu io sid (hs_counter h) t payload) (\<lambda>(counter, sent, ok).
          let h = h\<lparr>hs_counter := counter, hs_sent := hs_sent h @ sent\<rparr> in
          if ok then map_option (\<lambda>s. (h\<lparr>hs_table := s\<rparr>, True)) (sa_touch now sid (hs_table h))
          else Some (h, False)))"

definition server_expire :: "nat \<Rightarrow> instant \<Rightarrow> hy_server \<Rightarrow> hy_server option" where
  "server_expire retention now h = map_option (\<lambda>s. h\<lparr>hs_table := s\<rparr>) (sa_expire retention now (hs_table h))"

inductive server_step :: "wire_codec \<Rightarrow> hy_server \<Rightarrow> hy_server \<Rightarrow> bool" for W where
  sv_datagram: "server_datagram W authenticated ext admitted accepts now b h = Some (h', True) \<Longrightarrow> server_step W h h'"
| sv_reply: "(scope, sid) \<in> set (hs_made h) \<Longrightarrow> server_reply W mtu io ext now scope sid t payload h = Some (h', True) \<Longrightarrow>
    server_step W h h'"
| sv_expire: "server_expire retention now h = Some h' \<Longrightarrow> server_step W h h'"

section \<open>The client loop\<close>

record hy_client =
  hc_entries :: "(nat \<times> association) list"
  hc_next :: nat
  hc_reassembly :: reassembly

datatype registration = Exhausted | Abandoned | Refused | Registered nat

text \<open>\<open>gone\<close>: the caller gave up or its scope is closed; \<open>spawned\<close>: its driver task could be spawned.\<close>

definition client_register :: "(nat \<Rightarrow> bool) \<Rightarrow> bool \<Rightarrow> bool \<Rightarrow> nat \<Rightarrow> instant \<Rightarrow> hy_client \<Rightarrow> hy_client \<times> registration" where
  "client_register closed gone spawned scope now c =
     (let c = c\<lparr>hc_entries := filter (\<lambda>x. \<not> closed (as_scope (snd x))) (hc_entries c)\<rparr> in
      if 4294967295 < hc_next c then (c, Exhausted)
      else if gone then (c, Abandoned)
      else
        let sid = hc_next c; c = c\<lparr>hc_next := hc_next c + 1\<rparr> in
        if \<not> spawned then (c, Refused)
        else (c\<lparr>hc_entries := AList.update sid \<lparr>as_scope = scope, as_active = now\<rparr> (hc_entries c)\<rparr>, Registered sid))"

text \<open>The scope of the association that a received packet is queued for, if any.\<close>

definition client_datagram :: "wire_codec \<Rightarrow> instant \<Rightarrow> bytes \<Rightarrow> hy_client \<Rightarrow> (hy_client \<times> (nat \<times> target \<times> bytes) option) option" where
  "client_datagram W now b c =
     (case decode_fragment W b of
        Inl _ \<Rightarrow> Some (c, None)
      | Inr part \<Rightarrow>
          if map_of (hc_entries c) (f_session part) = None then Some (c, None)
          else
            Option.bind (re_receive (hc_reassembly c) part now) (\<lambda>(r, res).
              let c = c\<lparr>hc_reassembly := r\<rparr> in
              Some (c,
                case res of
                  Inr (Some (sid, t, payload)) \<Rightarrow> map_option (\<lambda>a. (as_scope a, t, payload)) (map_of (hc_entries c) sid)
                | _ \<Rightarrow> None)))"

section \<open>The table and its index\<close>

text \<open>The index lists the last activity of every association, each once and in order.\<close>

definition sa_ok :: "server_associations \<Rightarrow> bool" where
  "sa_ok s \<longleftrightarrow> distinct (map fst (sa_entries s)) \<and> sorted (sa_activity s) \<and> distinct (sa_activity s) \<and>
     set (sa_activity s) = (\<lambda>(sid, a). (as_active a, sid)) ` set (sa_entries s)"

lemma sa_new_ok: "sa_ok sa_new"
  by (simp add: sa_ok_def sa_new_def)

lemma bt_insert_facts:
  "sorted xs \<Longrightarrow> sorted (bt_insert x xs)" "distinct xs \<Longrightarrow> distinct (bt_insert x xs)" "set (bt_insert x xs) = insert x (set xs)"
  by (auto simp: bt_insert_def sorted_insort distinct_insort set_insort_key)

lemma indexed:
  assumes "sa_ok s" "map_of (sa_entries s) sid = Some a"
  shows "(as_active a, sid) \<in> set (sa_activity s)"
proof -
  have "(\<lambda>(sid, a). (as_active a, sid)) (sid, a) \<in> (\<lambda>(sid, a). (as_active a, sid)) ` set (sa_entries s)"
    using map_of_SomeD [OF assms(2)] by (rule imageI)
  then show ?thesis using assms(1) by (simp add: sa_ok_def)
qed

lemma index_entry: "sa_ok s \<Longrightarrow> (t, sid) \<in> set (sa_activity s) \<Longrightarrow> \<exists>a. map_of (sa_entries s) sid = Some a \<and> as_active a = t"
  by (auto simp: sa_ok_def map_of_eq_Some_iff)

lemma index_without:
  assumes "sa_ok s" "map_of (sa_entries s) sid = Some a"
  shows "set (remove1 (as_active a, sid) (sa_activity s)) = (\<lambda>(sid, a). (as_active a, sid)) ` set (AList.delete sid (sa_entries s))"
proof -
  have d: "distinct (map fst (sa_entries s))" using assms(1) by (simp add: sa_ok_def)
  have "b = a" if "(sid, b) \<in> set (sa_entries s)" for b
    using that assms(2) map_of_is_SomeI [OF d that] by simp
  then show ?thesis using assms(1) by (fastforce simp: sa_ok_def set_remove1_eq set_delete)
qed

text \<open>Removing an association closes its scope.\<close>

lemma sa_remove_spec:
  assumes "sa_ok s"
  shows "\<exists>s'. sa_remove sid s = Some s' \<and> sa_ok s' \<and> sa_entries s' = AList.delete sid (sa_entries s) \<and>
    length (sa_activity s') \<le> length (sa_activity s) \<and>
    sa_closed s' = sa_closed s @ (case map_of (sa_entries s) sid of None \<Rightarrow> [] | Some a \<Rightarrow> [as_scope a])"
proof (cases "map_of (sa_entries s) sid")
  case None
  then have "AList.delete sid (sa_entries s) = sa_entries s" by (simp add: delete_id map_of_eq_None_iff)
  then show ?thesis using None assms by (simp add: sa_remove_def)
next
  case (Some a)
  define s' where "s' = s\<lparr>sa_entries := AList.delete sid (sa_entries s),
    sa_activity := remove1 (as_active a, sid) (sa_activity s), sa_closed := sa_closed s @ [as_scope a]\<rparr>"
  have "sa_ok s'"
    using assms index_without [OF assms Some] by (simp add: sa_ok_def s'_def distinct_delete sorted_remove1)
  then show ?thesis using Some indexed [OF assms Some] by (simp add: sa_remove_def s'_def length_remove1)
qed

lemma sa_remove_shrinks:
  assumes "sa_ok s" "sa_activity s = x # rest" "sa_remove (snd x) s = Some s'"
  shows "sa_activity s' = rest"
proof -
  obtain a where "map_of (sa_entries s) (snd x) = Some a" "as_active a = fst x"
    using index_entry [OF assms(1), of "fst x" "snd x"] assms(2) by auto
  then show ?thesis using assms(2,3) by (auto simp: sa_remove_def split: if_splits)
qed

lemma set_update_fresh: "map_of ps k = None \<Longrightarrow> set (AList.update k v ps) = insert (k, v) (set ps)"
  by (induction ps) (auto split: if_splits)

lemma set_update_delete: "distinct (map fst ps) \<Longrightarrow> set (AList.update k v ps) = insert (k, v) (set (AList.delete k ps))"
  by (induction ps) (auto simp: set_delete image_iff)

lemma sa_update_ok:
  assumes "sa_ok s" "map_of (sa_entries s) sid = None"
  shows "sa_ok (s\<lparr>sa_activity := bt_insert (as_active a, sid) (sa_activity s), sa_entries := AList.update sid a (sa_entries s)\<rparr>)"
proof -
  show ?thesis using assms by (simp add: sa_ok_def bt_insert_facts set_update_fresh distinct_update)
qed

lemma sa_insert_spec:
  assumes "sa_ok s" "map_of (sa_entries s) sid = None"
  shows "\<exists>s'. sa_insert sid a s = Some s' \<and> sa_ok s' \<and> sa_entries s' = AList.update sid a (sa_entries s) \<and> sa_closed s' = sa_closed s"
  using assms sa_update_ok [OF assms] by (simp add: sa_insert_def sa_remove_def)

lemma sa_touch_spec:
  assumes "sa_ok s" "map_of (sa_entries s) sid = Some a"
  shows "\<exists>s'. sa_touch now sid s = Some s' \<and> sa_ok s' \<and> sa_closed s' = sa_closed s \<and>
    sa_entries s' = AList.update sid (a\<lparr>as_active := now\<rparr>) (sa_entries s)"
proof -
  let ?b = "a\<lparr>as_active := now\<rparr>"
  have d: "distinct (map fst (sa_entries s))" using assms(1) by (simp add: sa_ok_def)
  have "set (AList.update sid ?b (sa_entries s)) = insert (sid, ?b) (set (AList.delete sid (sa_entries s)))"
    using d by (rule set_update_delete)
  then have "(\<lambda>(sid, a). (as_active a, sid)) ` set (AList.update sid ?b (sa_entries s)) =
      insert (now, sid) (set (remove1 (as_active a, sid) (sa_activity s)))"
    unfolding index_without [OF assms] by simp
  then show ?thesis
    using assms indexed [OF assms] d by (simp add: sa_touch_def sa_ok_def bt_insert_facts sorted_remove1 distinct_update)
qed

section \<open>Expiry\<close>

definition expired :: "nat \<Rightarrow> instant \<Rightarrow> association \<Rightarrow> bool" where
  "expired retention now a \<longleftrightarrow> as_active a + retention \<le> now"

text \<open>The loop ends, because every round drops the first entry of the index, and stops at the first that is not due.\<close>

lemma expire_loop_spec:
  assumes "sa_ok s"
  shows "\<exists>s'. sa_expire_loop retention now s = Some s' \<and> sa_ok s' \<and>
    (\<forall>sid. map_of (sa_entries s') sid =
       (case map_of (sa_entries s) sid of None \<Rightarrow> None | Some a \<Rightarrow> if expired retention now a then None else Some a)) \<and>
    set (sa_closed s') = set (sa_closed s) \<union> {as_scope a | sid a. map_of (sa_entries s) sid = Some a \<and> expired retention now a}"
  using assms
proof (induction "length (sa_activity s)" arbitrary: s)
  case 0
  then have "sa_entries s = []" by (simp add: sa_ok_def)
  then show ?case using 0 by (simp add: sa_expire_loop.simps [of _ _ s])
next
  case (Suc n)
  obtain x rest where act: "sa_activity s = x # rest" using Suc(2) by (cases "sa_activity s") auto
  obtain a where a: "map_of (sa_entries s) (snd x) = Some a" "as_active a = fst x"
    using index_entry [OF Suc(3), of "fst x" "snd x"] act by auto
  show ?case
  proof (cases "now < fst x + retention")
    case True
    have "\<not> expired retention now b" if "map_of (sa_entries s) sid = Some b" for sid b
    proof -
      have "x \<le> (as_active b, sid)" using indexed [OF Suc(3) that] Suc(3) act by (auto simp: sa_ok_def)
      then have "fst x \<le> as_active b" by (auto simp: less_eq_prod_def)
      then show ?thesis using True by (simp add: expired_def)
    qed
    then show ?thesis using True act Suc(3) by (auto simp: sa_expire_loop.simps [of _ _ s] split: option.splits)
  next
    case False
    obtain s1 where s1: "sa_remove (snd x) s = Some s1" "sa_ok s1" "sa_entries s1 = AList.delete (snd x) (sa_entries s)"
      "sa_closed s1 = sa_closed s @ [as_scope a]"
      using sa_remove_spec [OF Suc(3), of "snd x"] a(1) by auto
    have "length (sa_activity s1) = n" using sa_remove_shrinks [OF Suc(3) act s1(1)] Suc(2) act by simp
    from Suc(1) [OF this [symmetric] s1(2)] obtain s' where s': "sa_expire_loop retention now s1 = Some s'" "sa_ok s'"
      "\<And>sid. map_of (sa_entries s') sid =
         (case map_of (sa_entries s1) sid of None \<Rightarrow> None | Some a \<Rightarrow> if expired retention now a then None else Some a)"
      "set (sa_closed s') = set (sa_closed s1) \<union> {as_scope a | sid a. map_of (sa_entries s1) sid = Some a \<and> expired retention now a}"
      by blast
    have ea: "expired retention now a" using False a(2) by (simp add: expired_def)
    have m: "map_of (sa_entries s1) sid = (if sid = snd x then None else map_of (sa_entries s) sid)" for sid
      by (simp add: s1(3) delete_conv')
    have "set (sa_closed s') = set (sa_closed s) \<union> {as_scope a | sid a. map_of (sa_entries s) sid = Some a \<and> expired retention now a}"
      using s'(4) ea a(1) unfolding m s1(4) by (auto split: if_splits) (metis option.inject)
    moreover have "sa_expire_loop retention now s = Some s'"
      using False act s1(1) s'(1) by (simp add: sa_expire_loop.simps [of _ _ s])
    ultimately show ?thesis using s'(2,3) ea a(1) unfolding m by auto
  qed
qed

lemma index_length: "sa_ok s \<Longrightarrow> length (sa_entries s) = length (sa_activity s)"
proof -
  assume ok: "sa_ok s"
  have "inj_on (\<lambda>(sid, a). (as_active a, sid)) (set (sa_entries s))"
    using ok by (auto simp: inj_on_def sa_ok_def intro: eq_key_imp_eq_value)
  then have "card (set (sa_activity s)) = card (set (sa_entries s))" using ok by (simp add: sa_ok_def card_image)
  moreover have "distinct (sa_activity s)" "distinct (sa_entries s)" using ok by (simp_all add: sa_ok_def distinct_map)
  ultimately show ?thesis by (simp add: distinct_card)
qed

lemma sa_expire_loop_expire: "sa_expire_loop retention now s = Some s' \<Longrightarrow> sa_ok s' \<Longrightarrow> sa_expire retention now s = Some s'"
  by (simp add: sa_expire_def index_length)

lemma next_expiry_live:
  assumes "sa_ok s" "\<And>sid a. map_of (sa_entries s) sid = Some a \<Longrightarrow> \<not> expired retention now a"
  shows "case sa_next_expiry retention s of None \<Rightarrow> True | Some t \<Rightarrow> now < t"
proof (cases "sa_activity s")
  case (Cons x rest)
  then obtain a where a: "map_of (sa_entries s) (snd x) = Some a" "as_active a = fst x"
    using index_entry [OF assms(1), of "fst x" "snd x"] by auto
  show ?thesis using assms(2) [OF a(1)] a(2) Cons by (simp add: sa_next_expiry_def expired_def)
qed (simp add: sa_next_expiry_def)

section \<open>Which associations exist\<close>

text \<open>
  The table only holds associations that were made for their session id, and an association that was made and
  is no longer in the table is closed.
\<close>

definition table_made :: "(nat \<times> nat) list \<Rightarrow> server_associations \<Rightarrow> bool" where
  "table_made made s \<longleftrightarrow>
     (\<forall>sid a. map_of (sa_entries s) sid = Some a \<longrightarrow> (as_scope a, sid) \<in> set made) \<and>
     (\<forall>scope sid. (scope, sid) \<in> set made \<longrightarrow> scope \<in> set (sa_closed s) \<or>
        (\<exists>a. map_of (sa_entries s) sid = Some a \<and> as_scope a = scope))"

definition server_ok :: "hy_server \<Rightarrow> bool" where
  "server_ok h \<longleftrightarrow> sa_ok (hs_table h) \<and> re_ok (hs_reassembly h) \<and> table_made (hs_made h) (hs_table h)"

lemma made_current:
  "table_made made s \<Longrightarrow> (scope, sid) \<in> set made \<Longrightarrow> scope \<notin> set (sa_closed s) \<Longrightarrow>
     \<exists>a. map_of (sa_entries s) sid = Some a \<and> as_scope a = scope"
  by (auto simp: table_made_def)

lemma made_remove:
  assumes "table_made made s" "sa_entries s' = AList.delete sid (sa_entries s)"
    "sa_closed s' = sa_closed s @ (case map_of (sa_entries s) sid of None \<Rightarrow> [] | Some a \<Rightarrow> [as_scope a])"
  shows "table_made made s'"
proof -
  have m: "map_of (sa_entries s') k = (if k = sid then None else map_of (sa_entries s) k)" for k
    by (simp add: assms(2) delete_conv')
  have "scope \<in> set (sa_closed s') \<or> (\<exists>a. map_of (sa_entries s') k = Some a \<and> as_scope a = scope)" if m0: "(scope, k) \<in> set made" for scope k
  proof (cases "scope \<in> set (sa_closed s)")
    case False
    then obtain a where "map_of (sa_entries s) k = Some a" "as_scope a = scope" using made_current [OF assms(1) m0] by blast
    then show ?thesis using assms(3) by (auto simp: m)
  qed (simp add: assms(3))
  moreover have "(as_scope a, k) \<in> set made" if "map_of (sa_entries s') k = Some a" for k a
    using that assms(1) by (auto simp: table_made_def m split: if_splits)
  ultimately show ?thesis unfolding table_made_def by blast
qed

lemma made_insert:
  assumes "table_made made s" "map_of (sa_entries s) sid = None"
    "sa_entries s' = AList.update sid a (sa_entries s)" "sa_closed s' = sa_closed s"
  shows "table_made (made @ [(as_scope a, sid)]) s'"
proof -
  have m: "map_of (sa_entries s') k = (if k = sid then Some a else map_of (sa_entries s) k)" for k
    by (simp add: assms(3) update_conv')
  have "scope \<in> set (sa_closed s') \<or> (\<exists>b. map_of (sa_entries s') k = Some b \<and> as_scope b = scope)"
    if "(scope, k) \<in> set (made @ [(as_scope a, sid)])" for scope k
    by (cases "scope \<in> set (sa_closed s)") (use that made_current [OF assms(1), of scope k] assms(2,4) in \<open>auto simp: m\<close>)
  moreover have "(as_scope b, k) \<in> set (made @ [(as_scope a, sid)])" if "map_of (sa_entries s') k = Some b" for k b
    using that assms(1) by (auto simp: table_made_def m split: if_splits)
  ultimately show ?thesis unfolding table_made_def by blast
qed

lemma made_touch:
  assumes "table_made made s" "map_of (sa_entries s) sid = Some a"
    "sa_entries s' = AList.update sid (a\<lparr>as_active := now\<rparr>) (sa_entries s)" "sa_closed s' = sa_closed s"
  shows "table_made made s'"
proof -
  have m: "map_of (sa_entries s') k = (if k = sid then Some (a\<lparr>as_active := now\<rparr>) else map_of (sa_entries s) k)" for k
    by (simp add: assms(3) update_conv')
  have "(as_scope b, k) \<in> set made" if "map_of (sa_entries s') k = Some b" for k b
    using that assms(1,2) by (auto simp: table_made_def m split: if_splits)
  moreover have "scope \<in> set (sa_closed s') \<or> (\<exists>b. map_of (sa_entries s') k = Some b \<and> as_scope b = scope)"
    if "(scope, k) \<in> set made" for scope k
    by (cases "scope \<in> set (sa_closed s)") (use that made_current [OF assms(1), of scope k] assms(2,4) in \<open>auto simp: m\<close>)
  ultimately show ?thesis unfolding table_made_def by blast
qed

lemma made_expire:
  assumes "table_made made s"
    and "\<And>sid. map_of (sa_entries s') sid =
       (case map_of (sa_entries s) sid of None \<Rightarrow> None | Some a \<Rightarrow> if expired retention now a then None else Some a)"
    and "set (sa_closed s') = set (sa_closed s) \<union> {as_scope a | sid a. map_of (sa_entries s) sid = Some a \<and> expired retention now a}"
  shows "table_made made s'"
proof -
  have "scope \<in> set (sa_closed s') \<or> (\<exists>a. map_of (sa_entries s') k = Some a \<and> as_scope a = scope)" if m0: "(scope, k) \<in> set made" for scope k
  proof (cases "scope \<in> set (sa_closed s)")
    case False
    then obtain a where a: "map_of (sa_entries s) k = Some a" "as_scope a = scope" using made_current [OF assms(1) m0] by blast
    then show ?thesis by (cases "expired retention now a") (auto simp: assms(2,3))
  qed (simp add: assms(3))
  moreover have "(as_scope a, k) \<in> set made" if "map_of (sa_entries s') k = Some a" for k a
    using that assms(1) by (auto simp: table_made_def assms(2) split: option.splits if_splits)
  ultimately show ?thesis unfolding table_made_def by blast
qed

section \<open>The handlers\<close>

text \<open>Each handler returns without a failing assertion and keeps the invariant.\<close>

definition keeps_server :: "(hy_server \<times> bool) option \<Rightarrow> bool" where
  "keeps_server r \<longleftrightarrow> (case r of None \<Rightarrow> False | Some (h, _) \<Rightarrow> server_ok h)"

lemma keeps_server_Some [simp]: "keeps_server (Some (h, b)) \<longleftrightarrow> server_ok h"
  by (simp add: keeps_server_def)

lemma touch_keeps:
  assumes "server_ok h" "map_of (sa_entries (hs_table h)) sid = Some a"
    and "\<And>s. server_ok (h\<lparr>hs_table := s\<rparr>) \<Longrightarrow> server_ok (g s)"
  shows "keeps_server (map_option (\<lambda>s. (g s, True)) (sa_touch now sid (hs_table h)))"
proof -
  have ok: "sa_ok (hs_table h)" "table_made (hs_made h) (hs_table h)" using assms(1) by (simp_all add: server_ok_def)
  obtain s' where s': "sa_touch now sid (hs_table h) = Some s'" "sa_ok s'" "sa_closed s' = sa_closed (hs_table h)"
    "sa_entries s' = AList.update sid (a\<lparr>as_active := now\<rparr>) (sa_entries (hs_table h))"
    using sa_touch_spec [OF ok(1) assms(2)] by blast
  have "server_ok (h\<lparr>hs_table := s'\<rparr>)"
    using assms(1) s'(2) made_touch [OF ok(2) assms(2) s'(4,3)] by (simp add: server_ok_def)
  then show ?thesis using assms(3) s'(1) by simp
qed

text \<open>The association of a session after one whose scope is closed was removed.\<close>

lemma sweep_spec:
  assumes "server_ok h"
  shows "\<exists>s. (case map_of (sa_entries (hs_table h)) sid of
      Some a \<Rightarrow> if scope_closed ext (hs_table h) (as_scope a) then sa_remove sid (hs_table h) else Some (hs_table h)
    | None \<Rightarrow> Some (hs_table h)) = Some s \<and> server_ok (h\<lparr>hs_table := s\<rparr>)"
proof -
  have ok: "sa_ok (hs_table h)" "table_made (hs_made h) (hs_table h)" using assms by (simp_all add: server_ok_def)
  obtain s where s: "sa_remove sid (hs_table h) = Some s" "sa_ok s" "sa_entries s = AList.delete sid (sa_entries (hs_table h))"
    "sa_closed s = sa_closed (hs_table h) @ (case map_of (sa_entries (hs_table h)) sid of None \<Rightarrow> [] | Some a \<Rightarrow> [as_scope a])"
    using sa_remove_spec [OF ok(1)] by blast
  have "server_ok (h\<lparr>hs_table := s\<rparr>)" using assms s(2) made_remove [OF ok(2) s(3,4)] by (simp add: server_ok_def)
  moreover have "server_ok (h\<lparr>hs_table := hs_table h\<rparr>)" using assms by simp
  ultimately show ?thesis using s(1) by (auto split: option.splits)
qed

lemma admit_spec:
  assumes "server_ok h" "map_of (sa_entries (hs_table h)) sid = None"
  shows "\<exists>s. sa_insert sid \<lparr>as_scope = scope, as_active = now\<rparr> (hs_table h) = Some s \<and>
    server_ok (h\<lparr>hs_table := s, hs_made := hs_made h @ [(scope, sid)]\<rparr>) \<and> map_of (sa_entries s) sid \<noteq> None"
proof -
  have ok: "sa_ok (hs_table h)" "table_made (hs_made h) (hs_table h)" using assms(1) by (simp_all add: server_ok_def)
  let ?a = "\<lparr>as_scope = scope, as_active = now\<rparr>"
  obtain s where s: "sa_insert sid ?a (hs_table h) = Some s" "sa_ok s" "sa_entries s = AList.update sid ?a (sa_entries (hs_table h))"
    "sa_closed s = sa_closed (hs_table h)"
    using sa_insert_spec [OF ok(1) assms(2)] by blast
  then show ?thesis
    using assms(1) made_insert [OF ok(2) assms(2) s(3,4)] by (simp add: server_ok_def update_conv')
qed

lemma packet_keeps:
  assumes "server_ok h"
  shows "keeps_server (server_packet ext admitted accepts now sid t payload h)"
proof -
  obtain s where s: "(case map_of (sa_entries (hs_table h)) sid of
      Some a \<Rightarrow> if scope_closed ext (hs_table h) (as_scope a) then sa_remove sid (hs_table h) else Some (hs_table h)
    | None \<Rightarrow> Some (hs_table h)) = Some s" "server_ok (h\<lparr>hs_table := s\<rparr>)"
    using sweep_spec [OF assms] by blast
  have deliver: "keeps_server (case map_of (sa_entries (hs_table g)) sid of
      None \<Rightarrow> None
    | Some a \<Rightarrow>
        if accepts then
          map_option (\<lambda>s. (g\<lparr>hs_table := s, hs_delivered := hs_delivered g @ [(as_scope a, t, payload)]\<rparr>, True))
            (sa_touch now sid (hs_table g))
        else Some (g, True))" if "server_ok g" "map_of (sa_entries (hs_table g)) sid \<noteq> None" for g
    using that by (auto intro!: touch_keeps simp: server_ok_def)
  show ?thesis
  proof (cases "map_of (sa_entries s) sid")
    case None
    obtain s' where s': "sa_insert sid \<lparr>as_scope = length (hs_made h), as_active = now\<rparr> s = Some s'"
      "server_ok (h\<lparr>hs_table := s', hs_made := hs_made h @ [(length (hs_made h), sid)]\<rparr>)" "map_of (sa_entries s') sid \<noteq> None"
      using admit_spec [OF s(2), of sid "length (hs_made h)" now] None by auto
    show ?thesis
      using None s s'(1) deliver [OF s'(2)] s'(3) unfolding server_packet_def s(1) by (cases admitted) (simp_all add: Let_def)
  next
    case (Some a)
    then show ?thesis using s(2) deliver [OF s(2)] unfolding server_packet_def s(1) by simp
  qed
qed

lemma datagram_keeps:
  assumes "server_ok h"
  shows "keeps_server (server_datagram W authenticated ext admitted accepts now b h)"
proof (cases "decode_fragment W b")
  case (Inr part)
  obtain r res where r: "re_receive (hs_reassembly h) part now = Some (r, res)" "re_ok r"
    using re_receive_ok [OF _ decode_fragment_ok [OF Inr]] assms unfolding server_ok_def by blast
  have "server_ok (h\<lparr>hs_reassembly := r\<rparr>)" using assms r(2) by (simp add: server_ok_def)
  then show ?thesis
    using assms Inr r(1) packet_keeps by (auto simp: server_datagram_def Let_def split: sum.splits option.splits)
qed (use assms in \<open>simp add: server_datagram_def\<close>)

lemma hy_send_total: "hy_send W mtu io sid counter t payload \<noteq> None"
proof (cases mtu)
  case (Some m)
  obtain r where "fragments W sid counter t payload m = Some r" using fragments_total by blast
  then show ?thesis using Some by (cases r) (simp_all add: hy_send_def)
qed (simp add: hy_send_def)

lemma reply_keeps:
  assumes "server_ok h"
  shows "keeps_server (server_reply W mtu io ext now scope sid t payload h)"
proof -
  obtain counter sent ok where send: "hy_send W mtu io sid (hs_counter h) t payload = Some (counter, sent, ok)"
    using hy_send_total [of W mtu io sid "hs_counter h" t payload] by auto
  define g where "g = h\<lparr>hs_counter := counter, hs_sent := hs_sent h @ sent\<rparr>"
  have g: "server_ok g" "hs_table g = hs_table h" using assms by (simp_all add: g_def server_ok_def)
  have "keeps_server (map_option (\<lambda>s. (g\<lparr>hs_table := s\<rparr>, True)) (sa_touch now sid (hs_table g)))"
    if "map_of (sa_entries (hs_table h)) sid = Some a" for a
    using that g by (intro touch_keeps) simp_all
  then show ?thesis
    using assms g send by (auto simp: server_reply_def Let_def g_def [symmetric])
qed

lemma expire_keeps:
  assumes "server_ok h"
  shows "\<exists>h'. server_expire retention now h = Some h' \<and> server_ok h'"
proof -
  have ok: "sa_ok (hs_table h)" "table_made (hs_made h) (hs_table h)" using assms by (simp_all add: server_ok_def)
  obtain s' where s': "sa_expire_loop retention now (hs_table h) = Some s'" "sa_ok s'"
    "\<forall>sid. map_of (sa_entries s') sid = (case map_of (sa_entries (hs_table h)) sid of None \<Rightarrow> None
       | Some a \<Rightarrow> if expired retention now a then None else Some a)"
    "set (sa_closed s') = set (sa_closed (hs_table h)) \<union>
       {as_scope a | sid a. map_of (sa_entries (hs_table h)) sid = Some a \<and> expired retention now a}"
    using expire_loop_spec [OF ok(1)] by blast
  have "table_made (hs_made h) s'" using made_expire [OF ok(2) _ s'(4)] s'(3) by blast
  then show ?thesis
    using assms s'(2) sa_expire_loop_expire [OF s'(1,2)] by (simp add: server_expire_def server_ok_def)
qed

lemma server_step_ok: "server_step W h h' \<Longrightarrow> server_ok h \<Longrightarrow> server_ok h'"
proof (induction rule: server_step.induct)
  case (sv_datagram authenticated ext admitted accepts now b h h')
  then show ?case using datagram_keeps [of h W authenticated ext admitted accepts now b] by simp
next
  case (sv_reply scope sid h mtu io ext now t payload h')
  then show ?case using reply_keeps [of h W mtu io ext now scope sid t payload] by simp
next
  case (sv_expire retention now h h')
  then show ?case using expire_keeps [of h retention now] by auto
qed

lemma server_new_ok: "server_ok server_new"
  using sa_new_ok by (simp add: server_ok_def server_new_def re_ok_new table_made_def sa_new_def)

interpretation sv: step_system "server_step W" server_new server_ok for W
  by unfold_locales (auto intro: server_new_ok server_step_ok)

section \<open>Session ids of the client\<close>

definition client_ids :: "hy_client \<Rightarrow> bool" where
  "client_ids c \<longleftrightarrow> (\<forall>x \<in> set (hc_entries c). fst x < hc_next c)"

text \<open>A registration never reuses a session id, and its id fits the wire format.\<close>

lemma register_fresh:
  assumes "client_ids c" "client_register closed gone spawned scope now c = (c', r)"
  shows "client_ids c'" "r = Registered sid \<Longrightarrow> map_of (hc_entries c) sid = None \<and> sid < 2 ^ 32 \<and> hc_next c' = sid + 1"
proof -
  have "(hc_next c, v) \<notin> set (hc_entries c)" for v using assms(1) by (force simp: client_ids_def)
  then show "r = Registered sid \<Longrightarrow> map_of (hc_entries c) sid = None \<and> sid < 2 ^ 32 \<and> hc_next c' = sid + 1"
    using assms(2) by (auto simp: client_register_def Let_def map_of_eq_None_iff split: if_splits)
  have "fst x < hc_next c + 1" if "x \<in> set (AList.update (hc_next c) a (filter P (hc_entries c)))" for x a P
    using that set_update_subset [of "hc_next c" a "filter P (hc_entries c)"] assms(1) by (fastforce simp: client_ids_def)
  moreover have "k < hc_next c" "k < Suc (hc_next c)" if "(k, v) \<in> set (hc_entries c)" for k v
    using that assms(1) by (force simp: client_ids_def)+
  ultimately show "client_ids c'"
    using assms(2) by (auto simp: client_register_def Let_def client_ids_def split: if_splits)
qed

section \<open>Properties\<close>

text \<open>
  C39. Expiry ends and is exact. On a table whose index lists every association, the expiry loop returns, none of
  its assertions fails, it drops exactly the associations that were idle for the retention time and closes exactly
  their scopes, and the next expiry it then announces lies in the future.
\<close>

theorem expire_drops_exactly_idle:
  assumes "sa_ok s"
  shows "\<exists>s'. sa_expire retention now s = Some s' \<and> sa_ok s' \<and>
    (\<forall>sid. map_of (sa_entries s') sid =
       (case map_of (sa_entries s) sid of None \<Rightarrow> None | Some a \<Rightarrow> if as_active a + retention \<le> now then None else Some a)) \<and>
    set (sa_closed s') = set (sa_closed s) \<union>
      {as_scope a | sid a. map_of (sa_entries s) sid = Some a \<and> as_active a + retention \<le> now} \<and>
    (case sa_next_expiry retention s' of None \<Rightarrow> True | Some t \<Rightarrow> now < t)"
proof -
  obtain s' where s': "sa_expire_loop retention now s = Some s'" "sa_ok s'"
    "\<forall>sid. map_of (sa_entries s') sid =
       (case map_of (sa_entries s) sid of None \<Rightarrow> None | Some a \<Rightarrow> if expired retention now a then None else Some a)"
    "set (sa_closed s') = set (sa_closed s) \<union> {as_scope a | sid a. map_of (sa_entries s) sid = Some a \<and> expired retention now a}"
    using expire_loop_spec [OF assms] by blast
  have "\<not> expired retention now a" if "map_of (sa_entries s') sid = Some a" for sid a
    using that s'(3) by (auto split: option.splits if_splits)
  then have "case sa_next_expiry retention s' of None \<Rightarrow> True | Some t \<Rightarrow> now < t" by (rule next_expiry_live [OF s'(2)])
  then show ?thesis using sa_expire_loop_expire [OF s'(1,2)] s'(2-4) unfolding expired_def by blast
qed

definition two_associations :: server_associations where
  "two_associations =
     \<lparr>sa_entries = [(7, \<lparr>as_scope = 0, as_active = 3\<rparr>), (9, \<lparr>as_scope = 1, as_active = 8\<rparr>)],
      sa_activity = [(3, 7), (8, 9)], sa_closed = []\<rparr>"

theorem expire_drops_exactly_idle_witness:
  "\<exists>s'. sa_expire 5 9 two_associations = Some s' \<and> map_of (sa_entries s') 7 = None \<and>
    map_of (sa_entries s') 9 = Some \<lparr>as_scope = 1, as_active = 8\<rparr> \<and> 0 \<in> set (sa_closed s')"
proof -
  have ok: "sa_ok two_associations" by (simp add: sa_ok_def two_associations_def)
  obtain s' where s': "sa_expire 5 9 two_associations = Some s'"
    "\<forall>sid. map_of (sa_entries s') sid = (case map_of (sa_entries two_associations) sid of None \<Rightarrow> None
       | Some a \<Rightarrow> if as_active a + 5 \<le> 9 then None else Some a)"
    "set (sa_closed s') = set (sa_closed two_associations) \<union>
      {as_scope a | sid a. map_of (sa_entries two_associations) sid = Some a \<and> as_active a + 5 \<le> 9}"
    using expire_drops_exactly_idle [OF ok, of 5 9] by blast
  have "map_of (sa_entries two_associations) 7 = Some \<lparr>as_scope = 0, as_active = 3\<rparr>" by (simp add: two_associations_def)
  then have "0 \<in> set (sa_closed s')" unfolding s'(3) by force
  then show ?thesis using s'(1) s'(2) by (simp add: two_associations_def)
qed

text \<open>
  C40. A reply only leaves through the association that made it. Whatever datagrams, replies and expirations the
  server has handled, handling a further one fails no assertion; and when a reply of an association sends
  anything, that very association is open and is the one registered under the session id it is sent with, so that
  a later association which reuses the id never carries it.
\<close>

theorem reply_stays_in_association:
  assumes "(server_step W)\<^sup>*\<^sup>* server_new h" "(scope, sid) \<in> set (hs_made h)"
  shows "(\<exists>h' ok. server_reply W mtu io ext now scope sid t payload h = Some (h', ok) \<and>
      (hs_sent h' = hs_sent h \<or>
       \<not> ext scope \<and> map_option as_scope (map_of (sa_entries (hs_table h)) sid) = Some scope)) \<and>
    server_datagram W authenticated ext admitted accepts now b h \<noteq> None \<and> server_expire retention now h \<noteq> None"
proof -
  have ok: "server_ok h" using sv.reachable_inv [OF assms(1)] .
  obtain h' r where reply: "server_reply W mtu io ext now scope sid t payload h = Some (h', r)"
    using reply_keeps [OF ok, of W mtu io ext now scope sid t payload] by (auto simp: keeps_server_def split: option.splits)
  have "hs_sent h' = hs_sent h \<or> \<not> ext scope \<and> map_option as_scope (map_of (sa_entries (hs_table h)) sid) = Some scope"
  proof (cases "scope_closed ext (hs_table h) scope")
    case True
    then show ?thesis using reply by (simp add: server_reply_def)
  next
    case False
    then show ?thesis
      using made_current [OF _ assms(2), of "hs_table h"] ok by (auto simp: scope_closed_def server_ok_def)
  qed
  moreover have "server_datagram W authenticated ext admitted accepts now b h \<noteq> None"
    using datagram_keeps [OF ok, of W authenticated ext admitted accepts now b] by (cases "server_datagram W authenticated ext admitted accepts now b h") (simp_all add: keeps_server_def)
  ultimately show ?thesis using reply expire_keeps [OF ok, of retention now] by auto
qed

definition one_fragment :: bytes where
  "one_fragment = be32 9 @ be16 4 @ [0, 1, 6, 52, 55, 58, 52, 52, 51, 8, 9]"

definition one_association :: hy_server where
  "one_association =
     (case server_datagram sample_codec True (\<lambda>_. False) True True 2 one_fragment server_new of Some (h, _) \<Rightarrow> h | None \<Rightarrow> server_new)"

lemma one_association_made:
  "server_datagram sample_codec True (\<lambda>_. False) True True 2 one_fragment server_new = Some (one_association, True)"
  "hs_made one_association = [(0, 9)]"
proof -
  have addr: "address sample_codec (Ip (V4 7) 443) = Inr [52, 55, 58, 52, 52, 51]"
    by (simp add: address_def sample_codec_def sample_show_def MAX_ADDRESS_def show_decimal.simps)
  have plain: "plain_target sample_codec (Ip (V4 7) 443)" by (simp add: plain_target_def)
  have "decode_fragment sample_codec ((be32 9 @ be16 4) @ [of_nat 0, of_nat 1] @ [6, 52, 55, 58, 52, 52, 51] @ [8, 9]) =
      Inr \<lparr>f_session = 9, f_packet = 4, f_index = 0, f_count = 1, f_target = Ip (V4 7) 443, f_payload = [8, 9]\<rparr>"
    by (rule decode_header [OF sample_varint_ok sample_addr_text_ok plain addr])
      (simp_all add: sample_codec_def quic_decode_def be_value_def MAX_DATAGRAM_def Let_def)
  then have d: "decode_fragment sample_codec one_fragment =
      Inr \<lparr>f_session = 9, f_packet = 4, f_index = 0, f_count = 1, f_target = Ip (V4 7) 443, f_payload = [8, 9]\<rparr>"
    by (simp add: one_fragment_def)
  have e: "re_expire 2 reassembly_new = Some reassembly_new"
    by (subst re_expire.simps) (simp add: reassembly_new_def)
  have r: "re_receive reassembly_new \<lparr>f_session = 9, f_packet = 4, f_index = 0, f_count = 1, f_target = Ip (V4 7) 443, f_payload = [8, 9]\<rparr> 2 =
      Some (reassembly_new, Inr (Some (9, Ip (V4 7) 443, [8, 9])))"
    by (simp add: re_receive_def e)
  note r' = r [simplified]
  have "\<exists>h. server_datagram sample_codec True (\<lambda>_. False) True True 2 one_fragment server_new = Some (h, True) \<and> hs_made h = [(0, 9)]"
    by (simp add: server_datagram_def d r' Let_def server_new_def sa_new_def server_packet_def sa_insert_def sa_remove_def bt_insert_def sa_touch_def)
  then show "server_datagram sample_codec True (\<lambda>_. False) True True 2 one_fragment server_new = Some (one_association, True)"
    "hs_made one_association = [(0, 9)]" by (auto simp: one_association_def)
qed

theorem reply_stays_in_association_witness:
  "\<exists>h' ok. server_reply sample_codec (Some 1200) (\<lambda>_. Sent) (\<lambda>_. False) 3 0 9 (Ip (V4 7) 443) [5] one_association = Some (h', ok)"
proof -
  have "(server_step sample_codec)\<^sup>*\<^sup>* server_new one_association"
    using sv_datagram [OF one_association_made(1)] by (rule r_into_rtranclp)
  moreover have "(0, 9) \<in> set (hs_made one_association)" by (simp add: one_association_made(2))
  ultimately show ?thesis using reply_stays_in_association by blast
qed

end
