(* ===== verification/Ip_Packet.thy ===== *)
theory Ip_Packet
  imports Target
begin

text \<open>
  Validation of IP packets before any transport state is allocated (\<open>parse\<close>, \<open>Parsed\<close> and the helpers
  of \<open>crates/tun/src/packet.rs\<close>). The wire accessors of smoltcp are the parameter \<open>ip_wire\<close>; the
  theory models what the code does with them: the version dispatch, IPv4 options and fragments, the
  bounded walk over IPv6 extension headers, the unicast policy and the routing keys.
\<close>

section \<open>Protocols and addresses\<close>

type_synonym protocol = byte

definition HopByHop :: protocol where "HopByHop = 0"
definition TcpProto :: protocol where "TcpProto = 6"
definition UdpProto :: protocol where "UdpProto = 17"
definition Ipv6Frag :: protocol where "Ipv6Frag = 44"
definition Icmpv6 :: protocol where "Icmpv6 = 58"
definition Ipv6Opts :: protocol where "Ipv6Opts = 60"

lemmas protocol_defs = HopByHop_def TcpProto_def UdpProto_def Ipv6Frag_def Icmpv6_def Ipv6Opts_def

type_synonym sock_addr = "ip_addr \<times> nat"

record ip_flow =
  fl_source :: sock_addr
  fl_destination :: sock_addr

text \<open>\<open>IpRepr\<close>: the address family is that of the variant.\<close>

record ip_repr =
  ip_v6 :: bool
  ip_src :: ip_addr
  ip_dst :: ip_addr
  ip_next :: protocol
  ip_len :: nat
  ip_hops :: nat

record frag_key =
  fk_v4_protocol :: "protocol option"
  fk_source :: ip_addr
  fk_destination :: ip_addr
  fk_id :: nat

record ip_fragment =
  fr_id :: nat
  fr_offset :: nat
  fr_more :: bool
  fr_prefix :: nat

datatype route_key = Flow_Route protocol ip_flow | Fragment_Route frag_key

record parsed =
  pa_ip :: ip_repr
  pa_payload :: bytes
  pa_fragment :: "ip_fragment option"

section \<open>The wire accessors\<close>

text \<open>What \<open>Ipv4Packet\<close> and \<open>Ipv6Packet\<close> read from a packet whose lengths they checked.\<close>

record v4_view =
  v4_version :: nat
  v4_checksum :: bool
  v4_source :: ip_addr
  v4_dest :: ip_addr
  v4_protocol :: protocol
  v4_payload :: bytes
  v4_hops :: nat
  v4_header :: nat
  v4_ident :: nat
  v4_offset :: nat
  v4_more :: bool

record v6_view =
  v6_source :: ip_addr
  v6_dest :: ip_addr
  v6_next :: protocol
  v6_payload :: bytes
  v6_hops :: nat

record ext_view =
  ex_next :: protocol
  ex_header :: nat
  ex_data :: bytes

datatype option_item = Malformed_Option | Known_Option | Unknown_Option bool

record ip_wire =
  w_version :: "bytes \<Rightarrow> nat option"
  w_v4 :: "bytes \<Rightarrow> v4_view option"
  w_v6 :: "bytes \<Rightarrow> v6_view option"
  w_ext :: "bytes \<Rightarrow> ext_view option"
  w_options :: "bytes \<Rightarrow> option_item list"
  w_frag :: "bytes \<Rightarrow> (nat \<times> bool \<times> nat) option"
  w_tcp :: "bytes \<Rightarrow> bool"

section \<open>Policy\<close>

definition octet0 :: "32 word \<Rightarrow> nat" where
  "octet0 a = unat a div 2 ^ 24"

text \<open>
  \<open>unicast\<close>. For IPv4, unspecified is 0.0.0.0, multicast 224.0.0.0/4 and broadcast 255.255.255.255;
  for IPv6, unspecified is zero, multicast \<open>ff00::/8\<close> and the IPv4-mapped range \<open>::ffff:0:0/96\<close>.
\<close>

fun unicast :: "ip_addr \<Rightarrow> bool" where
  "unicast (V4 a) \<longleftrightarrow> a \<noteq> 0 \<and> \<not> (224 \<le> octet0 a \<and> octet0 a < 240) \<and> unat a \<noteq> 2 ^ 32 - 1 \<and>
     octet0 a \<noteq> 0 \<and> octet0 a < 240"
| "unicast (V6 a) \<longleftrightarrow> a \<noteq> 0 \<and> unat a div 2 ^ 120 \<noteq> 255 \<and> unat a div 2 ^ 32 \<noteq> 65535"

text \<open>The loop of \<open>ipv4_options\<close>; an option's length byte is at least 2, so every round consumes.\<close>

function ipv4_options :: "bytes \<Rightarrow> bool" where
  "ipv4_options options =
     (case options of
        [] \<Rightarrow> True
      | kind # rest \<Rightarrow>
          if kind = 0 then True
          else if kind = 1 then ipv4_options rest
          else if kind = 131 \<or> kind = 137 then False
          else case rest of
            [] \<Rightarrow> False
          | len # _ \<Rightarrow>
              if unat len < 2 \<or> length options < unat len then False
              else ipv4_options (drop (unat len) options))"
  by pat_completeness auto
termination by (relation "measure length") (auto split: list.splits)

declare ipv4_options.simps [simp del]

text \<open>
  The walk over at most eight IPv6 extension headers; \<open>index\<close> counts the rounds done. The outer
  \<open>None\<close> is a panic: a failing \<open>debug_assert!\<close> or a slice out of range.
\<close>

function ipv6_extensions_loop ::
  "ip_wire \<Rightarrow> nat \<Rightarrow> nat \<Rightarrow> protocol \<Rightarrow> bytes \<Rightarrow> (protocol \<times> bytes \<times> ip_fragment option) option option" where
  "ipv6_extensions_loop W initial index protocol payload =
     (if 8 \<le> index then Some None
      else if protocol = HopByHop \<or> protocol = Ipv6Opts then
        if protocol = HopByHop \<and> index \<noteq> 0 then Some None
        else (case w_ext W payload of
          None \<Rightarrow> Some None
        | Some h \<Rightarrow>
            if list_all (\<lambda>item. item = Known_Option \<or> item = Unknown_Option True) (w_options W (ex_data h)) then
              if length payload < ex_header h + length (ex_data h) then None
              else ipv6_extensions_loop W initial (index + 1) (ex_next h)
                     (drop (ex_header h + length (ex_data h)) payload)
            else Some None)
      else if protocol = Ipv6Frag then
        if length payload < 8 then Some None
        else (case w_frag W (take 6 (drop 2 payload)) of
          None \<Rightarrow> Some None
        | Some (offset8, mf, ident) \<Rightarrow>
            let protocol = payload ! 0 in
            if \<not> (protocol = TcpProto \<or> protocol = UdpProto \<or> protocol = Icmpv6) then Some None
            else
              let offset = offset8 * 8 in
              Some (Some (protocol, drop 8 payload,
                if offset \<noteq> 0 \<or> mf
                then Some \<lparr>fr_id = ident, fr_offset = offset, fr_more = mf, fr_prefix = initial - length payload\<rparr>
                else None)))
      else if protocol = TcpProto \<or> protocol = UdpProto \<or> protocol = Icmpv6 then Some (Some (protocol, payload, None))
      else Some None)"
  by pat_completeness auto
termination by (relation "measure (\<lambda>(W, initial, index, protocol, payload). 8 - index)") auto

declare ipv6_extensions_loop.simps [simp del]

definition ipv6_extensions ::
  "ip_wire \<Rightarrow> protocol \<Rightarrow> bytes \<Rightarrow> (protocol \<times> bytes \<times> ip_fragment option) option option" where
  "ipv6_extensions W protocol payload = ipv6_extensions_loop W (length payload) 0 protocol payload"

definition complete_transport_header :: "ip_wire \<Rightarrow> protocol \<Rightarrow> bytes \<Rightarrow> bool" where
  "complete_transport_header W protocol data =
     (if protocol = TcpProto then w_tcp W data
      else if protocol = UdpProto \<or> protocol = Icmpv6 then 8 \<le> length data
      else False)"

section \<open>Parsing\<close>

definition parse_v4 :: "ip_wire \<Rightarrow> bytes \<Rightarrow> parsed option option" where
  "parse_v4 W data =
     (case w_v4 W data of
        None \<Rightarrow> Some None
      | Some p \<Rightarrow>
          if v4_version p \<noteq> 4 \<or> \<not> v4_checksum p then Some None
          else if v4_header p < 20 \<or> length data < v4_header p then None
          else if \<not> ipv4_options (rslice 20 (v4_header p) data) then Some None
          else
            let fragmented = v4_more p \<or> v4_offset p \<noteq> 0; n = length (v4_payload p) in
            if fragmented \<and> (n = 0 \<or> 65515 < v4_offset p + n \<or> (v4_more p \<and> n mod 8 \<noteq> 0)) then Some None
            else
              Some (Some
                \<lparr>pa_ip = \<lparr>ip_v6 = False, ip_src = v4_source p, ip_dst = v4_dest p, ip_next = v4_protocol p,
                          ip_len = n, ip_hops = v4_hops p\<rparr>,
                 pa_payload = v4_payload p,
                 pa_fragment =
                   (if fragmented
                    then Some \<lparr>fr_id = v4_ident p, fr_offset = v4_offset p, fr_more = v4_more p, fr_prefix = v4_header p\<rparr>
                    else None)\<rparr>))"

definition parse_v6 :: "ip_wire \<Rightarrow> bytes \<Rightarrow> parsed option option" where
  "parse_v6 W data =
     (case w_v6 W data of
        None \<Rightarrow> Some None
      | Some p \<Rightarrow>
          map_option (map_option (\<lambda>(protocol, payload, fragment).
            \<lparr>pa_ip = \<lparr>ip_v6 = True, ip_src = v6_source p, ip_dst = v6_dest p, ip_next = protocol,
                      ip_len = length payload, ip_hops = v6_hops p\<rparr>,
             pa_payload = payload, pa_fragment = fragment\<rparr>))
            (ipv6_extensions W (v6_next p) (v6_payload p)))"

definition admitted :: "ip_repr \<Rightarrow> bool" where
  "admitted ip \<longleftrightarrow> unicast (ip_src ip) \<and> unicast (ip_dst ip) \<and> ip_hops ip \<noteq> 0"

definition parse_ip :: "ip_wire \<Rightarrow> bytes \<Rightarrow> parsed option option" where
  "parse_ip W data =
     (if data = [] then Some None
      else
        map_option (\<lambda>r. case r of None \<Rightarrow> None | Some p \<Rightarrow> if admitted (pa_ip p) then Some p else None)
          (case w_version W data of
             None \<Rightarrow> Some None
           | Some v \<Rightarrow> if v = 4 then parse_v4 W data else parse_v6 W data))"

section \<open>Routing keys\<close>

definition fragment_key :: "parsed \<Rightarrow> frag_key option" where
  "fragment_key p =
     map_option (\<lambda>f.
       \<lparr>fk_v4_protocol = (if ip_v6 (pa_ip p) then None else Some (ip_next (pa_ip p))),
        fk_source = ip_src (pa_ip p), fk_destination = ip_dst (pa_ip p), fk_id = fr_id f\<rparr>) (pa_fragment p)"

definition first_route :: "parsed \<Rightarrow> route_key option" where
  "first_route p =
     (if (case pa_fragment p of None \<Rightarrow> False | Some f \<Rightarrow> fr_offset f \<noteq> 0) then None
      else if \<not> (ip_next (pa_ip p) = TcpProto \<or> ip_next (pa_ip p) = UdpProto) then None
      else case pa_payload p of
        a # b # c # d # _ \<Rightarrow>
          if u16_of c d \<noteq> 0
          then Some (Flow_Route (ip_next (pa_ip p))
                 \<lparr>fl_source = (ip_src (pa_ip p), u16_of a b), fl_destination = (ip_dst (pa_ip p), u16_of c d)\<rparr>)
          else None
      | _ \<Rightarrow> None)"

definition packet_route :: "parsed \<Rightarrow> route_key option" where
  "packet_route p = (case fragment_key p of Some k \<Rightarrow> Some (Fragment_Route k) | None \<Rightarrow> first_route p)"

definition packet_flow :: "ip_repr \<Rightarrow> nat \<Rightarrow> nat \<Rightarrow> ip_flow option" where
  "packet_flow ip source destination =
     (if destination \<noteq> 0 then Some \<lparr>fl_source = (ip_src ip, source), fl_destination = (ip_dst ip, destination)\<rparr> else None)"

section \<open>What the code relies on\<close>

text \<open>
  The documented behaviour of smoltcp's accessors: \<open>new_checked\<close> has checked that the header and the
  payload lie in the buffer, the payload follows the header, the length of an IPv4 header is a 4-bit
  field in units of four bytes, the IPv4 offset a 13-bit field in units of eight bytes, and an extension
  header lies in the bytes it was read from. That the 4-bit field is at least five is not among the
  checks of \<open>new_checked\<close>.
\<close>

definition ip_wire_ok :: "ip_wire \<Rightarrow> bool" where
  "ip_wire_ok W \<longleftrightarrow>
     (\<forall>data p. w_v4 W data = Some p \<longrightarrow> v4_header p \<le> 60 \<and>
        v4_payload p = rslice (v4_header p) (v4_header p + length (v4_payload p)) data \<and>
        v4_header p + length (v4_payload p) \<le> length data \<and> v4_header p + length (v4_payload p) \<le> 65535 \<and>
        v4_offset p \<le> 65528 \<and> v4_offset p mod 8 = 0) \<and>
     (\<forall>data p. w_v6 W data = Some p \<longrightarrow> length (v6_payload p) \<le> 65535 \<and> 40 + length (v6_payload p) \<le> length data \<and>
        v6_payload p = rslice 40 (40 + length (v6_payload p)) data) \<and>
     (\<forall>payload h. w_ext W payload = Some h \<longrightarrow> ex_header h + length (ex_data h) \<le> length payload) \<and>
     (\<forall>header off mf ident. w_frag W header = Some (off, mf, ident) \<longrightarrow> off \<le> 8191)"

text \<open>An IPv4 packet whose header length field is below five and whose checksum over that header holds.\<close>

definition short_header :: "ip_wire \<Rightarrow> bytes \<Rightarrow> bool" where
  "short_header W data \<longleftrightarrow> data \<noteq> [] \<and> w_version W data = Some 4 \<and>
     (case w_v4 W data of None \<Rightarrow> False | Some p \<Rightarrow> v4_version p = 4 \<and> v4_checksum p \<and> v4_header p < 20)"

text \<open>What every later stage may assume of a parsed packet.\<close>

definition fragment_ok :: "ip_fragment \<Rightarrow> bool" where
  "fragment_ok f \<longleftrightarrow> fr_prefix f \<le> 65535 \<and> fr_offset f \<le> 65528 \<and> fr_offset f mod 8 = 0"

definition parsed_ok :: "parsed \<Rightarrow> bool" where
  "parsed_ok p \<longleftrightarrow> admitted (pa_ip p) \<and> ip_len (pa_ip p) = length (pa_payload p) \<and> length (pa_payload p) \<le> 65535 \<and>
     (case pa_fragment p of None \<Rightarrow> True | Some f \<Rightarrow> fragment_ok f \<and> (fr_more f \<or> fr_offset f \<noteq> 0))"

text \<open>
  The result of the walk over the rest \<open>payload\<close> of a packet with \<open>initial\<close> bytes behind its fixed header:
  a suffix, and for a fragment the prefix is the position of the fragment header in front of it.
\<close>

definition fragment_at :: "ip_wire \<Rightarrow> nat \<Rightarrow> bytes \<Rightarrow> nat \<Rightarrow> protocol \<Rightarrow> ip_fragment option \<Rightarrow> bool" where
  "fragment_at W initial payload j q f \<longleftrightarrow>
     (case f of None \<Rightarrow> True
      | Some f \<Rightarrow> fragment_ok f \<and> (fr_more f \<or> fr_offset f \<noteq> 0) \<and> 8 \<le> j \<and>
          fr_prefix f + length payload + 8 = initial + j \<and> payload ! (j - 8) = q \<and>
          w_frag W (rslice (j - 6) j payload) = Some (fr_offset f div 8, fr_more f, fr_id f))"

fun walk_ok :: "ip_wire \<Rightarrow> nat \<Rightarrow> bytes \<Rightarrow> (protocol \<times> bytes \<times> ip_fragment option) option \<Rightarrow> bool" where
  "walk_ok W initial payload None = True"
| "walk_ok W initial payload (Some (q, rest, f)) \<longleftrightarrow> (q = TcpProto \<or> q = UdpProto \<or> q = Icmpv6) \<and>
     (\<exists>j. j \<le> length payload \<and> rest = drop j payload \<and> fragment_at W initial payload j q f)"

lemma fragment_at_drop:
  assumes "fragment_at W initial (drop m payload) j q f" "m \<le> length payload" "j \<le> length payload - m"
  shows "fragment_at W initial payload (m + j) q f"
proof (cases f)
  case (Some g)
  have "8 \<le> j" using assms(1) Some by (simp add: fragment_at_def)
  then have "rslice (j - 6) j (drop m payload) = rslice (m + j - 6) (m + j) payload"
    "drop m payload ! (j - 8) = payload ! (m + j - 8)" using assms(2) by (simp_all add: rslice_def add.commute)
  moreover have "fr_prefix g + (length payload - m) + 8 = initial + j"
    using assms(1) Some by (simp add: fragment_at_def del: Nat.add_diff_assoc)
  then have "fr_prefix g + length payload + 8 = initial + (m + j)" using assms(2) by linarith
  ultimately show ?thesis using assms(1) Some \<open>8 \<le> j\<close> by (simp add: fragment_at_def)
qed (simp add: fragment_at_def)

lemma walk_ok_drop:
  assumes "walk_ok W initial (drop m payload) r" "m \<le> length payload"
  shows "walk_ok W initial payload r"
proof (cases r)
  case (Some x)
  obtain q rest f where x: "x = (q, rest, f)" by (cases x)
  obtain j where j: "j \<le> length payload - m" "rest = drop (m + j) payload" "q = TcpProto \<or> q = UdpProto \<or> q = Icmpv6"
    "fragment_at W initial (drop m payload) j q f"
    using assms(1) unfolding Some x by (auto simp: add.commute)
  have "m + j \<le> length payload" using j(1) assms(2) by simp
  with j fragment_at_drop [OF j(4) assms(2) j(1)] show ?thesis unfolding Some x by auto
qed simp

lemma ipv6_extensions_loop_ok:
  assumes "ip_wire_ok W" "length payload \<le> initial" "initial \<le> 65535"
  shows "\<exists>r. ipv6_extensions_loop W initial index protocol payload = Some r \<and> walk_ok W initial payload r"
  using assms(2)
proof (induction "8 - index" arbitrary: index protocol payload rule: less_induct)
  case less
  note step = ipv6_extensions_loop.simps [of W initial index protocol payload]
  consider (stop) "8 \<le> index"
    | (ext) "index < 8" "protocol = HopByHop \<or> protocol = Ipv6Opts"
    | (frag) "index < 8" "protocol = Ipv6Frag"
    | (rest) "index < 8" "protocol \<notin> {HopByHop, Ipv6Opts, Ipv6Frag}" by (cases "index < 8") auto
  then show ?case
  proof cases
    case stop
    then show ?thesis by (simp add: step)
  next
    case rest
    then have "ipv6_extensions_loop W initial index protocol payload =
        Some (if protocol = TcpProto \<or> protocol = UdpProto \<or> protocol = Icmpv6 then Some (protocol, payload, None) else None)"
      by (simp add: step)
    moreover have "walk_ok W initial payload (Some (protocol, payload, None))"
      if "protocol = TcpProto \<or> protocol = UdpProto \<or> protocol = Icmpv6"
      using that by (auto simp: fragment_at_def intro: exI [of _ 0])
    ultimately show ?thesis by simp
  next
    case ext
    show ?thesis
    proof (cases "w_ext W payload")
      case None
      with ext show ?thesis by (simp add: step)
    next
      case (Some h)
      with assms(1) have fits: "ex_header h + length (ex_data h) \<le> length payload" unfolding ip_wire_ok_def by blast
      let ?next = "drop (ex_header h + length (ex_data h)) payload"
      have closer: "8 - (index + 1) < 8 - index" and shorter: "length ?next \<le> initial"
        using ext less.prems by auto
      obtain r where "ipv6_extensions_loop W initial (index + 1) (ex_next h) ?next = Some r" "walk_ok W initial ?next r"
        using less.hyps [OF closer shorter, of "ex_next h"] by blast
      moreover from this(2) fits have "walk_ok W initial payload r" by (rule walk_ok_drop)
      ultimately show ?thesis using Some ext fits by (simp add: step)
    qed
  next
    case frag
    have ne: "protocol \<noteq> HopByHop" "protocol \<noteq> Ipv6Opts" using frag by (simp_all add: protocol_defs)
    show ?thesis
    proof (cases "w_frag W (take 6 (drop 2 payload))")
      case None
      with frag ne show ?thesis by (simp add: ipv6_extensions_loop.simps [of W initial index Ipv6Frag payload])
    next
      case (Some x)
      obtain off mf ident where x: "x = (off, mf, ident)" by (cases x)
      with Some assms(1) have off: "off \<le> 8191" unfolding ip_wire_ok_def by blast
      define f where "f = (if off * 8 \<noteq> 0 \<or> mf
        then Some \<lparr>fr_id = ident, fr_offset = off * 8, fr_more = mf, fr_prefix = initial - length payload\<rparr> else None)"
      have eq: "ipv6_extensions_loop W initial index protocol payload =
          Some (if 8 \<le> length payload \<and> (payload ! 0 = TcpProto \<or> payload ! 0 = UdpProto \<or> payload ! 0 = Icmpv6)
            then Some (payload ! 0, drop 8 payload, f) else None)"
        using Some x frag ne by (simp add: ipv6_extensions_loop.simps [of W initial index Ipv6Frag payload] Let_def f_def)
      have "initial - length payload \<le> 65535" using assms(3) by simp
      then have "fragment_at W initial payload 8 (payload ! 0) f" if "8 \<le> length payload"
        using that off Some x less.prems by (simp add: fragment_at_def fragment_ok_def f_def rslice_def)
      then show ?thesis unfolding eq by (auto intro: exI [of _ 8])
    qed
  qed
qed

lemma ipv6_extensions_ok:
  assumes "ip_wire_ok W" "length payload \<le> 65535"
  obtains r where "ipv6_extensions W protocol payload = Some r" "walk_ok W (length payload) payload r"
  using ipv6_extensions_loop_ok [OF assms(1) order_refl assms(2), of 0 protocol] that
  by (auto simp: ipv6_extensions_def)

section \<open>The grammar of IPv4 options\<close>

text \<open>Padding, or an option with its kind and data; the list may end early with a zero byte.\<close>

datatype v4_option = Nop | Opt byte bytes

fun option_bytes :: "v4_option \<Rightarrow> bytes" where
  "option_bytes Nop = [1]"
| "option_bytes (Opt kind data) = kind # of_nat (length data + 2) # data"

fun option_allowed :: "v4_option \<Rightarrow> bool" where
  "option_allowed Nop = True"
| "option_allowed (Opt kind data) \<longleftrightarrow> kind \<notin> {0, 1, 131, 137} \<and> length data \<le> 253"

definition options_grammar :: "bytes \<Rightarrow> bool" where
  "options_grammar b \<longleftrightarrow> (\<exists>opts rest. b = concat (map option_bytes opts) @ rest \<and> list_all option_allowed opts \<and>
     (rest = [] \<or> hd rest = 0))"

lemma options_grammar_Cons:
  assumes "option_allowed opt" "options_grammar b"
  shows "options_grammar (option_bytes opt @ b)"
proof -
  obtain opts rest where o: "b = concat (map option_bytes opts) @ rest" "list_all option_allowed opts"
    "rest = [] \<or> hd rest = 0" using assms(2) by (auto simp: options_grammar_def)
  show ?thesis unfolding options_grammar_def
    by (rule exI [of _ "opt # opts"], rule exI [of _ rest]) (use o assms(1) in simp)
qed

lemma ipv4_options_sound: "ipv4_options b \<Longrightarrow> options_grammar b"
proof (induction b rule: ipv4_options.induct)
  case (1 b)
  show ?case
  proof (cases b)
    case Nil
    then show ?thesis by (auto simp: options_grammar_def intro: exI [of _ "[]"])
  next
    case (Cons kind rest)
    consider (stop) "kind = 0" | (nop) "kind = 1" | (opt) "kind \<notin> {0, 1}" by blast
    then show ?thesis
    proof cases
      case stop
      with Cons show ?thesis unfolding options_grammar_def by (intro exI [of _ "[]"] exI [of _ b]) simp
    next
      case nop
      with Cons "1.prems" have "ipv4_options rest" by (simp add: ipv4_options.simps [of "1 # rest"])
      with "1.IH"(1) Cons nop have "options_grammar rest" by simp
      from options_grammar_Cons [OF _ this, of Nop] Cons nop show ?thesis by simp
    next
      case opt
      with Cons "1.prems" obtain len tail where rest: "rest = len # tail" and kind: "kind \<noteq> 131" "kind \<noteq> 137"
        and len: "2 \<le> unat len" "unat len \<le> length b" and more: "ipv4_options (drop (unat len) b)"
        by (auto simp: ipv4_options.simps [of "kind # rest"] split: list.splits if_splits)
      have "options_grammar (drop (unat len) b)"
        using "1.IH"(2) [OF Cons _ _ _ rest] opt kind len more by auto
      moreover have "option_allowed (Opt kind (take (unat len - 2) tail))"
        using opt kind unat_byte_less [of len] by simp
      ultimately have g: "options_grammar (option_bytes (Opt kind (take (unat len - 2) tail)) @ drop (unat len) b)"
        by (rule options_grammar_Cons [rotated])
      have "length (take (unat len - 2) tail) + 2 = unat len" using len Cons rest by simp
      then have "option_bytes (Opt kind (take (unat len - 2) tail)) = kind # len # take (unat len - 2) tail"
        by (simp only: option_bytes.simps) simp
      moreover have "drop (unat len) b = drop (unat len - 2) tail"
        using len(1) Cons rest by (simp add: drop_Cons numeral_2_eq_2 split: nat.splits)
      ultimately show ?thesis using g Cons rest by simp
    qed
  qed
qed

lemma ipv4_options_step: "option_allowed opt \<Longrightarrow> ipv4_options (option_bytes opt @ b) = ipv4_options b"
proof (cases opt)
  case Nop
  then show ?thesis by (simp add: ipv4_options.simps [of "1 # b"])
next
  case (Opt kind data)
  assume "option_allowed opt"
  with Opt have k: "kind \<noteq> 0" "kind \<noteq> 1" "kind \<noteq> 131" "kind \<noteq> 137" "length data \<le> 253" by auto
  have "unat (of_nat (length data + 2) :: byte) = length data + 2"
    using k(5) unat_of_nat_byte [of "length data + 2"] by simp
  with Opt k show ?thesis by (simp add: ipv4_options.simps [of "kind # _"])
qed

text \<open>
  C24. The option filter accepts exactly the well-formed option lists without source routing: a
  sequence of padding bytes and options whose lengths fit, none of them loose or strict source route,
  ended by the header or by an end-of-list byte.
\<close>

theorem ipv4_options_grammar: "ipv4_options b \<longleftrightarrow> options_grammar b"
proof
  assume "options_grammar b"
  then obtain opts rest where o: "b = concat (map option_bytes opts) @ rest" "list_all option_allowed opts"
    "rest = [] \<or> hd rest = 0" by (auto simp: options_grammar_def)
  have "ipv4_options (concat (map option_bytes opts) @ rest)"
    using o(2,3)
  proof (induction opts)
    case Nil
    then show ?case by (cases rest) (auto simp: ipv4_options.simps [of "_ # _"] ipv4_options.simps [of "[]"])
  qed (simp add: ipv4_options_step)
  with o show "ipv4_options b" by simp
qed (rule ipv4_options_sound)

section \<open>Parsed packets\<close>

text \<open>
  Where the parts of an admitted packet lie in the packet. The payload is a slice of the packet. For
  IPv4 it follows a header with well-formed options, and a fragment is not empty, ends within a
  datagram and, unless it is the last, is a multiple of eight bytes. For IPv6 the protocol is one the
  endpoint carries, and the payload of a fragment follows a fragment header at the recorded prefix,
  whose fields are those of the fragment and whose next header is the protocol.
\<close>

definition located :: "ip_wire \<Rightarrow> bytes \<Rightarrow> parsed \<Rightarrow> bool" where
  "located W data p \<longleftrightarrow> (\<exists>k. k + length (pa_payload p) \<le> length data \<and>
     pa_payload p = rslice k (k + length (pa_payload p)) data \<and>
     (if ip_v6 (pa_ip p) then
        40 \<le> k \<and> (ip_next (pa_ip p) = TcpProto \<or> ip_next (pa_ip p) = UdpProto \<or> ip_next (pa_ip p) = Icmpv6) \<and>
        (case pa_fragment p of None \<Rightarrow> True
         | Some f \<Rightarrow> k = 40 + fr_prefix f + 8 \<and> data ! (k - 8) = ip_next (pa_ip p) \<and>
             w_frag W (rslice (k - 6) k data) = Some (fr_offset f div 8, fr_more f, fr_id f))
      else
        20 \<le> k \<and> options_grammar (rslice 20 k data) \<and>
        (case pa_fragment p of None \<Rightarrow> True
         | Some f \<Rightarrow> k = fr_prefix f \<and> pa_payload p \<noteq> [] \<and> fr_offset f + length (pa_payload p) \<le> 65515 \<and>
             (fr_more f \<longrightarrow> length (pa_payload p) mod 8 = 0))))"

lemma parse_v4_ok:
  assumes "ip_wire_ok W"
  shows "parse_v4 W data = None \<longleftrightarrow>
      (case w_v4 W data of None \<Rightarrow> False | Some p \<Rightarrow> v4_version p = 4 \<and> v4_checksum p \<and> v4_header p < 20)"
    and "parse_v4 W data = Some (Some p) \<Longrightarrow> admitted (pa_ip p) \<Longrightarrow> parsed_ok p \<and> located W data p"
proof -
  have laws: "v4_header v \<le> 60" "v4_payload v = rslice (v4_header v) (v4_header v + length (v4_payload v)) data"
    "v4_header v + length (v4_payload v) \<le> length data" "v4_header v + length (v4_payload v) \<le> 65535"
    "v4_offset v \<le> 65528" "v4_offset v mod 8 = 0" if "w_v4 W data = Some v" for v
    using assms that unfolding ip_wire_ok_def by blast+
  show "parse_v4 W data = None \<longleftrightarrow>
      (case w_v4 W data of None \<Rightarrow> False | Some p \<Rightarrow> v4_version p = 4 \<and> v4_checksum p \<and> v4_header p < 20)"
    using laws(3) by (force simp: parse_v4_def Let_def split: option.splits)
  assume p: "parse_v4 W data = Some (Some p)" "admitted (pa_ip p)"
  then obtain v where v: "w_v4 W data = Some v" "20 \<le> v4_header v" "ipv4_options (rslice 20 (v4_header v) data)"
    by (auto simp: parse_v4_def Let_def split: option.splits if_splits)
  note v_ok = laws [OF v(1)]
  have "parsed_ok p" using p v v_ok by (auto simp: parse_v4_def Let_def parsed_ok_def fragment_ok_def split: if_splits)
  moreover have "located W data p" unfolding located_def
    by (rule exI [of _ "v4_header v"])
      (use p(1) v v_ok(2,3) ipv4_options_sound [OF v(3)] in \<open>auto simp: parse_v4_def Let_def split: if_splits\<close>)
  ultimately show "parsed_ok p \<and> located W data p" by simp
qed

lemma parse_v6_ok:
  assumes "ip_wire_ok W"
  shows "parse_v6 W data \<noteq> None"
    and "parse_v6 W data = Some (Some p) \<Longrightarrow> admitted (pa_ip p) \<Longrightarrow> parsed_ok p \<and> located W data p"
proof -
  have laws: "length (v6_payload v) \<le> 65535" "40 + length (v6_payload v) \<le> length data"
    "v6_payload v = rslice 40 (40 + length (v6_payload v)) data" if "w_v6 W data = Some v" for v
    using assms that unfolding ip_wire_ok_def by blast+
  have walk: "\<exists>r. ipv6_extensions W (v6_next v) (v6_payload v) = Some r \<and> walk_ok W (length (v6_payload v)) (v6_payload v) r"
    if "w_v6 W data = Some v" for v
    by (rule ipv6_extensions_ok [OF assms laws(1) [OF that], of "v6_next v"]) blast
  show "parse_v6 W data \<noteq> None" using walk by (auto simp: parse_v6_def split: option.splits)
  assume p: "parse_v6 W data = Some (Some p)" "admitted (pa_ip p)"
  then obtain v q rest f where v: "w_v6 W data = Some v" "ipv6_extensions W (v6_next v) (v6_payload v) = Some (Some (q, rest, f))"
    "pa_payload p = rest" "pa_fragment p = f" "ip_next (pa_ip p) = q" "ip_v6 (pa_ip p)" "ip_len (pa_ip p) = length rest"
    by (auto simp: parse_v6_def split: option.splits)
  from walk [OF v(1)] v(2) obtain j where j: "q = TcpProto \<or> q = UdpProto \<or> q = Icmpv6" "j \<le> length (v6_payload v)"
    "rest = drop j (v6_payload v)" "fragment_at W (length (v6_payload v)) (v6_payload v) j q f" by auto
  note v_ok = laws [OF v(1)]
  define n where "n = length (v6_payload v)"
  have n: "40 + n \<le> length data" "v6_payload v = rslice 40 (40 + n) data" "j \<le> n" using v_ok j(2) by (simp_all add: n_def)
  have rest: "rest = rslice (40 + j) (40 + j + length rest) data" "40 + j + length rest \<le> length data"
    unfolding j(3) using n(1,3) by (subst (1 2) n(2), simp add: rslice_def drop_take add.commute, simp add: n_def)
  have "v6_payload v ! (j - 8) = data ! (40 + j - 8)" "rslice (j - 6) j (v6_payload v) = rslice (40 + j - 6) (40 + j) data"
    if "8 \<le> j"
    unfolding n(2) using that n(1,3) by (simp_all add: rslice_def drop_take add.commute)
  then have "case f of None \<Rightarrow> True
     | Some f \<Rightarrow> 40 + j = 40 + fr_prefix f + 8 \<and> data ! (40 + j - 8) = q \<and>
         w_frag W (rslice (40 + j - 6) (40 + j) data) = Some (fr_offset f div 8, fr_more f, fr_id f)"
    using j(4) by (auto simp: fragment_at_def split: option.splits)
  then have "located W data p" unfolding located_def v(3-5)
    by (intro exI [of _ "40 + j"]) (use v(6) rest j(1) in \<open>simp only: if_True simp_thms le_add1\<close>)
  moreover have "parsed_ok p" using p(2) v j v_ok by (auto simp: parsed_ok_def fragment_at_def split: option.splits)
  ultimately show "parsed_ok p \<and> located W data p" by simp
qed

lemma parse_ip_ok:
  assumes "ip_wire_ok W"
  shows "parse_ip W data = None \<longleftrightarrow> short_header W data"
    and "parse_ip W data = Some (Some p) \<Longrightarrow> parsed_ok p \<and> located W data p"
proof -
  show "parse_ip W data = None \<longleftrightarrow> short_header W data"
    using parse_v4_ok(1) [OF assms, of data] parse_v6_ok(1) [OF assms, of data]
    by (auto simp: parse_ip_def short_header_def split: option.splits)
  assume "parse_ip W data = Some (Some p)"
  then have "parse_v4 W data = Some (Some p) \<or> parse_v6 W data = Some (Some p)" "admitted (pa_ip p)"
    by (auto simp: parse_ip_def split: option.splits if_splits)
  then show "parsed_ok p \<and> located W data p"
    using parse_v4_ok(2) [OF assms] parse_v6_ok(2) [OF assms] by blast
qed

section \<open>A wire parser\<close>

text \<open>A concrete instance of the accessors, which makes the documented checks and reads the fields from their
  positions in the headers.\<close>

fun ones_sum :: "bytes \<Rightarrow> nat" where
  "ones_sum (a # b # rest) = u16_of a b + ones_sum rest"
| "ones_sum [a] = u16_of a 0"
| "ones_sum [] = 0"

fun word_of_bytes :: "bytes \<Rightarrow> nat" where
  "word_of_bytes b = foldl (\<lambda>n x. n * 256 + unat x) 0 b"

definition sample_v4 :: "bytes \<Rightarrow> v4_view option" where
  "sample_v4 d =
     (let h = (unat (d ! 0) mod 16) * 4; n = u16_of (d ! 2) (d ! 3); field = u16_of (d ! 6) (d ! 7) in
      if length d < 20 \<or> length d < n \<or> n < h then None
      else Some \<lparr>v4_version = unat (d ! 0) div 16, v4_checksum = ones_sum (take h d) mod 65535 = 0,
        v4_source = V4 (of_nat (word_of_bytes (rslice 12 16 d))), v4_dest = V4 (of_nat (word_of_bytes (rslice 16 20 d))),
        v4_protocol = d ! 9, v4_payload = rslice h n d, v4_hops = unat (d ! 8), v4_header = h,
        v4_ident = u16_of (d ! 4) (d ! 5), v4_offset = (field mod 8192) * 8, v4_more = field div 8192 mod 2 = 1\<rparr>)"

definition sample_v6 :: "bytes \<Rightarrow> v6_view option" where
  "sample_v6 d =
     (let n = u16_of (d ! 4) (d ! 5) in
      if length d < 40 \<or> length d < 40 + n then None
      else Some \<lparr>v6_source = V6 (of_nat (word_of_bytes (rslice 8 24 d))), v6_dest = V6 (of_nat (word_of_bytes (rslice 24 40 d))),
        v6_next = d ! 6, v6_payload = rslice 40 (40 + n) d, v6_hops = unat (d ! 7)\<rparr>)"

definition sample_ext :: "bytes \<Rightarrow> ext_view option" where
  "sample_ext d =
     (let n = unat (d ! 1) * 8 + 8 in
      if length d < 2 \<or> length d < n then None
      else Some \<lparr>ex_next = d ! 0, ex_header = 2, ex_data = rslice 2 n d\<rparr>)"

definition sample_wire :: ip_wire where
  "sample_wire =
     \<lparr>w_version = (\<lambda>d. let v = unat (d ! 0) div 16 in if v = 4 \<or> v = 6 then Some v else None),
      w_v4 = sample_v4, w_v6 = sample_v6, w_ext = sample_ext,
      w_options = (\<lambda>d. if list_all (\<lambda>b. b = 0) d then [Known_Option] else [Malformed_Option]),
      w_frag = (\<lambda>d. let field = u16_of (d ! 0) (d ! 1) in
        if length d < 6 then None
        else Some (field div 8, field mod 2 = 1, u32_of (d ! 2) (d ! 3) (d ! 4) (d ! 5))),
      w_tcp = (\<lambda>d. 20 \<le> length d \<and> 20 \<le> (unat (d ! 12) div 16) * 4 \<and> (unat (d ! 12) div 16) * 4 \<le> length d)\<rparr>"

lemma sample_wire_ok: "ip_wire_ok sample_wire"
proof -
  have v4: "v4_header p \<le> 60 \<and> v4_payload p = rslice (v4_header p) (v4_header p + length (v4_payload p)) d \<and>
      v4_header p + length (v4_payload p) \<le> length d \<and>
      v4_header p + length (v4_payload p) \<le> 65535 \<and> v4_offset p \<le> 65528 \<and> v4_offset p mod 8 = 0"
    if "sample_v4 d = Some p" for d p
  proof -
    have "u16_of (d ! 2) (d ! 3) < 65536" "u16_of (d ! 6) (d ! 7) mod 8192 < 8192" "unat (d ! 0) mod 16 < 16"
      by (simp_all add: u16_of_less)
    then show ?thesis using that by (auto simp: sample_v4_def Let_def split: if_splits)
  qed
  have v6: "length (v6_payload p) \<le> 65535 \<and> 40 + length (v6_payload p) \<le> length d \<and>
      v6_payload p = rslice 40 (40 + length (v6_payload p)) d" if "sample_v6 d = Some p" for d p
    using that u16_of_less [of "d ! 4" "d ! 5"] by (auto simp: sample_v6_def Let_def split: if_splits)
  have ext: "ex_header h + length (ex_data h) \<le> length d" if "sample_ext d = Some h" for d h
    using that by (auto simp: sample_ext_def Let_def split: if_splits)
  have frag: "off \<le> 8191" if "w_frag sample_wire d = Some (off, mf, ident)" for d off mf ident
    using that u16_of_less [of "d ! 0" "d ! 1"] by (auto simp: sample_wire_def Let_def split: if_splits)
  have eqs: "w_v4 sample_wire = sample_v4" "w_v6 sample_wire = sample_v6" "w_ext sample_wire = sample_ext"
    by (simp_all add: sample_wire_def)
  show ?thesis unfolding ip_wire_ok_def eqs
    by (rule conjI [OF _ conjI [OF _ conjI]]; intro allI impI; erule v4 v6 ext frag)
qed

text \<open>
  C23. What \<open>parse\<close> does with any bytes from the device, given only the documented checks of the
  accessors. It panics exactly on an IPv4 packet whose header length field is below five and whose
  checksum over that shorter header holds: nothing excludes it before the options are sliced. On all
  other bytes it returns. An admitted packet has unicast addresses and hops left, the length in its
  representation is that of its payload, and its parts lie in the packet as \<open>located\<close> says: the payload
  is a slice of the packet, for IPv4 behind well-formed options and for IPv6 behind the fixed header, and
  the prefix of a fragment is the exact number of bytes in front of it, for IPv6 those between the fixed
  header and the fragment header.
\<close>

theorem parse_locates_payload:
  assumes "ip_wire_ok W"
  shows "(parse_ip W data = None \<longleftrightarrow> short_header W data) \<and>
    (\<forall>p. parse_ip W data = Some (Some p) \<longrightarrow> located W data p \<and>
       unicast (ip_src (pa_ip p)) \<and> unicast (ip_dst (pa_ip p)) \<and> ip_hops (pa_ip p) \<noteq> 0 \<and>
       ip_len (pa_ip p) = length (pa_payload p))"
  using parse_ip_ok [OF assms, of data] by (auto simp: parsed_ok_def admitted_def)

text \<open>A fragment of an IPv4 UDP datagram from 10.0.0.1 to 10.0.0.2.\<close>

definition sample_packet :: bytes where
  "sample_packet = [69, 0, 0, 28, 0, 7, 32, 0, 64, 17, 70, 200, 10, 0, 0, 1, 10, 0, 0, 2, 0, 5, 0, 9, 0, 10, 0, 0]"

lemma sample_packet_view: "sample_v4 sample_packet = Some \<lparr>v4_version = 4, v4_checksum = True, v4_source = V4 167772161, v4_dest = V4 167772162,
      v4_protocol = 17, v4_payload = [0, 5, 0, 9, 0, 10, 0, 0], v4_hops = 64, v4_header = 20, v4_ident = 7,
      v4_offset = 0, v4_more = True\<rparr>"
  by (simp add: sample_v4_def sample_packet_def u16_of_def Let_def rslice_def)

text \<open>A packet of 20 bytes whose header length field is two; the checksum over its first eight bytes holds.\<close>

definition short_packet :: bytes where
  "short_packet = [66, 0, 0, 20, 189, 235, 0, 0, 64, 17, 0, 0, 10, 0, 0, 1, 10, 0, 0, 2]"

lemma short_packet_short: "short_header sample_wire short_packet"
  by (simp add: short_header_def sample_wire_def sample_v4_def short_packet_def u16_of_def Let_def rslice_def)

lemma sample_packet_not_short: "\<not> short_header sample_wire sample_packet"
proof -
  have "w_v4 sample_wire = sample_v4" by (simp add: sample_wire_def)
  then show ?thesis by (simp add: short_header_def sample_packet_view)
qed

theorem parse_locates_payload_witness:
  "parse_ip sample_wire short_packet = None \<and>
    (\<exists>p f. parse_ip sample_wire sample_packet = Some (Some p) \<and> pa_fragment p = Some f \<and> located sample_wire sample_packet p \<and>
      unicast (ip_src (pa_ip p)) \<and> unicast (ip_dst (pa_ip p)) \<and> ip_hops (pa_ip p) \<noteq> 0 \<and> ip_len (pa_ip p) = length (pa_payload p))"
proof -
  have "w_v4 sample_wire = sample_v4" "length sample_packet = 28" "sample_packet \<noteq> []"
    "w_version sample_wire sample_packet = Some 4" by (simp_all add: sample_wire_def sample_packet_def)
  with sample_packet_view have "case parse_ip sample_wire sample_packet of Some (Some p) \<Rightarrow> pa_fragment p \<noteq> None | _ \<Rightarrow> False"
    by (simp add: parse_ip_def parse_v4_def admitted_def octet0_def ipv4_options.simps [of "[]"])
  then obtain p f where p: "parse_ip sample_wire sample_packet = Some (Some p)" "pa_fragment p = Some f"
    by (auto split: option.splits)
  have "parse_ip sample_wire short_packet = None"
    using parse_locates_payload [OF sample_wire_ok, THEN conjunct1] short_packet_short by (rule iffD2)
  then show ?thesis
    using parse_locates_payload [OF sample_wire_ok, THEN conjunct2, rule_format, OF p(1)] p
    by (intro conjI exI [of _ p] exI [of _ f]) (simp_all only: simp_thms)
qed

end
