(* ===== verification/Ip_Limits.thy ===== *)
theory Ip_Limits
  imports Capacity
begin

text \<open>
  The shared budget of incomplete IP datagrams (\<open>Limits\<close> and \<open>Lease\<close> of
  \<open>crates/tun/src/reassembly.rs\<close>). A lease is the number of bytes it holds; its owner passes it to
  the operations. The pressure channel carries no data, so its state is the number of signals sent.
  The locale \<open>byte_budget\<close> is what the owners of leases rely on: the counter is always the sum of
  what the leases hold.
\<close>

section \<open>Operations\<close>

record limits =
  lm_used :: nat
  lm_capacity :: capacity
  lm_pressure :: nat

definition limits_new :: "nat \<Rightarrow> instant \<Rightarrow> limits" where
  "limits_new initial now = \<lparr>lm_used = 0, lm_capacity = cap_new initial now, lm_pressure = 0\<rparr>"

definition limits_default :: "instant \<Rightarrow> limits" where
  "limits_default now = limits_new (4 * INITIAL_BYTES) now"

definition needs_headroom :: "limits \<Rightarrow> instant \<Rightarrow> limits \<times> bool" where
  "needs_headroom l now =
     (let (cap, target) = cap_target_at (lm_capacity l) now
      in (l\<lparr>lm_capacity := cap\<rparr>, target - target div 4 < lm_used l))"

text \<open>\<open>Lease::resize\<close> of a lease that holds \<open>held\<close> bytes; \<open>None\<close> is the failing \<open>debug_assert!\<close>.\<close>

definition lease_resize :: "limits \<Rightarrow> nat \<Rightarrow> nat \<Rightarrow> instant \<Rightarrow> (limits \<times> nat \<times> bool) option" where
  "lease_resize l held bytes now =
     (if lm_used l < held then None
      else case checked_add (lm_used l - held) bytes of
        None \<Rightarrow> Some (l, held, False)
      | Some whole \<Rightarrow>
          if held < bytes then
            let (cap, target) = cap_target_at (lm_capacity l) now; l = l\<lparr>lm_capacity := cap\<rparr> in
            if target < whole then Some (l\<lparr>lm_pressure := lm_pressure l + 1\<rparr>, held, False)
            else Some (l\<lparr>lm_used := whole\<rparr>, bytes, True)
          else Some (l\<lparr>lm_used := whole\<rparr>, bytes, True))"

definition lease_drop :: "limits \<Rightarrow> nat \<Rightarrow> limits option" where
  "lease_drop l held = (if lm_used l < held then None else Some (l\<lparr>lm_used := lm_used l - held\<rparr>))"

text \<open>\<open>reserve\<close> resizes a fresh lease and drops it when the resize is refused.\<close>

definition lease_reserve :: "limits \<Rightarrow> nat \<Rightarrow> instant \<Rightarrow> (limits \<times> nat option) option" where
  "lease_reserve l bytes now =
     Option.bind (lease_resize l 0 bytes now) (\<lambda>(l, held, ok).
       if ok then Some (l, Some held)
       else map_option (\<lambda>l. (l, None)) (lease_drop l held))"

text \<open>Dropping several leases one after the other.\<close>

fun lease_drop_all :: "limits \<Rightarrow> nat list \<Rightarrow> limits option" where
  "lease_drop_all l [] = Some l"
| "lease_drop_all l (h # hs) = Option.bind (lease_drop l h) (\<lambda>l. lease_drop_all l hs)"

definition lease_complete :: "limits \<Rightarrow> nat \<Rightarrow> instant \<Rightarrow> limits" where
  "lease_complete l held now = l\<lparr>lm_capacity := cap_complete (lm_capacity l) held now\<rparr>"

definition limits_ok :: "limits \<Rightarrow> bool" where
  "limits_ok l \<longleftrightarrow> cap_ok (lm_capacity l) \<and> lm_used l \<le> usize_max"

section \<open>The contract of a budget\<close>

locale byte_budget =
  fixes ok :: "'l \<Rightarrow> bool"
    and used :: "'l \<Rightarrow> nat"
    and resize :: "'l \<Rightarrow> nat \<Rightarrow> nat \<Rightarrow> instant \<Rightarrow> ('l \<times> nat \<times> bool) option"
    and release :: "'l \<Rightarrow> nat \<Rightarrow> 'l option"
    and learn :: "'l \<Rightarrow> nat \<Rightarrow> instant \<Rightarrow> 'l"
  assumes resize_held: "ok l \<Longrightarrow> held \<le> used l \<Longrightarrow>
      \<exists>l' held' granted. resize l held bytes now = Some (l', held', granted) \<and> ok l' \<and>
        used l' + held = used l + held' \<and> held' = (if granted then bytes else held) \<and>
        (bytes \<le> held \<longrightarrow> granted)"
    and release_held: "ok l \<Longrightarrow> held \<le> used l \<Longrightarrow>
      \<exists>l'. release l held = Some l' \<and> ok l' \<and> used l' + held = used l"
    and learn_held: "ok l \<Longrightarrow> ok (learn l held now) \<and> used (learn l held now) = used l"
begin

lemma resizeE:
  assumes "ok l" "held \<le> used l" "resize l held bytes now = Some (l', held', granted)"
  obtains "ok l'" "used l' + held = used l + held'" "held' = (if granted then bytes else held)"
    "bytes \<le> held \<Longrightarrow> granted"
  using resize_held [OF assms(1,2), of bytes now] assms(3) by auto

end

lemma lease_resize_held:
  assumes "limits_ok l" "held \<le> lm_used l"
  shows "\<exists>l' held' granted. lease_resize l held bytes now = Some (l', held', granted) \<and> limits_ok l' \<and>
    lm_used l' + held = lm_used l + held' \<and> held' = (if granted then bytes else held) \<and>
    (bytes \<le> held \<longrightarrow> granted)"
proof -
  obtain cap target where cap: "cap_target_at (lm_capacity l) now = (cap, target)" by fastforce
  have cok: "cap_ok cap" using cap_ok_target_at [of "lm_capacity l" now] assms(1) cap by (simp add: limits_ok_def)
  consider (over) "usize_max < lm_used l - held + bytes" | (shrink) "lm_used l - held + bytes \<le> usize_max" "bytes \<le> held"
    | (grow) "lm_used l - held + bytes \<le> usize_max" "held < bytes" by linarith
  then show ?thesis
  proof cases
    case over
    then have "\<not> bytes \<le> held" using assms by (auto simp: limits_ok_def)
    moreover have "lease_resize l held bytes now = Some (l, held, False)"
      using over assms(2) by (simp add: lease_resize_def checked_add_def)
    ultimately show ?thesis using assms(1) by (intro exI [of _ l] exI [of _ held] exI [of _ False]) simp
  next
    case shrink
    then have "lease_resize l held bytes now = Some (l\<lparr>lm_used := lm_used l - held + bytes\<rparr>, bytes, True)"
      using assms(2) by (simp add: lease_resize_def checked_add_def)
    then show ?thesis using shrink assms by (auto simp: limits_ok_def)
  next
    case grow
    show ?thesis
    proof (cases "target < lm_used l - held + bytes")
      case True
      then have "lease_resize l held bytes now =
          Some (l\<lparr>lm_capacity := cap, lm_pressure := lm_pressure l + 1\<rparr>, held, False)"
        using grow assms(2) cap by (simp add: lease_resize_def checked_add_def)
      then show ?thesis using grow assms cok by (auto simp: limits_ok_def)
    next
      case False
      then have "lease_resize l held bytes now =
          Some (l\<lparr>lm_capacity := cap, lm_used := lm_used l - held + bytes\<rparr>, bytes, True)"
        using grow assms(2) cap by (simp add: lease_resize_def checked_add_def)
      then show ?thesis using grow assms cok by (auto simp: limits_ok_def)
    qed
  qed
qed

interpretation bb: byte_budget limits_ok lm_used lease_resize lease_drop lease_complete
proof unfold_locales
  fix l held bytes now
  assume ok: "limits_ok l"
  show "limits_ok (lease_complete l held now) \<and> lm_used (lease_complete l held now) = lm_used l"
    using ok cap_ok_complete by (simp add: limits_ok_def lease_complete_def)
  assume held: "held \<le> lm_used l"
  show "\<exists>l' held' granted. lease_resize l held bytes now = Some (l', held', granted) \<and> limits_ok l' \<and>
      lm_used l' + held = lm_used l + held' \<and> held' = (if granted then bytes else held) \<and>
      (bytes \<le> held \<longrightarrow> granted)"
    using ok held by (rule lease_resize_held)
  show "\<exists>l'. lease_drop l held = Some l' \<and> limits_ok l' \<and> lm_used l' + held = lm_used l"
    using ok held by (auto simp: lease_drop_def limits_ok_def)
qed

lemma lease_drop_all_held:
  "limits_ok l \<Longrightarrow> sum_list hs \<le> lm_used l \<Longrightarrow>
    \<exists>l'. lease_drop_all l hs = Some l' \<and> limits_ok l' \<and> lm_used l' + sum_list hs = lm_used l"
proof (induction hs arbitrary: l)
  case (Cons h hs)
  from Cons.prems obtain l1 where l1: "lease_drop l h = Some l1" "limits_ok l1" "lm_used l1 + h = lm_used l"
    using bb.release_held [of l h] by auto
  then have "sum_list hs \<le> lm_used l1" using Cons.prems by simp
  from Cons.IH [OF l1(2) this] l1 show ?case by auto
qed simp

lemma lease_reserve_held:
  assumes "limits_ok l"
  shows "\<exists>l' r. lease_reserve l bytes now = Some (l', r) \<and> limits_ok l' \<and>
    (case r of None \<Rightarrow> lm_used l' = lm_used l | Some h \<Rightarrow> h = bytes \<and> lm_used l' = lm_used l + bytes)"
proof -
  obtain l1 h g where r: "lease_resize l 0 bytes now = Some (l1, h, g)" "limits_ok l1"
    "lm_used l1 = lm_used l + h" "h = (if g then bytes else 0)"
    using bb.resize_held [OF assms, of 0 bytes now] by auto
  then show ?thesis by (cases g) (simp_all add: lease_reserve_def lease_drop_def limits_ok_def)
qed

text \<open>A reservation that keeps the total within the initial allowance is always granted.\<close>

lemma lease_resize_granted:
  assumes "limits_ok l" "held \<le> lm_used l" "lm_used l - held + bytes \<le> cap_initial (lm_capacity l)"
  shows "\<exists>l'. lease_resize l held bytes now = Some (l', bytes, True) \<and> limits_ok l' \<and>
    lm_used l' = lm_used l - held + bytes \<and> cap_initial (lm_capacity l') = cap_initial (lm_capacity l)"
proof -
  obtain cap target where cap: "cap_target_at (lm_capacity l) now = (cap, target)" by fastforce
  have "cap_initial (lm_capacity l) \<le> target" "target \<le> usize_max"
    using fc.target_lower [of "lm_capacity l" now] fc.target_upper [of "lm_capacity l" now] assms(1) cap
    by (simp_all add: limits_ok_def)
  moreover have "cap_ok cap" "cap_initial cap = cap_initial (lm_capacity l)"
    using cap_ok_target_at [of "lm_capacity l" now] cap_initial_target_at [of "lm_capacity l" now] assms(1) cap
    by (simp_all add: limits_ok_def)
  ultimately show ?thesis
    using assms cap by (cases "held < bytes") (simp_all add: lease_resize_def checked_add_def limits_ok_def)
qed

text \<open>
  The allowance at a time. Asking for it twice at the same time gives the same answer, releasing leases
  does not change it, and a resize is refused only when it would take the total beyond it.
\<close>

definition budget_target :: "limits \<Rightarrow> instant \<Rightarrow> nat" where
  "budget_target l now = snd (cap_target_at (lm_capacity l) now)"

lemma budget_target_again [simp]:
  "lm_capacity l' = fst (cap_target_at (lm_capacity l) now) \<Longrightarrow> budget_target l' now = budget_target l now"
  by (simp add: budget_target_def cap_target_at_def Let_def FEEDBACK_INTERVAL_def)

lemma lease_drop_target:
  "lease_drop l held = Some l' \<Longrightarrow> lm_capacity l' = lm_capacity l \<and> lm_used l' \<le> lm_used l"
  by (auto simp: lease_drop_def split: if_splits)

lemma lease_resize_target:
  assumes "limits_ok l" "lease_resize l held bytes now = Some (l', held', granted)"
  shows "budget_target l' now = budget_target l now"
    and "\<not> granted \<Longrightarrow> budget_target l now < lm_used l - held + bytes"
proof -
  obtain cap target where cap: "cap_target_at (lm_capacity l) now = (cap, target)" by fastforce
  have eq: "budget_target l now = target" by (simp add: budget_target_def cap)
  have "target \<le> usize_max" using fc.target_upper [of "lm_capacity l" now] assms(1) cap by (simp add: limits_ok_def)
  then show "\<not> granted \<Longrightarrow> budget_target l now < lm_used l - held + bytes"
    using assms(2) unfolding eq
    by (auto simp: lease_resize_def checked_add_def cap Let_def split: if_splits)
  have "lm_capacity l' = lm_capacity l \<or> lm_capacity l' = cap"
    using assms(2) by (auto simp: lease_resize_def checked_add_def cap Let_def split: if_splits)
  then show "budget_target l' now = budget_target l now"
    using budget_target_again [of l' l now] cap by (auto simp: budget_target_def)
qed

lemma lease_reserve_target:
  assumes "limits_ok l" "lease_reserve l bytes now = Some (l', r)"
  shows "budget_target l' now = budget_target l now" and "r = None \<Longrightarrow> budget_target l now < lm_used l + bytes"
proof -
  obtain l1 h g where r: "lease_resize l 0 bytes now = Some (l1, h, g)" using assms(2) by (auto simp: lease_reserve_def bind_eq_Some_conv)
  note t = lease_resize_target [OF assms(1) r]
  show "budget_target l' now = budget_target l now" "r = None \<Longrightarrow> budget_target l now < lm_used l + bytes"
    using assms(2) r t by (auto simp: lease_reserve_def budget_target_def dest: lease_drop_target split: if_splits)
qed

end
