(* ===== verification/Ip_Decoder.thy ===== *)
theory Ip_Decoder
  imports Ip_Packet Ip_Limits Hash_Table
begin

text \<open>
  Reassembly of IP datagrams (\<open>Decoder\<close> and \<open>Assembly\<close> of \<open>crates/tun/src/packet.rs\<close>) over the shared
  budget of the theory \<open>Ip_Limits\<close>. The range tracker of smoltcp (\<open>Assembler\<close>) is a parameter with its
  documented behaviour; the size of an assembly's bookkeeping and the extra capacity the allocator
  hands out are arguments. The hash map is an association list.
\<close>

section \<open>State\<close>

definition REASSEMBLY_LIFETIME :: duration where
  "REASSEMBLY_LIFETIME = 60 * 1000000000"

text \<open>\<open>Binding\<close> of \<open>crates/tun/src/fragments.rs\<close>; \<open>bd_id\<close> is the identity that \<open>Arc::ptr_eq\<close> compares.\<close>

record binding =
  bd_id :: nat
  bd_key :: frag_key
  bd_expires :: instant
  bd_shard :: nat

record 'r dec_env =
  as_empty :: 'r
  as_add :: "'r \<Rightarrow> nat \<Rightarrow> nat \<Rightarrow> 'r option"
  as_front :: "'r \<Rightarrow> nat"
  as_ranges :: "'r \<Rightarrow> (nat \<times> nat) list"
  de_wire :: ip_wire
  de_metadata :: nat

record 'r assembly =
  am_binding :: "binding option"
  am_lease :: nat
  am_expires :: instant
  am_ranges :: 'r
  am_data :: bytes
  am_capacity :: nat
  am_protocol :: protocol
  am_prefix :: nat
  am_total :: "nat option"
  am_poisoned :: bool

record 'r decoder =
  dc_fragments :: "(frag_key \<times> 'r assembly) list"
  dc_next_expiry :: "instant option"

definition dc_new :: "'r decoder" where
  "dc_new = \<lparr>dc_fragments = [], dc_next_expiry = None\<rparr>"

definition dc_deadline :: "'r decoder \<Rightarrow> instant option" where
  "dc_deadline dc = (if dc_fragments dc = [] then None else dc_next_expiry dc)"

section \<open>Operations\<close>

definition asm_poison :: "'r dec_env \<Rightarrow> limits \<Rightarrow> 'r assembly \<Rightarrow> instant \<Rightarrow> (limits \<times> 'r assembly) option" where
  "asm_poison E l a clock =
     map_option (\<lambda>(l, held, _).
       (l, a\<lparr>am_ranges := as_empty E, am_data := [], am_capacity := 0, am_lease := held, am_poisoned := True\<rparr>))
       (lease_resize l (am_lease a) (de_metadata E) clock)"

fun least :: "instant list \<Rightarrow> instant option" where
  "least [] = None"
| "least (x # xs) = Some (case least xs of None \<Rightarrow> x | Some y \<Rightarrow> min x y)"

definition dc_expire :: "limits \<Rightarrow> 'r decoder \<Rightarrow> instant \<Rightarrow> (limits \<times> 'r decoder) option" where
  "dc_expire l dc now =
     (if (case dc_next_expiry dc of None \<Rightarrow> False | Some t \<Rightarrow> t \<le> now) then
        let kept = filter (\<lambda>x. now < am_expires (snd x)) (dc_fragments dc);
            gone = filter (\<lambda>x. \<not> now < am_expires (snd x)) (dc_fragments dc)
        in map_option (\<lambda>l. (l, \<lparr>dc_fragments = kept, dc_next_expiry = least (map (am_expires \<circ> snd) kept)\<rparr>))
             (lease_drop_all l (map (am_lease \<circ> snd) gone))
      else Some (l, dc))"

text \<open>The first entry with the least expiry among the given ones.\<close>

fun oldest :: "(frag_key \<times> instant) list \<Rightarrow> (frag_key \<times> instant) option" where
  "oldest [] = None"
| "oldest ((k, t) # xs) = Some (case oldest xs of None \<Rightarrow> (k, t) | Some (k', t') \<Rightarrow> if t' < t then (k', t') else (k, t))"

definition dc_remove :: "limits \<Rightarrow> 'r decoder \<Rightarrow> frag_key \<Rightarrow> (limits \<times> 'r decoder \<times> 'r assembly option) option" where
  "dc_remove l dc key =
     (case map_of (dc_fragments dc) key of
        None \<Rightarrow> Some (l, dc, None)
      | Some a \<Rightarrow>
          map_option (\<lambda>l. (l, dc\<lparr>dc_fragments := AList.delete key (dc_fragments dc)\<rparr>, Some a)) (lease_drop l (am_lease a)))"

definition dc_discard_oldest :: "limits \<Rightarrow> 'r decoder \<Rightarrow> (limits \<times> 'r decoder \<times> binding option) option" where
  "dc_discard_oldest l dc =
     (case oldest (map (\<lambda>(k, a). (k, am_expires a)) (filter (\<lambda>(k, a). \<not> am_poisoned a) (dc_fragments dc))) of
        None \<Rightarrow> Some (l, dc, None)
      | Some (key, _) \<Rightarrow>
          map_option (\<lambda>(l, dc, a). (l, dc, Option.bind a am_binding)) (dc_remove l dc key))"

text \<open>The vacant branch of \<open>reassemble\<close>: \<open>False\<close> when the budget refuses the bookkeeping.\<close>

definition dc_entry ::
  "'r dec_env \<Rightarrow> limits \<Rightarrow> 'r decoder \<Rightarrow> frag_key \<Rightarrow> protocol \<Rightarrow> nat \<Rightarrow> instant \<Rightarrow> binding option \<Rightarrow>
     (limits \<times> 'r decoder \<times> bool) option" where
  "dc_entry E l dc key protocol prefix now bnd =
     (case map_of (dc_fragments dc) key of
        Some _ \<Rightarrow> Some (l, dc, True)
      | None \<Rightarrow>
          Option.bind (lease_reserve l (de_metadata E) now) (\<lambda>(l, lease).
            case lease of
              None \<Rightarrow> Some (l, dc, False)
            | Some lease \<Rightarrow>
                let expires = (case bnd of None \<Rightarrow> now + REASSEMBLY_LIFETIME | Some b \<Rightarrow> bd_expires b);
                    a = \<lparr>am_binding = bnd, am_lease = lease, am_expires = expires, am_ranges = as_empty E, am_data = [],
                         am_capacity = 0, am_protocol = protocol, am_prefix = prefix, am_total = None, am_poisoned = False\<rparr>
                in Some (l, dc\<lparr>dc_next_expiry := Some (case dc_next_expiry dc of None \<Rightarrow> expires | Some t \<Rightarrow> min t expires),
                              dc_fragments := AList.update key a (dc_fragments dc)\<rparr>, True)))"

text \<open>The condition under which a fragment is refused and its datagram poisoned.\<close>

definition asm_conflict :: "'r dec_env \<Rightarrow> bool \<Rightarrow> 'r assembly \<Rightarrow> nat \<Rightarrow> protocol \<Rightarrow> ip_fragment \<Rightarrow> bytes \<Rightarrow> bool" where
  "asm_conflict E ipv4 a prefix protocol f data \<longleftrightarrow>
     (let offset = fr_offset f; e = offset + length data in
      data = []
      \<or> 65535 - prefix < e
      \<or> prefix \<noteq> am_prefix a
      \<or> (\<not> ipv4 \<and> offset = 0 \<and> \<not> complete_transport_header (de_wire E) protocol data)
      \<or> protocol \<noteq> am_protocol a
      \<or> (fr_more f \<and> length data mod 8 \<noteq> 0)
      \<or> (case am_total a of None \<Rightarrow> False | Some t \<Rightarrow> t < e \<or> (\<not> fr_more f \<and> e \<noteq> t))
      \<or> (\<not> fr_more f \<and> e < length (am_data a))
      \<or> (\<not> ipv4 \<and> list_ex (\<lambda>(start, stop). start < e \<and> offset < stop) (as_ranges E (am_ranges a)))
      \<or> 65535 - prefix < length (am_data a))"

definition splice :: "bytes \<Rightarrow> nat \<Rightarrow> bytes \<Rightarrow> bytes" where
  "splice data offset b = take offset data @ b @ drop (offset + length b) data"

definition dc_put :: "'r decoder \<Rightarrow> frag_key \<Rightarrow> 'r assembly \<Rightarrow> 'r decoder" where
  "dc_put dc key a = dc\<lparr>dc_fragments := AList.update key a (dc_fragments dc)\<rparr>"

definition asm_fill :: "'r assembly \<Rightarrow> ip_fragment \<Rightarrow> bytes \<Rightarrow> 'r \<Rightarrow> 'r assembly" where
  "asm_fill a f data r =
     a\<lparr>am_ranges := r, am_total := (if fr_more f then am_total a else Some (fr_offset f + length data)),
       am_data := splice (am_data a) (fr_offset f) data\<rparr>"

text \<open>
  The end of \<open>reassemble\<close>, from the tracking of the new range on; a range beyond the buffer is the failing
  \<open>debug_assert!\<close>.
\<close>

definition asm_record ::
  "'r dec_env \<Rightarrow> limits \<Rightarrow> 'r decoder \<Rightarrow> frag_key \<Rightarrow> 'r assembly \<Rightarrow> ip_fragment \<Rightarrow> bytes \<Rightarrow> instant \<Rightarrow> instant \<Rightarrow>
     (limits \<times> 'r decoder \<times> bytes option) option" where
  "asm_record E l dc key a f data now clock =
     (case as_add E (am_ranges a) (fr_offset f) (length data) of
        None \<Rightarrow> map_option (\<lambda>(l, a). (l, dc_put dc key a, None)) (asm_poison E l a clock)
      | Some r \<Rightarrow>
          if length (am_data a) < fr_offset f + length data then None
          else let a = asm_fill a f data r; dc = dc_put dc key a
          in if am_total a \<noteq> Some (as_front E r) then Some (l, dc, None)
             else map_option (\<lambda>(l, dc, _). (l, dc, Some (am_data a))) (dc_remove (lease_complete l (am_lease a) now) dc key))"

text \<open>\<open>Vec::reserve_exact\<close> up to \<open>len\<close>; \<open>alloc\<close> is the capacity the allocator gives beyond the request.\<close>

definition reserve_exact :: "nat \<Rightarrow> nat \<Rightarrow> nat \<Rightarrow> nat" where
  "reserve_exact cap len alloc = (if len \<le> cap then cap else len + alloc)"

text \<open>Growing the buffer under the lease.\<close>

definition asm_accept ::
  "'r dec_env \<Rightarrow> limits \<Rightarrow> 'r decoder \<Rightarrow> frag_key \<Rightarrow> 'r assembly \<Rightarrow> ip_fragment \<Rightarrow> bytes \<Rightarrow> instant \<Rightarrow> instant \<Rightarrow> nat \<Rightarrow>
     (limits \<times> 'r decoder \<times> bytes option) option" where
  "asm_accept E l dc key a f data now clock alloc =
     (let len = max (length (am_data a)) (fr_offset f + length data) in
      Option.bind (lease_resize l (am_lease a) (de_metadata E + max (am_capacity a) len) now) (\<lambda>(l, held, ok).
        let a = a\<lparr>am_lease := held\<rparr> in
        if \<not> ok then map_option (\<lambda>(l, dc, _). (l, dc, None)) (dc_remove l (dc_put dc key a) key)
        else
          let cap = reserve_exact (am_capacity a) len alloc in
          Option.bind (lease_resize l held (de_metadata E + cap) now) (\<lambda>(l, held, ok).
            let a = a\<lparr>am_lease := held, am_capacity := cap\<rparr> in
            if \<not> ok then map_option (\<lambda>(l, dc, _). (l, dc, None)) (dc_remove l (dc_put dc key a) key)
            else
              asm_record E l dc key (a\<lparr>am_data := am_data a @ replicate (len - length (am_data a)) 0\<rparr>) f data now clock)))"

text \<open>For IPv4 the longest header of the fragments counts, for IPv6 each fragment's own prefix.\<close>

definition asm_prefixed :: "bool \<Rightarrow> 'r assembly \<Rightarrow> ip_fragment \<Rightarrow> 'r assembly" where
  "asm_prefixed ipv4 a f = (if ipv4 then a\<lparr>am_prefix := max (am_prefix a) (fr_prefix f)\<rparr> else a)"

definition asm_limit_prefix :: "bool \<Rightarrow> 'r assembly \<Rightarrow> ip_fragment \<Rightarrow> nat" where
  "asm_limit_prefix ipv4 a f = (if ipv4 then am_prefix a else fr_prefix f)"

definition reassemble ::
  "'r dec_env \<Rightarrow> limits \<Rightarrow> 'r decoder \<Rightarrow> frag_key \<Rightarrow> protocol \<Rightarrow> ip_fragment \<Rightarrow> bytes \<Rightarrow> instant \<Rightarrow> instant \<Rightarrow>
     binding option \<Rightarrow> nat \<Rightarrow> (limits \<times> 'r decoder \<times> bytes option) option" where
  "reassemble E l dc key protocol f data now clock bnd alloc =
     (if 65535 < fr_prefix f \<or> 65528 < fr_offset f \<or> fr_offset f mod 8 \<noteq> 0 then None
      else
        Option.bind (dc_expire l dc now) (\<lambda>(l, dc).
        Option.bind (dc_entry E l dc key protocol (fr_prefix f) now bnd) (\<lambda>(l, dc, ok).
          if \<not> ok then Some (l, dc, None)
          else case map_of (dc_fragments dc) key of
            None \<Rightarrow> Some (l, dc, None)
          | Some a \<Rightarrow>
              if am_poisoned a then Some (l, dc, None)
              else
                let ipv4 = (fk_v4_protocol key \<noteq> None);
                    a = asm_prefixed ipv4 a f
                in if asm_conflict E ipv4 a (asm_limit_prefix ipv4 a f) protocol f data
                   then map_option (\<lambda>(l, a). (l, dc_put dc key a, None)) (asm_poison E l a clock)
                   else asm_accept E l dc key a f data now clock alloc)))"

record packet =
  pk_ip :: ip_repr
  pk_payload :: bytes

definition decode_with ::
  "'r dec_env \<Rightarrow> limits \<Rightarrow> 'r decoder \<Rightarrow> parsed \<Rightarrow> instant \<Rightarrow> instant \<Rightarrow> binding option \<Rightarrow> nat \<Rightarrow>
     (limits \<times> 'r decoder \<times> packet option) option" where
  "decode_with E l dc p now clock bnd alloc =
     (let done = (\<lambda>payload. \<lparr>pk_ip = (pa_ip p)\<lparr>ip_len := length payload\<rparr>, pk_payload = payload\<rparr>) in
      case pa_fragment p of
        None \<Rightarrow> Some (l, dc, Some (done (pa_payload p)))
      | Some f \<Rightarrow>
          (case fragment_key p of
             None \<Rightarrow> Some (l, dc, None)
           | Some key \<Rightarrow>
               map_option (\<lambda>(l, dc, r). (l, dc, map_option done r))
                 (reassemble E l dc key (ip_next (pa_ip p)) f (pa_payload p) now clock bnd alloc)))"

definition dc_decode ::
  "'r dec_env \<Rightarrow> limits \<Rightarrow> 'r decoder \<Rightarrow> bytes \<Rightarrow> instant \<Rightarrow> instant \<Rightarrow> nat \<Rightarrow>
     (limits \<times> 'r decoder \<times> packet option) option" where
  "dc_decode E l dc data now clock alloc =
     Option.bind (parse_ip (de_wire E) data) (\<lambda>r.
       case r of None \<Rightarrow> Some (l, dc, None) | Some p \<Rightarrow> decode_with E l dc p now clock None alloc)"

definition same_binding :: "binding option \<Rightarrow> binding \<Rightarrow> bool" where
  "same_binding b b' = (case b of None \<Rightarrow> False | Some b \<Rightarrow> bd_id b = bd_id b')"

text \<open>
  \<open>decode_fragment\<close>; \<open>active\<close> is the binding's flag. An assembly of another binding under the same key is
  dropped first.
\<close>

definition dc_decode_fragment ::
  "'r dec_env \<Rightarrow> limits \<Rightarrow> 'r decoder \<Rightarrow> bytes \<Rightarrow> instant \<Rightarrow> instant \<Rightarrow> binding \<Rightarrow> bool \<Rightarrow> nat \<Rightarrow>
     (limits \<times> 'r decoder \<times> packet option) option" where
  "dc_decode_fragment E l dc data now clock b active alloc =
     (if \<not> (now < bd_expires b \<and> active) then Some (l, dc, None)
      else
        Option.bind (parse_ip (de_wire E) data) (\<lambda>r.
          case r of
            None \<Rightarrow> Some (l, dc, None)
          | Some p \<Rightarrow>
              if fragment_key p \<noteq> Some (bd_key b) then None
              else
                Option.bind
                  (if (case map_of (dc_fragments dc) (bd_key b) of
                         None \<Rightarrow> False
                       | Some a \<Rightarrow> \<not> same_binding (am_binding a) b)
                   then map_option (\<lambda>(l, dc, _). (l, dc)) (dc_remove l dc (bd_key b))
                   else Some (l, dc))
                  (\<lambda>(l, dc). decode_with E l dc p now clock (Some b) alloc)))"

definition dc_retains :: "'r decoder \<Rightarrow> binding \<Rightarrow> bool" where
  "dc_retains dc b =
     (case map_of (dc_fragments dc) (bd_key b) of None \<Rightarrow> False | Some a \<Rightarrow> same_binding (am_binding a) b)"

section \<open>What the decoder relies on\<close>

definition covered :: "'r dec_env \<Rightarrow> 'r \<Rightarrow> nat set" where
  "covered E r = {i. list_ex (\<lambda>(start, stop). start \<le> i \<and> i < stop) (as_ranges E r)}"

text \<open>
  smoltcp's \<open>Assembler\<close>: it starts empty, adding a range covers exactly that range in addition, and
  \<open>peek_front\<close> is the length of the covered prefix.
\<close>

definition assembler_ok :: "'r dec_env \<Rightarrow> bool" where
  "assembler_ok E \<longleftrightarrow> covered E (as_empty E) = {} \<and>
     (\<forall>r off len r'. as_add E r off len = Some r' \<longrightarrow> covered E r' = covered E r \<union> {off..<off + len}) \<and>
     (\<forall>r. {..<as_front E r} \<subseteq> covered E r \<and> as_front E r \<notin> covered E r)"

section \<open>Invariant\<close>

text \<open>The byte at \<open>i\<close> was carried there by one of the fragments (offset and data) of \<open>H\<close>.\<close>

definition carried :: "(nat \<times> bytes) list \<Rightarrow> bytes \<Rightarrow> nat \<Rightarrow> bool" where
  "carried H data i \<longleftrightarrow> (\<exists>(off, b) \<in> set H. off \<le> i \<and> i < off + length b \<and> data ! i = b ! (i - off))"

definition asm_ok :: "'r dec_env \<Rightarrow> (nat \<times> bytes) list \<Rightarrow> 'r assembly \<Rightarrow> bool" where
  "asm_ok E H a \<longleftrightarrow> am_lease a = de_metadata E + am_capacity a \<and> length (am_data a) \<le> am_capacity a \<and>
     (\<not> am_poisoned a \<longrightarrow>
        covered E (am_ranges a) \<subseteq> {i. i < length (am_data a) \<and> carried H (am_data a) i} \<and>
        (case am_total a of None \<Rightarrow> True | Some t \<Rightarrow> length (am_data a) = t))"

abbreviation dc_held :: "'r decoder \<Rightarrow> nat" where
  "dc_held dc \<equiv> table_sum am_lease (dc_fragments dc)"

text \<open>
  \<open>H\<close> gives for every key the fragments its current assembly has heard. The deadline is a lower bound
  of the expiries, and the budget covers what the assemblies hold.
\<close>

definition dec_ok :: "'r dec_env \<Rightarrow> (frag_key \<Rightarrow> (nat \<times> bytes) list) \<Rightarrow> limits \<Rightarrow> 'r decoder \<Rightarrow> bool" where
  "dec_ok E H l dc \<longleftrightarrow> limits_ok l \<and> distinct (map fst (dc_fragments dc)) \<and> dc_held dc \<le> lm_used l \<and>
     table_all (\<lambda>k a. asm_ok E (H k) a \<and> (\<exists>t. dc_next_expiry dc = Some t \<and> t \<le> am_expires a)) (dc_fragments dc)"

text \<open>The budget moves exactly as the decoder's leases do.\<close>

definition balanced :: "limits \<Rightarrow> 'r decoder \<Rightarrow> limits \<Rightarrow> 'r decoder \<Rightarrow> bool" where
  "balanced l dc l' dc' \<longleftrightarrow> lm_used l' + dc_held dc = lm_used l + dc_held dc'"

lemma balanced_refl [simp]: "balanced l dc l dc"
  by (simp add: balanced_def)

lemma balanced_trans: "balanced l dc l1 dc1 \<Longrightarrow> balanced l1 dc1 l2 dc2 \<Longrightarrow> balanced l dc l2 dc2"
  by (simp add: balanced_def)

lemma dec_ok_new: "limits_ok l \<Longrightarrow> dec_ok E H l dc_new"
  by (simp add: dec_ok_def dc_new_def table_all_def)

lemma least_le: "x \<in> set xs \<Longrightarrow> \<exists>t. least xs = Some t \<and> t \<le> x"
  by (induction xs) (auto split: option.splits)

lemma dec_ok_asm: "dec_ok E H l dc \<Longrightarrow> map_of (dc_fragments dc) k = Some a \<Longrightarrow>
    asm_ok E (H k) a \<and> am_lease a \<le> lm_used l"
  using table_sum_member [of "dc_fragments dc" k a am_lease] table_all_lookup
  unfolding dec_ok_def by fastforce

lemma asm_ok_mono:
  assumes "asm_ok E H a" "set H \<subseteq> set H'"
  shows "asm_ok E H' a"
  using assms unfolding asm_ok_def carried_def by blast

section \<open>The operations keep it\<close>

lemma dc_expire_ok:
  assumes "dec_ok E H l dc"
  shows "\<exists>l' dc'. dc_expire l dc now = Some (l', dc') \<and> dec_ok E H l' dc' \<and> balanced l dc l' dc' \<and>
    (\<forall>k. map_of (dc_fragments dc') k =
       (case map_of (dc_fragments dc) k of None \<Rightarrow> None | Some a \<Rightarrow> if now < am_expires a then Some a else None))"
proof (cases "case dc_next_expiry dc of None \<Rightarrow> False | Some t \<Rightarrow> t \<le> now")
  case False
  have "now < am_expires a" if "map_of (dc_fragments dc) k = Some a" for k a
    using assms that False table_all_lookup unfolding dec_ok_def by (fastforce split: option.splits)
  then show ?thesis using assms False by (auto simp: dc_expire_def split: option.splits)
next
  case True
  define kept where "kept = filter (\<lambda>x. now < am_expires (snd x)) (dc_fragments dc)"
  define gone where "gone = filter (\<lambda>x. \<not> now < am_expires (snd x)) (dc_fragments dc)"
  have split: "table_sum am_lease kept + table_sum am_lease gone = dc_held dc"
    unfolding kept_def gone_def by (rule table_sum_retain)
  have "sum_list (map (am_lease \<circ> snd) gone) \<le> lm_used l"
    using split assms by (simp add: dec_ok_def table_sum_def)
  then obtain l' where l': "lease_drop_all l (map (am_lease \<circ> snd) gone) = Some l'" "limits_ok l'"
    "lm_used l' + table_sum am_lease gone = lm_used l"
    using lease_drop_all_held [of l "map (am_lease \<circ> snd) gone"] assms by (auto simp: dec_ok_def table_sum_def)
  define dc' where "dc' = \<lparr>dc_fragments = kept, dc_next_expiry = least (map (am_expires \<circ> snd) kept)\<rparr>"
  have step: "dc_expire l dc now = Some (l', dc')"
    using True l'(1) by (simp add: dc_expire_def dc'_def kept_def gone_def Let_def)
  have dist: "distinct (map fst (dc_fragments dc))" using assms by (simp add: dec_ok_def)
  have "table_all (\<lambda>k a. asm_ok E (H k) a \<and> (\<exists>t. dc_next_expiry dc' = Some t \<and> t \<le> am_expires a)) kept"
    using assms least_le [of _ "map (am_expires \<circ> snd) kept"]
    by (fastforce simp: dec_ok_def table_all_def kept_def dc'_def)
  then have "dec_ok E H l' dc'"
    using l' split assms distinct_retain [OF dist, of "\<lambda>x. now < am_expires (snd x)"]
    by (simp add: dec_ok_def dc'_def kept_def)
  moreover have "balanced l dc l' dc'" using l'(3) split by (simp add: balanced_def dc'_def)
  moreover have "map_of kept k = (case map_of (dc_fragments dc) k of None \<Rightarrow> None
      | Some a \<Rightarrow> if now < am_expires a then Some a else None)" for k
    unfolding kept_def map_of_retain [OF dist, of "\<lambda>x. now < am_expires (snd x)"]
    by (cases "map_of (dc_fragments dc) k") simp_all
  ultimately show ?thesis using step by (auto simp: dc'_def)
qed

lemma dc_remove_ok:
  assumes "dec_ok E H l dc"
  shows "\<exists>l' dc'. dc_remove l dc key = Some (l', dc', map_of (dc_fragments dc) key) \<and>
    dec_ok E (H(key := h)) l' dc' \<and> balanced l dc l' dc' \<and> dc_fragments dc' = AList.delete key (dc_fragments dc)"
proof (cases "map_of (dc_fragments dc) key")
  case None
  then have id: "AList.delete key (dc_fragments dc) = dc_fragments dc"
    by (simp add: delete_id map_of_eq_None_iff)
  then have "dec_ok E (H(key := h)) l dc"
    using assms table_all_without [of _ "dc_fragments dc" key] unfolding dec_ok_def by fastforce
  with None id show ?thesis by (simp add: dc_remove_def)
next
  case (Some a)
  have dist: "distinct (map fst (dc_fragments dc))" using assms by (simp add: dec_ok_def)
  have sum: "dc_held dc = am_lease a + table_sum am_lease (AList.delete key (dc_fragments dc))"
    by (rule table_sum_delete [OF dist Some])
  obtain l' where l': "lease_drop l (am_lease a) = Some l'" "limits_ok l'" "lm_used l' + am_lease a = lm_used l"
    using bb.release_held [of l "am_lease a"] dec_ok_asm [OF assms Some] assms by (auto simp: dec_ok_def)
  have "table_all (\<lambda>k a. asm_ok E ((H(key := h)) k) a \<and> (\<exists>t. dc_next_expiry dc = Some t \<and> t \<le> am_expires a))
      (AList.delete key (dc_fragments dc))"
    by (rule table_all_without [of "\<lambda>k a. asm_ok E (H k) a \<and> (\<exists>t. dc_next_expiry dc = Some t \<and> t \<le> am_expires a)"])
      (use assms in \<open>auto simp: dec_ok_def\<close>)
  then have "dec_ok E (H(key := h)) l' (dc\<lparr>dc_fragments := AList.delete key (dc_fragments dc)\<rparr>)"
    using l' sum assms distinct_delete [OF dist, of key] by (simp add: dec_ok_def)
  with l' Some sum show ?thesis by (simp add: dc_remove_def balanced_def)
qed

text \<open>Replacing the assembly of a key by one with the same expiry.\<close>

lemma dc_put_ok:
  assumes "dec_ok E H l dc" "map_of (dc_fragments dc) key = Some a0" "limits_ok l'"
    and "lm_used l' + am_lease a0 = lm_used l + am_lease a" "asm_ok E h a" "am_expires a = am_expires a0"
  shows "dec_ok E (H(key := h)) l' (dc_put dc key a) \<and> balanced l dc l' (dc_put dc key a)"
proof -
  have dist: "distinct (map fst (dc_fragments dc))" using assms(1) by (simp add: dec_ok_def)
  have sum: "table_sum am_lease (AList.update key a (dc_fragments dc)) + am_lease a0 = dc_held dc + am_lease a"
    by (rule table_sum_update [OF dist assms(2)])
  have nx: "\<exists>t. dc_next_expiry dc = Some t \<and> t \<le> am_expires a0"
    using assms(1) table_all_lookup [OF _ assms(2)] by (fastforce simp: dec_ok_def)
  have "table_all (\<lambda>k a. asm_ok E ((H(key := h)) k) a \<and> (\<exists>t. dc_next_expiry dc = Some t \<and> t \<le> am_expires a))
      (AList.update key a (dc_fragments dc))"
    by (rule table_all_replace [of _ "\<lambda>k a. asm_ok E (H k) a \<and> (\<exists>t. dc_next_expiry dc = Some t \<and> t \<le> am_expires a)"])
      (use assms nx dist in \<open>auto simp: dec_ok_def\<close>)
  then show ?thesis
    using assms sum distinct_update [OF dist, of key a] by (simp add: dec_ok_def dc_put_def balanced_def)
qed

lemma asm_poison_ok:
  assumes "dec_ok E H l dc" "map_of (dc_fragments dc) key = Some a0" "limits_ok l1"
    and "lm_used l1 + am_lease a0 = lm_used l + am_lease a" "am_lease a \<le> lm_used l1"
    and "de_metadata E \<le> am_lease a" "am_expires a = am_expires a0"
  shows "\<exists>l' a'. asm_poison E l1 a clock = Some (l', a') \<and> am_poisoned a' \<and> am_expires a' = am_expires a0 \<and>
    dec_ok E (H(key := h)) l' (dc_put dc key a') \<and> balanced l dc l' (dc_put dc key a')"
proof -
  obtain l' held granted where r: "lease_resize l1 (am_lease a) (de_metadata E) clock = Some (l', held, granted)"
    "limits_ok l'" "lm_used l' + am_lease a = lm_used l1 + held" "held = (if granted then de_metadata E else am_lease a)"
    "de_metadata E \<le> am_lease a \<longrightarrow> granted"
    using bb.resize_held [OF assms(3,5), of "de_metadata E" clock] by blast
  define a' where "a' = a\<lparr>am_ranges := as_empty E, am_data := [], am_capacity := 0, am_lease := held, am_poisoned := True\<rparr>"
  have "held = de_metadata E" using r(4,5) assms(6) by simp
  then have "asm_ok E h a'" by (simp add: asm_ok_def a'_def)
  moreover have "lm_used l' + am_lease a0 = lm_used l + am_lease a'" using assms(4) r(3) by (simp add: a'_def)
  moreover have "am_expires a' = am_expires a0" using assms(7) by (simp add: a'_def)
  ultimately have "dec_ok E (H(key := h)) l' (dc_put dc key a') \<and> balanced l dc l' (dc_put dc key a')"
    by (intro dc_put_ok [OF assms(1,2) r(2)])
  moreover have "asm_poison E l1 a clock = Some (l', a')" by (simp add: asm_poison_def r(1) a'_def)
  ultimately show ?thesis using assms(7) by (simp add: a'_def)
qed

lemma dc_entry_ok:
  assumes "dec_ok E H l dc" "assembler_ok E"
  shows "\<exists>l' dc' ok. dc_entry E l dc key protocol prefix now bnd = Some (l', dc', ok) \<and>
    balanced l dc l' dc' \<and>
    dec_ok E (if map_of (dc_fragments dc) key = None then H(key := []) else H) l' dc' \<and>
    (ok \<longrightarrow> map_of (dc_fragments dc') key \<noteq> None) \<and>
    (map_of (dc_fragments dc) key \<noteq> None \<longrightarrow> ok \<and> dc' = dc)"
proof (cases "map_of (dc_fragments dc) key")
  case (Some a)
  with assms show ?thesis by (auto simp: dc_entry_def)
next
  case None
  obtain l' r where r: "lease_reserve l (de_metadata E) now = Some (l', r)" "limits_ok l'"
    "case r of None \<Rightarrow> lm_used l' = lm_used l | Some h \<Rightarrow> h = de_metadata E \<and> lm_used l' = lm_used l + de_metadata E"
    using lease_reserve_held [of l "de_metadata E" now] assms by (auto simp: dec_ok_def)
  have dist: "distinct (map fst (dc_fragments dc))" using assms by (simp add: dec_ok_def)
  have H: "dec_ok E (H(key := [])) l dc"
    using dc_remove_ok [OF assms(1), of key "[]"] None by (auto simp: dc_remove_def)
  show ?thesis
  proof (cases r)
    case None
    with r H \<open>map_of (dc_fragments dc) key = None\<close> show ?thesis
      by (auto simp: dc_entry_def dec_ok_def balanced_def)
  next
    case (Some h)
    define expires where "expires = (case bnd of None \<Rightarrow> now + REASSEMBLY_LIFETIME | Some b \<Rightarrow> bd_expires b)"
    define a where "a = \<lparr>am_binding = bnd, am_lease = h, am_expires = expires, am_ranges = as_empty E, am_data = [],
      am_capacity = 0, am_protocol = protocol, am_prefix = prefix, am_total = None, am_poisoned = False\<rparr>"
    define t where "t = (case dc_next_expiry dc of None \<Rightarrow> expires | Some t \<Rightarrow> min t expires)"
    define dc' where "dc' = dc\<lparr>dc_next_expiry := Some t, dc_fragments := AList.update key a (dc_fragments dc)\<rparr>"
    have step: "dc_entry E l dc key protocol prefix now bnd = Some (l', dc', True)"
      unfolding dc_entry_def dc'_def a_def t_def expires_def using None r(1) Some by (simp add: Let_def)
    have h: "h = de_metadata E" "lm_used l' = lm_used l + h" using r(3) Some by simp_all
    have "asm_ok E [] a" using assms(2) h by (simp add: asm_ok_def a_def assembler_ok_def)
    moreover have "t \<le> expires" by (simp add: t_def split: option.splits)
    moreover have "t \<le> am_expires b" if "\<exists>u. dc_next_expiry dc = Some u \<and> u \<le> am_expires b" for b :: "'a assembly"
      using that by (auto simp: t_def)
    ultimately have "table_all (\<lambda>k a. asm_ok E ((H(key := [])) k) a \<and> (\<exists>u. Some t = Some u \<and> u \<le> am_expires a))
        (AList.update key a (dc_fragments dc))"
      by (intro table_all_replace [OF dist, of "\<lambda>k a. asm_ok E (H k) a \<and> (\<exists>u. dc_next_expiry dc = Some u \<and> u \<le> am_expires a)"])
        (use assms(1) in \<open>auto simp: dec_ok_def a_def\<close>)
    moreover have sum: "table_sum am_lease (AList.update key a (dc_fragments dc)) = dc_held dc + h"
      using table_sum_insert [OF None, of am_lease a] by (simp add: a_def)
    ultimately have "dec_ok E (H(key := [])) l' dc'" "balanced l dc l' dc'"
      using r(2) h assms(1) distinct_update [OF dist, of key a]
      by (simp_all add: dec_ok_def dc'_def balanced_def)
    with step None show ?thesis by (auto simp: dc'_def update_conv')
  qed
qed

lemma splice_length: "off + length b \<le> length d \<Longrightarrow> length (splice d off b) = length d"
  by (simp add: splice_def)

lemma splice_nth:
  assumes "off + length b \<le> length d" "i < length d"
  shows "splice d off b ! i = (if off \<le> i \<and> i < off + length b then b ! (i - off) else d ! i)"
  using assms by (auto simp: splice_def nth_append min_def)

lemma carried_splice:
  assumes "off + length b \<le> length d" "i < length d"
    and "i \<in> {off..<off + length b} \<or> carried H d i"
  shows "carried (H @ [(off, b)]) (splice d off b) i"
proof (cases "off \<le> i \<and> i < off + length b")
  case True
  then show ?thesis using splice_nth [OF assms(1,2)] by (auto simp: carried_def)
next
  case False
  then have "carried H d i" "splice d off b ! i = d ! i" using assms splice_nth [OF assms(1,2)] by auto
  then show ?thesis by (auto simp: carried_def)
qed

text \<open>Every byte of the delivered data was carried by a fragment of the history.\<close>

definition delivered :: "(nat \<times> bytes) list \<Rightarrow> bytes option \<Rightarrow> bool" where
  "delivered h res = (case res of None \<Rightarrow> True | Some d \<Rightarrow> list_all (carried h d) [0..<length d])"

lemma asm_recorded:
  assumes "assembler_ok E" "asm_ok E h a" "\<not> am_poisoned a" "fr_offset f + length b \<le> length (am_data a)"
    and "\<not> fr_more f \<longrightarrow> length (am_data a) = fr_offset f + length b"
    and "as_add E (am_ranges a) (fr_offset f) (length b) = Some r"
  defines "off \<equiv> fr_offset f" and "a' \<equiv> asm_fill a f b r"
  shows "asm_ok E (h @ [(off, b)]) a'"
    and "am_total a' = Some (as_front E r) \<Longrightarrow> delivered (h @ [(off, b)]) (Some (am_data a'))"
proof -
  note a' = a'_def asm_fill_def [of a f b r, folded off_def]
  note assms = assms [folded off_def]
  have cov: "covered E r = covered E (am_ranges a) \<union> {off..<off + length b}"
    using assms(1,6) by (auto simp: assembler_ok_def)
  have old: "covered E (am_ranges a) \<subseteq> {i. i < length (am_data a) \<and> carried h (am_data a) i}"
    using assms(2,3) by (simp add: asm_ok_def)
  have new: "covered E r \<subseteq> {i. i < length (am_data a) \<and> carried (h @ [(off, b)]) (splice (am_data a) off b) i}"
  proof
    fix i assume i: "i \<in> covered E r"
    then have "i < length (am_data a)" using cov old assms(4) by auto
    moreover have "i \<in> {off..<off + length b} \<or> carried h (am_data a) i" using i cov old by auto
    ultimately show "i \<in> {i. i < length (am_data a) \<and> carried (h @ [(off, b)]) (splice (am_data a) off b) i}"
      using carried_splice [OF assms(4)] by simp
  qed
  then show ok: "asm_ok E (h @ [(off, b)]) a'"
    using assms(2-5) splice_length [OF assms(4)] by (auto simp: asm_ok_def a' split: option.splits)
  assume "am_total a' = Some (as_front E r)"
  then have "length (am_data a') = as_front E r" using ok assms(3) by (simp add: asm_ok_def a')
  moreover have "{..<as_front E r} \<subseteq> covered E r" using assms(1) by (simp add: assembler_ok_def)
  ultimately show "delivered (h @ [(off, b)]) (Some (am_data a'))"
    using new by (auto simp: delivered_def list_all_iff a')
qed

lemma asm_record_ok:
  assumes "assembler_ok E" "dec_ok E H l0 dc" "map_of (dc_fragments dc) key = Some a0"
    and "limits_ok l" "lm_used l + am_lease a0 = lm_used l0 + am_lease a" "am_lease a \<le> lm_used l"
    and "am_expires a = am_expires a0" "asm_ok E (H key) a" "\<not> am_poisoned a"
    and "fr_offset f + length data \<le> length (am_data a)"
    and "\<not> fr_more f \<longrightarrow> length (am_data a) = fr_offset f + length data"
    and h: "h = H key @ [(fr_offset f, data)]"
  shows "\<exists>l' dc' res. asm_record E l dc key a f data now clock = Some (l', dc', res) \<and>
    dec_ok E (H(key := h)) l' dc' \<and> balanced l0 dc l' dc' \<and> delivered h res"
proof (cases "as_add E (am_ranges a) (fr_offset f) (length data)")
  case None
  have "de_metadata E \<le> am_lease a" using assms(8) by (simp add: asm_ok_def)
  from asm_poison_ok [OF assms(2-6) this assms(7), of clock h] obtain l' a' where
    "asm_poison E l a clock = Some (l', a')" "dec_ok E (H(key := h)) l' (dc_put dc key a')"
    "balanced l0 dc l' (dc_put dc key a')" by blast
  with None show ?thesis by (simp add: asm_record_def delivered_def)
next
  case (Some r)
  define a' where "a' = asm_fill a f data r"
  have same: "am_lease a' = am_lease a" "am_expires a' = am_expires a" by (simp_all add: a'_def asm_fill_def)
  note rec = asm_recorded [OF assms(1,8-11) Some, folded a'_def h]
  have put: "dec_ok E (H(key := h)) l (dc_put dc key a') \<and> balanced l0 dc l (dc_put dc key a')"
    by (rule dc_put_ok [OF assms(2-4) _ rec(1)]) (use assms(5,7) same in simp_all)
  show ?thesis
  proof (cases "am_total a' = Some (as_front E r)")
    case False
    with Some put assms(10) show ?thesis by (simp add: asm_record_def a'_def [symmetric] Let_def delivered_def)
  next
    case True
    define l1 where "l1 = lease_complete l (am_lease a') now"
    have "limits_ok l1" "lm_used l1 = lm_used l"
      using bb.learn_held [OF assms(4), of "am_lease a'" now] by (simp_all add: l1_def)
    then have "dec_ok E (H(key := h)) l1 (dc_put dc key a')" "balanced l0 dc l1 (dc_put dc key a')"
      using put by (simp_all add: dec_ok_def balanced_def)
    with dc_remove_ok [OF this(1), of key h] obtain l' dc' x where
      "dc_remove l1 (dc_put dc key a') key = Some (l', dc', x)" "dec_ok E (H(key := h)) l' dc'" "balanced l0 dc l' dc'"
      using balanced_trans by fastforce
    with Some True rec(2) assms(10) show ?thesis
      by (simp add: asm_record_def a'_def [symmetric] l1_def Let_def)
  qed
qed

lemma dc_put_remove_ok:
  assumes "dec_ok E H l0 dc" "map_of (dc_fragments dc) key = Some a0" "limits_ok l"
    and "lm_used l + am_lease a0 = lm_used l0 + am_lease a" "am_lease a \<le> lm_used l"
  shows "\<exists>l' dc'. dc_remove l (dc_put dc key a) key = Some (l', dc', Some a) \<and> dec_ok E (H(key := h)) l' dc' \<and>
    balanced l0 dc l' dc'"
proof -
  obtain l1 dc1 where r: "dc_remove l0 dc key = Some (l1, dc1, Some a0)" "dec_ok E (H(key := h)) l1 dc1"
    "balanced l0 dc l1 dc1" "dc_fragments dc1 = AList.delete key (dc_fragments dc)"
    using dc_remove_ok [OF assms(1), of key h] assms(2) by auto
  then have dc1: "dc1 = dc\<lparr>dc_fragments := AList.delete key (dc_fragments dc)\<rparr>" and l1: "lm_used l1 + am_lease a0 = lm_used l0"
    using assms(2) by (auto simp: dc_remove_def lease_drop_def split: if_splits)
  obtain l' where l': "lease_drop l (am_lease a) = Some l'" "limits_ok l'" "lm_used l' + am_lease a = lm_used l"
    using bb.release_held [OF assms(3,5)] by blast
  have "lm_used l' = lm_used l1" using l1 l'(3) assms(4) by simp
  then have "dec_ok E (H(key := h)) l' dc1 \<and> balanced l0 dc l' dc1" using r(2,3) l'(2) by (simp add: dec_ok_def balanced_def)
  moreover have "dc_remove l (dc_put dc key a) key = Some (l', dc1, Some a)"
    using l'(1) by (simp add: dc_remove_def dc_put_def update_conv' dc1 delete_update_same)
  ultimately show ?thesis by blast
qed

lemma asm_ok_grown:
  assumes "asm_ok E h a" "\<not> am_poisoned a" "length (am_data a) \<le> n" "n \<le> cap"
    and "case am_total a of None \<Rightarrow> True | Some t \<Rightarrow> n \<le> t"
  shows "asm_ok E h (a\<lparr>am_lease := de_metadata E + cap, am_capacity := cap,
    am_data := am_data a @ replicate (n - length (am_data a)) 0\<rparr>)"
proof -
  have "carried h (am_data a @ z) i" if "carried h (am_data a) i" "i < length (am_data a)" for z i
    using that by (simp add: carried_def nth_append)
  then show ?thesis using assms by (auto simp: asm_ok_def subset_iff split: option.splits)
qed

lemma asm_accept_ok:
  assumes "assembler_ok E" "dec_ok E H l dc" "map_of (dc_fragments dc) key = Some a0"
    and "am_lease a = am_lease a0" "am_expires a = am_expires a0" "asm_ok E (H key) a" "\<not> am_poisoned a"
    and "case am_total a of None \<Rightarrow> True | Some t \<Rightarrow> fr_offset f + length data \<le> t"
    and "\<not> fr_more f \<longrightarrow> length (am_data a) \<le> fr_offset f + length data"
    and h: "h = H key @ [(fr_offset f, data)]"
  shows "\<exists>l' dc' res. asm_accept E l dc key a f data now clock alloc = Some (l', dc', res) \<and>
    dec_ok E (H(key := h)) l' dc' \<and> balanced l dc l' dc' \<and> delivered h res"
proof -
  define len where "len = max (length (am_data a)) (fr_offset f + length data)"
  define need where "need = de_metadata E + max (am_capacity a) len"
  define cap where "cap = reserve_exact (am_capacity a) len alloc"
  have l: "limits_ok l" "am_lease a \<le> lm_used l" using assms(2,4) dec_ok_asm [OF assms(2,3)] by (simp_all add: dec_ok_def)
  obtain l1 h1 ok1 where r1: "lease_resize l (am_lease a) need now = Some (l1, h1, ok1)" "limits_ok l1"
    "lm_used l1 + am_lease a = lm_used l + h1" "h1 = (if ok1 then need else am_lease a)"
    using bb.resize_held [OF l, of need now] by blast
  define a1 where "a1 = a\<lparr>am_lease := h1\<rparr>"
  have m1: "am_lease a1 \<le> lm_used l1" "lm_used l1 + am_lease a0 = lm_used l + am_lease a1"
    using r1(3) l(2) assms(4) by (simp_all add: a1_def)
  show ?thesis
  proof (cases ok1)
    case False
    from dc_put_remove_ok [OF assms(2,3) r1(2) m1(2,1), of h] r1(1) False show ?thesis
      by (auto simp: asm_accept_def len_def [symmetric] need_def [symmetric] a1_def Let_def delivered_def)
  next
    case True
    obtain l2 h2 ok2 where r2: "lease_resize l1 h1 (de_metadata E + cap) now = Some (l2, h2, ok2)" "limits_ok l2"
      "lm_used l2 + h1 = lm_used l1 + h2" "h2 = (if ok2 then de_metadata E + cap else h1)"
      using bb.resize_held [OF r1(2), of h1 "de_metadata E + cap" now] m1(1) by (auto simp: a1_def)
    define a2 where "a2 = a1\<lparr>am_lease := h2, am_capacity := cap\<rparr>"
    have m2: "am_lease a2 \<le> lm_used l2" "lm_used l2 + am_lease a0 = lm_used l + am_lease a2"
      using r2(3) m1 by (simp_all add: a2_def a1_def)
    have step: "asm_accept E l dc key a f data now clock alloc =
        (if \<not> ok2 then map_option (\<lambda>(l, dc, _). (l, dc, None)) (dc_remove l2 (dc_put dc key a2) key)
         else asm_record E l2 dc key (a2\<lparr>am_data := am_data a2 @ replicate (len - length (am_data a2)) 0\<rparr>) f data now clock)"
      using r1(1) r2(1) True
      by (simp add: asm_accept_def len_def [symmetric] need_def [symmetric] cap_def [symmetric] a2_def a1_def Let_def)
    show ?thesis
    proof (cases ok2)
      case False
      from dc_put_remove_ok [OF assms(2,3) r2(2) m2(2,1), of h] False step show ?thesis
        by (auto simp: delivered_def)
    next
      case ok2: True
      define a3 where "a3 = a2\<lparr>am_data := am_data a2 @ replicate (len - length (am_data a2)) 0\<rparr>"
      have a3: "a3 = a\<lparr>am_lease := de_metadata E + cap, am_capacity := cap, am_data := am_data a @ replicate (len - length (am_data a)) 0\<rparr>"
        using ok2 r2(4) by (simp add: a3_def a2_def a1_def)
      have "case am_total a of None \<Rightarrow> True | Some t \<Rightarrow> len \<le> t"
        using assms(6-8) by (auto simp: asm_ok_def len_def split: option.splits)
      then have ok3: "asm_ok E (H key) a3" unfolding a3
        by (intro asm_ok_grown [OF assms(6,7)]) (auto simp: len_def cap_def reserve_exact_def)
      have "length (am_data a3) = len" by (simp add: a3 len_def)
      then have fit: "fr_offset f + length data \<le> length (am_data a3)"
        "\<not> fr_more f \<longrightarrow> length (am_data a3) = fr_offset f + length data" using assms(9) by (simp_all add: len_def)
      have same: "am_lease a3 = am_lease a2" "am_expires a3 = am_expires a0" "\<not> am_poisoned a3"
        using assms(5,7) by (simp_all add: a3_def a2_def a1_def)
      have "\<exists>l' dc' res. asm_record E l2 dc key a3 f data now clock = Some (l', dc', res) \<and>
          dec_ok E (H(key := h)) l' dc' \<and> balanced l dc l' dc' \<and> delivered h res"
        by (rule asm_record_ok [OF assms(1-3) r2(2) _ _ same(2) ok3 same(3) fit h]) (use m2 same(1) in simp_all)
      with step ok2 show ?thesis by (simp add: a3_def)
    qed
  qed
qed

section \<open>Reassembly\<close>

text \<open>Whether a key has an assembly at \<open>now\<close>, and the histories after a fragment was heard.\<close>

definition lives :: "'r decoder \<Rightarrow> frag_key \<Rightarrow> instant \<Rightarrow> bool" where
  "lives dc key now = (case map_of (dc_fragments dc) key of None \<Rightarrow> False | Some a \<Rightarrow> now < am_expires a)"

definition heard :: "(frag_key \<Rightarrow> (nat \<times> bytes) list) \<Rightarrow> 'r decoder \<Rightarrow> frag_key \<Rightarrow> ip_fragment \<Rightarrow> bytes \<Rightarrow> instant \<Rightarrow>
    (nat \<times> bytes) list" where
  "heard H dc key f data now = (if lives dc key now then H key else []) @ [(fr_offset f, data)]"

lemma dec_ok_history:
  assumes "dec_ok E H l dc" "set (H key) \<subseteq> set h"
  shows "dec_ok E (H(key := h)) l dc"
proof -
  have "table_all (\<lambda>k a. asm_ok E ((H(key := h)) k) a \<and> (\<exists>t. dc_next_expiry dc = Some t \<and> t \<le> am_expires a)) (dc_fragments dc)"
    by (rule table_all_mono [of "\<lambda>k a. asm_ok E (H k) a \<and> (\<exists>t. dc_next_expiry dc = Some t \<and> t \<le> am_expires a)"])
      (use assms asm_ok_mono in \<open>auto simp: dec_ok_def\<close>)
  with assms(1) show ?thesis by (simp add: dec_ok_def)
qed

lemma reassemble_ok:
  assumes "assembler_ok E" "dec_ok E H l dc" "fragment_ok f" and h: "h = heard H dc key f data now"
  shows "\<exists>l' dc' res. reassemble E l dc key protocol f data now clock bnd alloc = Some (l', dc', res) \<and>
    dec_ok E (H(key := h)) l' dc' \<and> balanced l dc l' dc' \<and> delivered h res"
proof -
  obtain l1 dc1 where e: "dc_expire l dc now = Some (l1, dc1)" "dec_ok E H l1 dc1" "balanced l dc l1 dc1"
    "map_of (dc_fragments dc1) key = (case map_of (dc_fragments dc) key of None \<Rightarrow> None
       | Some a \<Rightarrow> if now < am_expires a then Some a else None)"
    using dc_expire_ok [OF assms(2), of now] by blast
  have live: "lives dc key now \<longleftrightarrow> map_of (dc_fragments dc1) key \<noteq> None"
    using e(4) by (auto simp: lives_def split: option.splits)
  define H1 where "H1 = (if map_of (dc_fragments dc1) key = None then H(key := []) else H)"
  obtain l2 dc2 ok where n: "dc_entry E l1 dc1 key protocol (fr_prefix f) now bnd = Some (l2, dc2, ok)"
    "balanced l1 dc1 l2 dc2" "dec_ok E H1 l2 dc2" "ok \<longrightarrow> map_of (dc_fragments dc2) key \<noteq> None"
    using dc_entry_ok [OF e(2) assms(1), of key protocol "fr_prefix f" now bnd] unfolding H1_def by blast
  have h1: "h = H1 key @ [(fr_offset f, data)]" using live by (simp add: h heard_def H1_def)
  have upd: "H1(key := h) = H(key := h)" by (simp add: H1_def)
  have bal: "balanced l dc l2 dc2" using e(3) n(2) by (rule balanced_trans)
  have kept: "dec_ok E (H(key := h)) l2 dc2" using dec_ok_history [OF n(3), of key h] h1 upd by auto
  have pre: "\<not> (65535 < fr_prefix f \<or> 65528 < fr_offset f \<or> fr_offset f mod 8 \<noteq> 0)"
    using assms(3) by (simp add: fragment_ok_def)
  show ?thesis
  proof (cases "\<not> ok \<or> map_of (dc_fragments dc2) key = None \<or> am_poisoned (the (map_of (dc_fragments dc2) key))")
    case True
    then have "reassemble E l dc key protocol f data now clock bnd alloc = Some (l2, dc2, None)"
      using e(1) n(1) pre by (auto simp: reassemble_def split: option.splits)
    with bal kept show ?thesis by (simp add: delivered_def)
  next
    case False
    then obtain a0 where a0: "ok" "map_of (dc_fragments dc2) key = Some a0" "\<not> am_poisoned a0" by auto
    define ipv4 where "ipv4 = (fk_v4_protocol key \<noteq> None)"
    define a where "a = asm_prefixed ipv4 a0 f"
    define prefix where "prefix = asm_limit_prefix ipv4 a f"
    have step: "reassemble E l dc key protocol f data now clock bnd alloc =
        (if asm_conflict E ipv4 a prefix protocol f data
         then map_option (\<lambda>(l, a). (l, dc_put dc2 key a, None)) (asm_poison E l2 a clock)
         else asm_accept E l2 dc2 key a f data now clock alloc)"
      using e(1) n(1) pre a0
      by (simp only: reassemble_def ipv4_def [symmetric]) (simp add: a_def [symmetric] prefix_def [symmetric] Let_def)
    have same: "am_lease a = am_lease a0" "am_expires a = am_expires a0" "\<not> am_poisoned a"
      using a0(3) by (simp_all add: a_def asm_prefixed_def)
    have ok0: "asm_ok E (H1 key) a0" "am_lease a0 \<le> lm_used l2" using dec_ok_asm [OF n(3) a0(2)] by simp_all
    then have aok: "asm_ok E (H1 key) a" by (simp add: a_def asm_prefixed_def asm_ok_def split: option.splits)
    have l2: "limits_ok l2" using n(3) by (simp add: dec_ok_def)
    show ?thesis
    proof (cases "asm_conflict E ipv4 a prefix protocol f data")
      case True
      have "de_metadata E \<le> am_lease a" using aok by (simp add: asm_ok_def)
      from asm_poison_ok [OF n(3) a0(2) l2 _ _ this same(2), of clock h] same(1) ok0(2) obtain l' a' where
        "asm_poison E l2 a clock = Some (l', a')" "dec_ok E (H(key := h)) l' (dc_put dc2 key a')"
        "balanced l2 dc2 l' (dc_put dc2 key a')" by (auto simp: upd)
      with step True bal show ?thesis by (auto simp: delivered_def intro: balanced_trans)
    next
      case False
      then have "case am_total a of None \<Rightarrow> True | Some t \<Rightarrow> fr_offset f + length data \<le> t"
        "\<not> fr_more f \<longrightarrow> length (am_data a) \<le> fr_offset f + length data"
        by (auto simp: asm_conflict_def Let_def split: option.splits)
      from asm_accept_ok [OF assms(1) n(3) a0(2) same(1,2) aok same(3) this h1, of now clock alloc] step False bal
      show ?thesis by (auto simp: upd intro: balanced_trans)
    qed
  qed
qed

lemma decode_with_ok:
  assumes "assembler_ok E" "dec_ok E H l dc" "parsed_ok p"
  shows "\<exists>H' l' dc' res. decode_with E l dc p now clock bnd alloc = Some (l', dc', res) \<and>
    dec_ok E H' l' dc' \<and> balanced l dc l' dc' \<and>
    (case res of None \<Rightarrow> True | Some k \<Rightarrow> pk_ip k = (pa_ip p)\<lparr>ip_len := length (pk_payload k)\<rparr>)"
proof (cases "pa_fragment p")
  case None
  with assms(2) show ?thesis by (auto simp: decode_with_def)
next
  case (Some f)
  then obtain key where key: "fragment_key p = Some key" by (simp add: fragment_key_def)
  have "fragment_ok f" using assms(3) Some by (simp add: parsed_ok_def)
  from reassemble_ok [OF assms(1,2) this refl, where key = key and data = "pa_payload p" and now = now and
    protocol = "ip_next (pa_ip p)" and clock = clock and bnd = bnd and alloc = alloc]
  obtain l' dc' res H' where "reassemble E l dc key (ip_next (pa_ip p)) f (pa_payload p) now clock bnd alloc = Some (l', dc', res)"
    "dec_ok E H' l' dc'" "balanced l dc l' dc'" by blast
  with Some key show ?thesis by (cases res) (auto simp: decode_with_def)
qed

section \<open>A range tracker\<close>

text \<open>
  A concrete tracker with the behaviour the decoder relies on: a list of at most 32 ranges, whose
  covered prefix is computed byte by byte.
\<close>

definition in_ranges :: "(nat \<times> nat) list \<Rightarrow> nat \<Rightarrow> bool" where
  "in_ranges r i = list_ex (\<lambda>(start, stop). start \<le> i \<and> i < stop) r"

definition ranges_env :: "ip_wire \<Rightarrow> nat \<Rightarrow> (nat \<times> nat) list dec_env" where
  "ranges_env W meta =
     \<lparr>as_empty = [], as_add = (\<lambda>r off len. if length r < 32 then Some (r @ [(off, off + len)]) else None),
      as_front = (\<lambda>r. length (takeWhile (in_ranges r) [0..<sum_list (map snd r) + 1])),
      as_ranges = (\<lambda>r. r), de_wire = W, de_metadata = meta\<rparr>"

lemma in_ranges_bound: "\<not> in_ranges r (sum_list (map snd r))"
proof
  assume "in_ranges r (sum_list (map snd r))"
  then obtain start stop where "(start, stop) \<in> set r" "sum_list (map snd r) < stop"
    by (auto simp: in_ranges_def list_ex_iff)
  moreover from this(1) have "stop \<le> sum_list (map snd r)"
    using member_le_sum_list [of stop "map snd r"] by force
  ultimately show False by simp
qed

lemma takeWhile_upt: "{..<length (takeWhile P [0..<n])} \<subseteq> {i. P i} \<and> (length (takeWhile P [0..<n]) < n \<longrightarrow> \<not> P (length (takeWhile P [0..<n])))"
proof -
  let ?k = "length (takeWhile P [0..<n])"
  have "P i" if "i < ?k" for i
    using nth_mem [OF that] that set_takeWhileD [of "takeWhile P [0..<n] ! i" P "[0..<n]"]
    by (metis add_0 diff_zero length_takeWhile_le length_upt nth_upt order_less_le_trans takeWhile_nth)
  moreover have "\<not> P ?k" if "?k < n" using nth_length_takeWhile [of P "[0..<n]"] that by simp
  ultimately show ?thesis by auto
qed

lemma ranges_env_ok: "assembler_ok (ranges_env W meta)"
proof -
  have cov: "covered (ranges_env W meta) r = {i. in_ranges r i}" for r
    by (simp add: covered_def ranges_env_def in_ranges_def)
  have front: "as_front (ranges_env W meta) r < sum_list (map snd r) + 1" for r
  proof (rule ccontr)
    assume "\<not> as_front (ranges_env W meta) r < sum_list (map snd r) + 1"
    then have "sum_list (map snd r) \<in> {..<length (takeWhile (in_ranges r) [0..<sum_list (map snd r) + 1])}"
      by (simp add: ranges_env_def)
    with takeWhile_upt [of "in_ranges r" "sum_list (map snd r) + 1"] in_ranges_bound [of r] show False by blast
  qed
  show ?thesis
    unfolding assembler_ok_def cov
  proof (intro conjI allI impI)
    show "{i. in_ranges (as_empty (ranges_env W meta)) i} = {}" by (simp add: ranges_env_def in_ranges_def)
    fix r off len r'
    assume "as_add (ranges_env W meta) r off len = Some r'"
    then show "{i. in_ranges r' i} = {i. in_ranges r i} \<union> {off..<off + len}"
      by (auto simp: ranges_env_def in_ranges_def split: if_splits)
  next
    fix r
    show "{..<as_front (ranges_env W meta) r} \<subseteq> {i. in_ranges r i}" "as_front (ranges_env W meta) r \<notin> {i. in_ranges r i}"
      using takeWhile_upt [of "in_ranges r" "sum_list (map snd r) + 1"] front [of r] by (auto simp: ranges_env_def)
  qed
qed

section \<open>Properties\<close>

text \<open>
  C20. A reassembled datagram is made of its fragments: \<open>reassemble\<close> never panics and keeps the decoder's
  invariant; when it delivers data, every byte was carried to its position by one of the fragments
  heard since this datagram's assembly was opened, so no gap, stale byte or zero filling is delivered.
  The shared budget moves exactly by what the decoder's leases move.
\<close>

theorem reassemble_carries:
  assumes "assembler_ok E" "dec_ok E H l dc" "fragment_ok f"
  shows "\<exists>l' dc' res. reassemble E l dc key protocol f data now clock bnd alloc = Some (l', dc', res) \<and>
    dec_ok E (H(key := heard H dc key f data now)) l' dc' \<and>
    lm_used l' + dc_held dc = lm_used l + dc_held dc' \<and>
    (case res of None \<Rightarrow> True
     | Some d \<Rightarrow> list_all (\<lambda>i. \<exists>(off, b) \<in> set (heard H dc key f data now).
         off \<le> i \<and> i < off + length b \<and> d ! i = b ! (i - off)) [0..<length d])"
  using reassemble_ok [OF assms refl, where key = key and data = data and now = now and
      protocol = protocol and clock = clock and bnd = bnd and alloc = alloc]
  unfolding balanced_def delivered_def carried_def by (fastforce split: option.splits)

text \<open>A datagram of ten bytes in two fragments, and the decoder after the second one arrived first.\<close>

definition sample_key :: frag_key where
  "sample_key = \<lparr>fk_v4_protocol = Some 17, fk_source = V4 167772161, fk_destination = V4 167772162, fk_id = 7\<rparr>"

definition sample_head :: ip_fragment where
  "sample_head = \<lparr>fr_id = 7, fr_offset = 0, fr_more = True, fr_prefix = 20\<rparr>"

definition sample_tail :: ip_fragment where
  "sample_tail = \<lparr>fr_id = 7, fr_offset = 8, fr_more = False, fr_prefix = 20\<rparr>"

abbreviation sample_env :: "(nat \<times> nat) list dec_env" where
  "sample_env \<equiv> ranges_env sample_wire 100"

definition sample_assembly :: "(nat \<times> nat) list assembly" where
  "sample_assembly = \<lparr>am_binding = None, am_lease = 110, am_expires = 60000000000, am_ranges = [(8, 10)],
     am_data = [0, 0, 0, 0, 0, 0, 0, 0, 9, 10], am_capacity = 10, am_protocol = 17, am_prefix = 20, am_total = Some 10,
     am_poisoned = False\<rparr>"

definition sample_decoder :: "(nat \<times> nat) list decoder" where
  "sample_decoder = \<lparr>dc_fragments = [(sample_key, sample_assembly)], dc_next_expiry = Some 60000000000\<rparr>"

definition sample_limits :: limits where
  "sample_limits = (limits_new 1000 0)\<lparr>lm_used := 110\<rparr>"

lemma sample_decoder_ok: "dec_ok sample_env (\<lambda>k. [(8, [9, 10])]) sample_limits sample_decoder"
proof -
  have "covered sample_env [(8, 10)] = {8..<10}"
    by (auto simp: covered_def ranges_env_def)
  moreover have "{8..<10 :: nat} = {8, 9}" by auto
  moreover have "carried [(8, [9, 10])] (am_data sample_assembly) 8" "carried [(8, [9, 10])] (am_data sample_assembly) 9"
    by (simp_all add: carried_def sample_assembly_def)
  ultimately have "asm_ok sample_env [(8, [9, 10])] sample_assembly"
    by (simp add: asm_ok_def) (simp add: sample_assembly_def ranges_env_def)
  moreover have "limits_ok sample_limits"
    using cap_ok_new [of 1000 0] by (simp add: limits_ok_def sample_limits_def limits_new_def usize_max_def)
  moreover have "lm_used sample_limits = 110" "am_lease sample_assembly = 110" "am_expires sample_assembly = 60000000000"
    by (simp_all add: sample_limits_def sample_assembly_def)
  ultimately show ?thesis
    by (simp add: dec_ok_def sample_decoder_def table_all_def)
qed

theorem reassemble_carries_witness:
  "\<exists>l' dc' res. reassemble sample_env sample_limits sample_decoder sample_key 17 sample_head [1, 2, 3, 4, 5, 6, 7, 8] 5 5 None 0 =
      Some (l', dc', res) \<and>
    lm_used l' + dc_held sample_decoder = lm_used sample_limits + dc_held dc' \<and>
    heard (\<lambda>k. [(8, [9, 10])]) sample_decoder sample_key sample_head [1, 2, 3, 4, 5, 6, 7, 8] 5 =
      [(8, [9, 10]), (0, [1, 2, 3, 4, 5, 6, 7, 8])] \<and>
    res = Some [1, 2, 3, 4, 5, 6, 7, 8, 9, 10]"
proof -
  have heard: "heard (\<lambda>k. [(8, [9, 10])]) sample_decoder sample_key sample_head [1, 2, 3, 4, 5, 6, 7, 8] 5 =
      [(8, [9, 10]), (0, [1, 2, 3, 4, 5, 6, 7, 8])]"
    by (simp add: heard_def lives_def sample_decoder_def sample_assembly_def sample_head_def)
  have f: "fragment_ok sample_head" by (simp add: fragment_ok_def sample_head_def)
  obtain l' dc' res where r: "reassemble sample_env sample_limits sample_decoder sample_key 17 sample_head [1, 2, 3, 4, 5, 6, 7, 8] 5 5 None 0 =
      Some (l', dc', res)" "lm_used l' + dc_held sample_decoder = lm_used sample_limits + dc_held dc'"
    using reassemble_carries [OF ranges_env_ok sample_decoder_ok f, of sample_key 17 "[1, 2, 3, 4, 5, 6, 7, 8]" 5 5 None 0]
    by (elim exE conjE) (rule that)
  have front: "as_front sample_env [(8, 10), (0, 8)] = 10"
    by (simp add: ranges_env_def in_ranges_def upt_conv_Cons del: upt_Suc)
  have filled: "asm_fill sample_assembly sample_head [1, 2, 3, 4, 5, 6, 7, 8] [(8, 10), (0, 8)] =
      sample_assembly\<lparr>am_ranges := [(8, 10), (0, 8)], am_data := [1, 2, 3, 4, 5, 6, 7, 8, 9, 10]\<rparr>"
    by (simp add: asm_fill_def sample_head_def sample_assembly_def splice_def)
  have resize: "lease_resize sample_limits 110 110 5 = Some (sample_limits, 110, True)"
    by (simp add: lease_resize_def sample_limits_def limits_new_def checked_add_def usize_max_def)
  define a where "a = sample_assembly\<lparr>am_ranges := [(8, 10), (0, 8)], am_data := [1, 2, 3, 4, 5, 6, 7, 8, 9, 10]\<rparr>"
  have a: "length (am_data sample_assembly) = 10" "am_capacity sample_assembly = 10" "am_lease sample_assembly = 110"
    "am_ranges sample_assembly = [(8, 10)]" "sample_assembly\<lparr>am_lease := 110\<rparr> = sample_assembly"
    "sample_assembly\<lparr>am_capacity := 10\<rparr> = sample_assembly"
    "am_total a = Some 10" "am_data a = [1, 2, 3, 4, 5, 6, 7, 8, 9, 10]" "am_lease a = 110"
    by (simp_all add: a_def sample_assembly_def)
  have env: "de_metadata sample_env = 100" "as_add sample_env [(8, 10)] 0 8 = Some [(8, 10), (0, 8)]" "fr_offset sample_head = 0"
    by (simp_all add: ranges_env_def sample_head_def)
  define d :: bytes where "d = [1, 2, 3, 4, 5, 6, 7, 8]"
  have d: "length d = 8" by (simp add: d_def)
  have "lm_used (lease_complete sample_limits 110 5) = 110" by (simp add: lease_complete_def sample_limits_def)
  then have recorded: "\<exists>l dc. asm_record sample_env sample_limits sample_decoder sample_key sample_assembly sample_head
      d 5 5 = Some (l, dc, Some [1, 2, 3, 4, 5, 6, 7, 8, 9, 10])"
    by (simp add: asm_record_def a env filled [folded a_def d_def] d front dc_remove_def dc_put_def update_conv' lease_drop_def)
  have accept: "asm_accept sample_env sample_limits sample_decoder sample_key sample_assembly sample_head
      d 5 5 0 = asm_record sample_env sample_limits sample_decoder sample_key sample_assembly sample_head
      d 5 5"
    by (simp add: asm_accept_def a env resize d reserve_exact_def)
  have "\<not> asm_conflict sample_env True sample_assembly 20 17 sample_head [1, 2, 3, 4, 5, 6, 7, 8]"
    by (simp add: asm_conflict_def sample_head_def sample_assembly_def)
  moreover have "asm_prefixed True sample_assembly sample_head = sample_assembly" "asm_limit_prefix True sample_assembly sample_head = 20"
    "\<not> am_poisoned sample_assembly" by (simp_all add: asm_prefixed_def asm_limit_prefix_def sample_assembly_def sample_head_def)
  moreover have "dc_expire sample_limits sample_decoder 5 = Some (sample_limits, sample_decoder)"
    "map_of (dc_fragments sample_decoder) sample_key = Some sample_assembly" "fk_v4_protocol sample_key = Some 17"
    by (simp_all add: dc_expire_def sample_decoder_def sample_key_def)
  ultimately have "reassemble sample_env sample_limits sample_decoder sample_key 17 sample_head [1, 2, 3, 4, 5, 6, 7, 8] 5 5 None 0 =
      asm_accept sample_env sample_limits sample_decoder sample_key sample_assembly sample_head [1, 2, 3, 4, 5, 6, 7, 8] 5 5 0"
    using f by (simp add: reassemble_def dc_entry_def fragment_ok_def)
  then have "res = Some [1, 2, 3, 4, 5, 6, 7, 8, 9, 10]" using r(1) accept recorded unfolding d_def by (elim exE) simp
  with r heard show ?thesis by (intro exI conjI)
qed

text \<open>
  C22. Bytes from the device and the budget. Given only the documented checks of the accessors, \<open>decode\<close>
  panics exactly on an IPv4 packet whose header length field is below five and whose checksum over that
  shorter header holds. On all other bytes it returns; the invariant holds afterwards, so the budget
  covers exactly what the incomplete datagrams hold in addition to the other owners, and a delivered
  packet carries unicast addresses and the length of its payload.
\<close>

theorem decode_accounts_leases:
  assumes "ip_wire_ok (de_wire E)" "assembler_ok E" "dec_ok E H l dc"
  shows "if short_header (de_wire E) data then dc_decode E l dc data now clock alloc = None
    else \<exists>H' l' dc' res. dc_decode E l dc data now clock alloc = Some (l', dc', res) \<and> dec_ok E H' l' dc' \<and>
      lm_used l' + dc_held dc = lm_used l + dc_held dc' \<and>
      (case res of None \<Rightarrow> True
       | Some k \<Rightarrow> unicast (ip_src (pk_ip k)) \<and> unicast (ip_dst (pk_ip k)) \<and> ip_len (pk_ip k) = length (pk_payload k))"
proof (cases "parse_ip (de_wire E) data")
  case None
  then show ?thesis using parse_ip_ok(1) [OF assms(1), of data] by (simp add: dc_decode_def)
next
  case (Some r)
  then have long: "\<not> short_header (de_wire E) data" using parse_ip_ok(1) [OF assms(1), of data] by simp
  show ?thesis
  proof (cases r)
    case None
    with Some long assms(3) show ?thesis by (auto simp: dc_decode_def)
  next
    case p: (Some p)
    then have ok: "parsed_ok p" using parse_ip_ok(2) [OF assms(1)] Some by blast
    from decode_with_ok [OF assms(2,3) ok, of now clock None alloc] obtain H' l' dc' res where
      d: "decode_with E l dc p now clock None alloc = Some (l', dc', res)" "dec_ok E H' l' dc'" "balanced l dc l' dc'"
      "case res of None \<Rightarrow> True | Some k \<Rightarrow> pk_ip k = (pa_ip p)\<lparr>ip_len := length (pk_payload k)\<rparr>" by blast
    have step: "dc_decode E l dc data now clock alloc = Some (l', dc', res)" using Some p d(1) by (simp add: dc_decode_def)
    have "case res of None \<Rightarrow> True
       | Some k \<Rightarrow> unicast (ip_src (pk_ip k)) \<and> unicast (ip_dst (pk_ip k)) \<and> ip_len (pk_ip k) = length (pk_payload k)"
      using d(4) ok by (auto simp: parsed_ok_def admitted_def split: option.splits)
    with step d(2,3) long show ?thesis unfolding balanced_def by auto
  qed
qed

theorem decode_accounts_leases_witness:
  "dc_decode sample_env (limits_new 1000 0) (dc_new :: (nat \<times> nat) list decoder) short_packet 0 0 0 = None \<and>
    (\<exists>l' dc' res. dc_decode sample_env (limits_new 1000 0) dc_new sample_packet 0 0 0 = Some (l', dc', res) \<and>
      lm_used l' + dc_held (dc_new :: (nat \<times> nat) list decoder) = lm_used (limits_new 1000 0) + dc_held dc')"
proof -
  have wire: "de_wire sample_env = sample_wire" by (simp add: ranges_env_def)
  have "limits_ok (limits_new 1000 0)"
    using cap_ok_new [of 1000 0] by (simp add: limits_ok_def limits_new_def usize_max_def)
  then have "dec_ok sample_env (\<lambda>k. []) (limits_new 1000 0) dc_new" by (rule dec_ok_new)
  note all = decode_accounts_leases [OF _ ranges_env_ok this, unfolded wire, OF sample_wire_ok]
  show ?thesis
    using all [of short_packet 0 0 0] all [of sample_packet 0 0 0] short_packet_short sample_packet_not_short by auto
qed

text \<open>A sequence of fragments under one key.\<close>

fun hear :: "'r dec_env \<Rightarrow> limits \<Rightarrow> 'r decoder \<Rightarrow> frag_key \<Rightarrow> (protocol \<times> ip_fragment \<times> bytes \<times> instant \<times> binding option) list \<Rightarrow>
    (limits \<times> 'r decoder \<times> bytes option list) option" where
  "hear E l dc key [] = Some (l, dc, [])"
| "hear E l dc key ((protocol, f, data, now, bnd) # xs) =
     Option.bind (reassemble E l dc key protocol f data now now bnd 0) (\<lambda>(l, dc, r).
       map_option (\<lambda>(l, dc, rs). (l, dc, r # rs)) (hear E l dc key xs))"

lemma reassemble_poisoned:
  assumes "dec_ok E H l dc" "fragment_ok f" "map_of (dc_fragments dc) key = Some a" "am_poisoned a" "now < am_expires a"
  shows "\<exists>l' dc'. reassemble E l dc key protocol f data now clock bnd alloc = Some (l', dc', None) \<and> dec_ok E H l' dc' \<and>
    map_of (dc_fragments dc') key = Some a"
proof -
  obtain l1 dc1 where e: "dc_expire l dc now = Some (l1, dc1)" "dec_ok E H l1 dc1" "map_of (dc_fragments dc1) key = Some a"
    using dc_expire_ok [OF assms(1), of now] assms(3,5) by fastforce
  then show ?thesis using assms(2,4) by (simp add: reassemble_def dc_entry_def fragment_ok_def)
qed

lemma hear_poisoned:
  assumes "dec_ok E H l dc" "map_of (dc_fragments dc) key = Some a" "am_poisoned a"
    and "list_all (\<lambda>(protocol, f, data, now, bnd). fragment_ok f \<and> now < am_expires a) xs"
  shows "\<exists>l' dc'. hear E l dc key xs = Some (l', dc', replicate (length xs) None) \<and> map_of (dc_fragments dc') key = Some a"
  using assms(1,2,4)
proof (induction xs arbitrary: l dc)
  case (Cons x xs)
  obtain protocol f data now bnd where x: "x = (protocol, f, data, now, bnd)" by (cases x)
  from reassemble_poisoned [OF Cons.prems(1) _ Cons.prems(2) assms(3), of f now protocol data now bnd 0] Cons.prems(3)
  obtain l1 dc1 where r: "reassemble E l dc key protocol f data now now bnd 0 = Some (l1, dc1, None)" "dec_ok E H l1 dc1"
    "map_of (dc_fragments dc1) key = Some a" by (auto simp: x)
  from Cons.IH [OF r(2,3)] Cons.prems(3) r(1) show ?case by (auto simp: x)
qed simp

text \<open>
  C21. Overlapping IPv6 fragments never yield a datagram (RFC 5722): a fragment that overlaps a range
  already received discards the data and poisons the datagram, and from then on every fragment of that
  datagram is dropped until the datagram's original expiry.
\<close>

theorem overlap_poisons_until_expiry:
  assumes "dec_ok E H l dc" "fragment_ok f" "fk_v4_protocol key = None"
    and "map_of (dc_fragments dc) key = Some a" "now < am_expires a"
    and "list_ex (\<lambda>(start, stop). start < fr_offset f + length data \<and> fr_offset f < stop) (as_ranges E (am_ranges a))"
    and "list_all (\<lambda>(protocol, g, b, t, bnd). fragment_ok g \<and> t < am_expires a) later"
  shows "\<exists>l' dc'. hear E l dc key ((protocol, f, data, now, bnd) # later) = Some (l', dc', replicate (length later + 1) None) \<and>
    (case map_of (dc_fragments dc') key of None \<Rightarrow> False
     | Some a' \<Rightarrow> am_poisoned a' \<and> am_expires a' = am_expires a)"
proof (cases "am_poisoned a")
  case True
  from hear_poisoned [OF assms(1,4) True, of "(protocol, f, data, now, bnd) # later"] assms(2,5,7) True show ?thesis by auto
next
  case False
  obtain l1 dc1 where e: "dc_expire l dc now = Some (l1, dc1)" "dec_ok E H l1 dc1" "map_of (dc_fragments dc1) key = Some a"
    using dc_expire_ok [OF assms(1), of now] assms(4,5) by fastforce
  have conflict: "asm_conflict E False a (fr_prefix f) protocol f data"
    using assms(6) by (simp add: asm_conflict_def Let_def)
  have lease: "am_lease a \<le> lm_used l1" "de_metadata E \<le> am_lease a" "limits_ok l1"
    using dec_ok_asm [OF e(2,3)] e(2) by (auto simp: asm_ok_def dec_ok_def)
  from asm_poison_ok [OF e(2,3) lease(3) refl lease(1,2) refl, of now "H key"] obtain l2 a2 where
    p: "asm_poison E l1 a now = Some (l2, a2)" "am_poisoned a2" "am_expires a2 = am_expires a"
    "dec_ok E (H(key := H key)) l2 (dc_put dc1 key a2)" by blast
  have step: "reassemble E l dc key protocol f data now now bnd 0 = Some (l2, dc_put dc1 key a2, None)"
    using assms(2,3) e(1,3) False conflict p(1)
    by (simp add: reassemble_def dc_entry_def fragment_ok_def asm_prefixed_def asm_limit_prefix_def)
  have "map_of (dc_fragments (dc_put dc1 key a2)) key = Some a2" by (simp add: dc_put_def update_conv')
  from hear_poisoned [OF p(4) this p(2), of later] assms(7) p(2,3) step show ?thesis by auto
qed

definition sample_key6 :: frag_key where
  "sample_key6 = sample_key\<lparr>fk_v4_protocol := None\<rparr>"

theorem overlap_poisons_until_expiry_witness:
  "\<exists>l' dc'. hear sample_env sample_limits \<lparr>dc_fragments = [(sample_key6, sample_assembly)], dc_next_expiry = Some 60000000000\<rparr> sample_key6
      [(17, sample_tail, [9, 10], 5, None), (17, sample_head, [1, 2, 3, 4, 5, 6, 7, 8], 6, None)] = Some (l', dc', [None, None]) \<and>
    (case map_of (dc_fragments dc') sample_key6 of None \<Rightarrow> False
     | Some a' \<Rightarrow> am_poisoned a' \<and> am_expires a' = am_expires sample_assembly)"
proof -
  let ?dc = "\<lparr>dc_fragments = [(sample_key6, sample_assembly)], dc_next_expiry = Some 60000000000\<rparr>"
  have ok: "dec_ok sample_env (\<lambda>k. [(8, [9, 10])]) sample_limits ?dc"
    using sample_decoder_ok by (simp add: dec_ok_def sample_decoder_def table_all_def)
  have a: "am_expires sample_assembly = 60000000000" "am_ranges sample_assembly = [(8, 10)]" by (simp_all add: sample_assembly_def)
  let ?later = "[(17, sample_head, [1, 2, 3, 4, 5, 6, 7, 8], 6, None)] :: (protocol \<times> ip_fragment \<times> bytes \<times> instant \<times> binding option) list"
  have "\<exists>l' dc'. hear sample_env sample_limits ?dc sample_key6 ((17, sample_tail, [9, 10], 5, None) # ?later) =
        Some (l', dc', replicate (length ?later + 1) None) \<and>
    (case map_of (dc_fragments dc') sample_key6 of None \<Rightarrow> False
     | Some a' \<Rightarrow> am_poisoned a' \<and> am_expires a' = am_expires sample_assembly)"
    by (rule overlap_poisons_until_expiry [OF ok])
      (simp_all add: a fragment_ok_def sample_tail_def sample_head_def sample_key6_def ranges_env_def)
  then show ?thesis by simp
qed

end
