(* ===== verification/Fragment_Routes.thy ===== *)
theory Fragment_Routes
  imports Ip_Decoder
begin

text \<open>
  Binding of IP datagrams to their transport worker (\<open>crates/tun/src/fragments.rs\<close>). Each operation
  holds the lock of its shard, so it runs alone on that shard. A \<open>Binding\<close> is shared by reference
  counting: its count, its flag and its lease live in a store of cells addressed by the identity that
  \<open>Arc::ptr_eq\<close> compares, and dropping the last reference releases the lease. The sizes of the
  bookkeeping types are a parameter.
\<close>

section \<open>State\<close>

record received =
  rx_bytes :: bytes
  rx_allocation :: nat
  rx_checksum :: bool
  rx_segment :: "nat option"

record sizes =
  sz_entry :: nat
  sz_frame :: nat

record batch =
  pb_frames :: "received list"
  pb_capacity :: nat
  pb_retained :: nat
  pb_lease :: nat

record cell =
  ce_refs :: nat
  ce_active :: bool
  ce_lease :: nat

type_synonym cells = "(nat \<times> cell) list"

record entry =
  en_binding :: binding
  en_owner :: "nat option"
  en_pending :: "batch option"

record shard =
  sd_entries :: "(frag_key \<times> entry) list"
  sd_next_expiry :: "instant option"

record routes =
  rt_shards :: "shard list"
  rt_cells :: cells
  rt_fresh :: nat
  rt_changed :: nat

record delivery =
  dl_owner :: nat
  dl_binding :: binding
  dl_frame :: received
  dl_pending :: "batch option"

section \<open>Operations\<close>

definition binding_active :: "cells \<Rightarrow> binding \<Rightarrow> instant \<Rightarrow> bool" where
  "binding_active cells b now \<longleftrightarrow> now < bd_expires b \<and>
     (case map_of cells (bd_id b) of None \<Rightarrow> False | Some c \<Rightarrow> ce_active c)"

text \<open>Dropping one reference; \<open>None\<close> if the cell is gone, which a reference excludes.\<close>

definition cell_drop :: "limits \<Rightarrow> cells \<Rightarrow> nat \<Rightarrow> (limits \<times> cells) option" where
  "cell_drop l cells i =
     (case map_of cells i of
        None \<Rightarrow> None
      | Some c \<Rightarrow>
          if ce_refs c \<le> 1 then map_option (\<lambda>l. (l, AList.delete i cells)) (lease_drop l (ce_lease c))
          else Some (l, AList.update i (c\<lparr>ce_refs := ce_refs c - 1\<rparr>) cells))"


definition cell_deactivate :: "cells \<Rightarrow> nat \<Rightarrow> cells option" where
  "cell_deactivate cells i = map_option (\<lambda>c. AList.update i (c\<lparr>ce_active := False\<rparr>) cells) (map_of cells i)"

definition batch_drop :: "limits \<Rightarrow> batch option \<Rightarrow> limits option" where
  "batch_drop l p = (case p of None \<Rightarrow> Some l | Some p \<Rightarrow> lease_drop l (pb_lease p))"


definition batch_size :: "sizes \<Rightarrow> batch \<Rightarrow> nat" where
  "batch_size sz p = sum_list (map (length \<circ> rx_bytes) (pb_frames p)) + pb_capacity p * sz_frame sz"

definition delivery_size :: "sizes \<Rightarrow> delivery \<Rightarrow> nat" where
  "delivery_size sz d =
     length (rx_bytes (dl_frame d)) + (case dl_pending d of None \<Rightarrow> 0 | Some p \<Rightarrow> batch_size sz p)"

text \<open>Dropping an entry clears the flag, then drops its reference and its batch.\<close>

definition entry_drop :: "limits \<Rightarrow> cells \<Rightarrow> entry \<Rightarrow> (limits \<times> cells) option" where
  "entry_drop l cells e =
     Option.bind (cell_deactivate cells (bd_id (en_binding e))) (\<lambda>cells.
     Option.bind (cell_drop l cells (bd_id (en_binding e))) (\<lambda>(l, cells).
       map_option (\<lambda>l. (l, cells)) (batch_drop l (en_pending e))))"

fun entries_drop :: "limits \<Rightarrow> cells \<Rightarrow> entry list \<Rightarrow> (limits \<times> cells) option" where
  "entries_drop l cells [] = Some (l, cells)"
| "entries_drop l cells (e # es) = Option.bind (entry_drop l cells e) (\<lambda>(l, cells). entries_drop l cells es)"

definition shard_expire :: "limits \<Rightarrow> cells \<Rightarrow> shard \<Rightarrow> instant \<Rightarrow> (limits \<times> cells \<times> shard) option" where
  "shard_expire l cells sd now =
     (if (case sd_next_expiry sd of None \<Rightarrow> False | Some t \<Rightarrow> t \<le> now) then
        let kept = filter (\<lambda>x. now < bd_expires (en_binding (snd x))) (sd_entries sd);
            gone = filter (\<lambda>x. \<not> now < bd_expires (en_binding (snd x))) (sd_entries sd)
        in map_option (\<lambda>(l, cells). (l, cells,
               \<lparr>sd_entries = kept, sd_next_expiry = least (map (\<lambda>x. bd_expires (en_binding (snd x))) kept)\<rparr>))
             (entries_drop l cells (map snd gone))
      else Some (l, cells, sd))"


text \<open>Removing the entry of a key from a shard.\<close>

definition shard_remove :: "limits \<Rightarrow> cells \<Rightarrow> shard \<Rightarrow> frag_key \<Rightarrow> (limits \<times> cells \<times> shard) option" where
  "shard_remove l cells sd key =
     (case map_of (sd_entries sd) key of
        None \<Rightarrow> Some (l, cells, sd)
      | Some e \<Rightarrow>
          map_option (\<lambda>(l, cells). (l, cells, sd\<lparr>sd_entries := AList.delete key (sd_entries sd)\<rparr>)) (entry_drop l cells e))"



definition put_shard :: "routes \<Rightarrow> nat \<Rightarrow> cells \<Rightarrow> shard \<Rightarrow> routes" where
  "put_shard rt i cells sd = rt\<lparr>rt_shards := (rt_shards rt)[i := sd], rt_cells := cells\<rparr>"



definition finish :: "limits \<Rightarrow> routes \<Rightarrow> binding \<Rightarrow> (limits \<times> routes) option" where
  "finish l rt b =
     (if length (rt_shards rt) \<le> bd_shard b then None
      else
        let sd = rt_shards rt ! bd_shard b in
        if (case map_of (sd_entries sd) (bd_key b) of None \<Rightarrow> False | Some e \<Rightarrow> bd_id (en_binding e) = bd_id b)
        then map_option (\<lambda>(l, cells, sd). (l, put_shard rt (bd_shard b) cells sd)) (shard_remove l (rt_cells rt) sd (bd_key b))
        else Some (l, rt))"

definition discard_oldest_pending :: "limits \<Rightarrow> routes \<Rightarrow> nat \<Rightarrow> (limits \<times> routes \<times> bool) option" where
  "discard_oldest_pending l rt shard =
     (if length (rt_shards rt) \<le> shard then None
      else
        let sd = rt_shards rt ! shard in
        case oldest (map (\<lambda>(k, e). (k, bd_expires (en_binding e))) (filter (\<lambda>(k, e). en_pending e \<noteq> None) (sd_entries sd))) of
          None \<Rightarrow> Some (l, rt, False)
        | Some (key, _) \<Rightarrow>
            map_option (\<lambda>(l, cells, sd). (l, put_shard rt shard cells sd, True)) (shard_remove l (rt_cells rt) sd key))"

text \<open>The deadline of the supervisor and its scan over the shards when the deadline has passed.\<close>

definition routes_deadline :: "routes \<Rightarrow> instant option" where
  "routes_deadline rt = least (List.map_filter sd_next_expiry (rt_shards rt))"

fun expire_shards :: "limits \<Rightarrow> routes \<Rightarrow> nat list \<Rightarrow> instant \<Rightarrow> (limits \<times> routes) option" where
  "expire_shards l rt [] now = Some (l, rt)"
| "expire_shards l rt (i # is) now =
     Option.bind (shard_expire l (rt_cells rt) (rt_shards rt ! i) now) (\<lambda>(l, cells, sd).
       expire_shards l (put_shard rt i cells sd) is now)"

definition routes_expire :: "limits \<Rightarrow> routes \<Rightarrow> instant \<Rightarrow> (limits \<times> routes) option" where
  "routes_expire l rt now = expire_shards l rt [0..<length (rt_shards rt)] now"

text \<open>Dropping a delivery: its reference and its batch.\<close>

definition delivery_drop :: "limits \<Rightarrow> routes \<Rightarrow> delivery \<Rightarrow> (limits \<times> routes) option" where
  "delivery_drop l rt d =
     Option.bind (cell_drop l (rt_cells rt) (bd_id (dl_binding d))) (\<lambda>(l, cells).
       map_option (\<lambda>l. (l, rt\<lparr>rt_cells := cells\<rparr>)) (batch_drop l (dl_pending d)))"

section \<open>Invariant\<close>

abbreviation cells_held :: "cells \<Rightarrow> nat" where
  "cells_held cells \<equiv> table_sum ce_lease cells"

definition batch_held :: "batch option \<Rightarrow> nat" where
  "batch_held p = (case p of None \<Rightarrow> 0 | Some p \<Rightarrow> pb_lease p)"

abbreviation shard_held :: "shard \<Rightarrow> nat" where
  "shard_held sd \<equiv> table_sum (\<lambda>e. batch_held (en_pending e)) (sd_entries sd)"

definition entry_id :: "entry \<Rightarrow> nat" where
  "entry_id e = bd_id (en_binding e)"

definition shard_ids :: "shard \<Rightarrow> nat list" where
  "shard_ids sd = column entry_id (sd_entries sd)"

definition active_ids :: "cells \<Rightarrow> nat set" where
  "active_ids cells = {i. case map_of cells i of None \<Rightarrow> False | Some c \<Rightarrow> ce_active c}"

definition cells_ok :: "cells \<Rightarrow> nat \<Rightarrow> bool" where
  "cells_ok cells fresh \<longleftrightarrow> distinct (map fst cells) \<and> table_all (\<lambda>i c. 1 \<le> ce_refs c \<and> i < fresh) cells"

definition shard_shape :: "nat \<Rightarrow> shard \<Rightarrow> bool" where
  "shard_shape i sd \<longleftrightarrow> distinct (map fst (sd_entries sd)) \<and>
     table_all (\<lambda>k e. bd_key (en_binding e) = k \<and> bd_shard (en_binding e) = i \<and>
       (\<exists>t. sd_next_expiry sd = Some t \<and> t \<le> bd_expires (en_binding e))) (sd_entries sd)"

text \<open>
  One shard beside the rest: the flags set are those of this shard's entries and of the identities \<open>A\<close>
  of the others, and the budget covers the cells, this shard's batches and the \<open>R\<close> bytes of the others.
\<close>

definition shard_inv :: "limits \<Rightarrow> cells \<Rightarrow> nat \<Rightarrow> nat \<Rightarrow> shard \<Rightarrow> nat set \<Rightarrow> nat \<Rightarrow> bool" where
  "shard_inv l cells fresh i sd A R \<longleftrightarrow> limits_ok l \<and> cells_ok cells fresh \<and> shard_shape i sd \<and>
     distinct (shard_ids sd) \<and> set (shard_ids sd) \<inter> A = {} \<and> active_ids cells = set (shard_ids sd) \<union> A \<and>
     cells_held cells + shard_held sd + R \<le> lm_used l"

definition rt_held :: "routes \<Rightarrow> nat" where
  "rt_held rt = cells_held (rt_cells rt) + sum_list (map shard_held (rt_shards rt))"

definition rt_ids :: "shard list \<Rightarrow> nat list" where
  "rt_ids sds = concat (map shard_ids sds)"

definition rt_ok :: "limits \<Rightarrow> routes \<Rightarrow> bool" where
  "rt_ok l rt \<longleftrightarrow> limits_ok l \<and> cells_ok (rt_cells rt) (rt_fresh rt) \<and>
     (\<forall>i < length (rt_shards rt). shard_shape i (rt_shards rt ! i)) \<and>
     distinct (rt_ids (rt_shards rt)) \<and> active_ids (rt_cells rt) = set (rt_ids (rt_shards rt)) \<and>
     rt_held rt \<le> lm_used l"

section \<open>Cells\<close>

lemma active_id_cell: "i \<in> active_ids cells \<Longrightarrow> \<exists>c. map_of cells i = Some c \<and> ce_active c"
  by (auto simp: active_ids_def split: option.splits)

lemma cells_ok_update: "cells_ok cells fresh \<Longrightarrow> 1 \<le> ce_refs c \<Longrightarrow> i < fresh \<Longrightarrow> cells_ok (AList.update i c cells) fresh"
  by (simp add: cells_ok_def distinct_update table_all_update)

lemma cells_ok_cell: "cells_ok cells fresh \<Longrightarrow> map_of cells i = Some c \<Longrightarrow> 1 \<le> ce_refs c \<and> i < fresh"
  using table_all_lookup unfolding cells_ok_def by fastforce

lemma cells_held_update:
  "cells_ok cells fresh \<Longrightarrow> map_of cells i = Some c \<Longrightarrow> ce_lease c' = ce_lease c \<Longrightarrow>
    cells_held (AList.update i c' cells) = cells_held cells"
  using table_sum_update [of cells i c ce_lease c'] by (simp add: cells_ok_def)

lemma cell_deactivate_ok:
  assumes "cells_ok cells fresh" "i \<in> active_ids cells"
  shows "\<exists>cells' c. cell_deactivate cells i = Some cells' \<and> cells_ok cells' fresh \<and> cells_held cells' = cells_held cells \<and>
    active_ids cells' = active_ids cells - {i} \<and> map_of cells' i = Some c"
proof -
  obtain c where c: "map_of cells i = Some c" using active_id_cell [OF assms(2)] by blast
  let ?cells = "AList.update i (c\<lparr>ce_active := False\<rparr>) cells"
  have "cells_ok ?cells fresh" using cells_ok_update [OF assms(1)] cells_ok_cell [OF assms(1) c] by simp
  moreover have "cells_held ?cells = cells_held cells" by (rule cells_held_update [OF assms(1) c]) simp
  moreover have "active_ids ?cells = active_ids cells - {i}" by (auto simp: active_ids_def update_conv' split: option.splits if_splits)
  ultimately show ?thesis using c by (simp add: cell_deactivate_def update_conv')
qed

lemma cell_drop_ok:
  assumes "cells_ok cells fresh" "map_of cells i = Some c" "\<not> ce_active c" "limits_ok l" "cells_held cells + k \<le> lm_used l"
  shows "\<exists>l' cells'. cell_drop l cells i = Some (l', cells') \<and> limits_ok l' \<and> cells_ok cells' fresh \<and>
    active_ids cells' = active_ids cells \<and> lm_used l' + cells_held cells = lm_used l + cells_held cells' \<and>
    cells_held cells' + k \<le> lm_used l'"
proof (cases "ce_refs c \<le> 1")
  case True
  have sum: "cells_held cells = ce_lease c + cells_held (AList.delete i cells)"
    using table_sum_delete [OF _ assms(2), of ce_lease] assms(1) by (simp add: cells_ok_def)
  obtain l' where l': "lease_drop l (ce_lease c) = Some l'" "limits_ok l'" "lm_used l' + ce_lease c = lm_used l"
    using bb.release_held [OF assms(4), of "ce_lease c"] sum assms(5) by auto
  have "cells_ok (AList.delete i cells) fresh"
    using assms(1) by (simp add: cells_ok_def distinct_delete table_all_delete)
  moreover have "active_ids (AList.delete i cells) = active_ids cells"
    using assms(2,3) by (auto simp: active_ids_def delete_conv' split: option.splits if_splits)
  ultimately show ?thesis using True assms l' sum by (simp add: cell_drop_def)
next
  case False
  let ?cells = "AList.update i (c\<lparr>ce_refs := ce_refs c - 1\<rparr>) cells"
  have "cells_ok ?cells fresh" using cells_ok_update [OF assms(1)] cells_ok_cell [OF assms(1,2)] False by simp
  moreover have "cells_held ?cells = cells_held cells" by (rule cells_held_update [OF assms(1,2)]) simp
  moreover have "active_ids ?cells = active_ids cells"
    using assms(2) by (auto simp: active_ids_def update_conv' split: option.splits if_splits)
  ultimately show ?thesis using False assms by (simp add: cell_drop_def)
qed


lemma batch_drop_ok:
  "limits_ok l \<Longrightarrow> batch_held p \<le> lm_used l \<Longrightarrow>
    \<exists>l'. batch_drop l p = Some l' \<and> limits_ok l' \<and> lm_used l' + batch_held p = lm_used l"
  using bb.release_held by (auto simp: batch_drop_def batch_held_def split: option.splits)

lemma entry_drop_ok:
  assumes "cells_ok cells fresh" "entry_id e \<in> active_ids cells" "limits_ok l"
    and "cells_held cells + batch_held (en_pending e) + k \<le> lm_used l"
  shows "\<exists>l' cells'. entry_drop l cells e = Some (l', cells') \<and> limits_ok l' \<and> cells_ok cells' fresh \<and>
    active_ids cells' = active_ids cells - {entry_id e} \<and>
    lm_used l' + cells_held cells + batch_held (en_pending e) = lm_used l + cells_held cells' \<and>
    cells_held cells' + k \<le> lm_used l'"
proof -
  let ?i = "entry_id e"
  obtain cells1 c where d: "cell_deactivate cells ?i = Some cells1" "cells_ok cells1 fresh" "cells_held cells1 = cells_held cells"
    "active_ids cells1 = active_ids cells - {?i}" "map_of cells1 ?i = Some c"
    using cell_deactivate_ok [OF assms(1,2)] by blast
  have "?i \<notin> active_ids cells1" using d(4) by simp
  then have inactive: "\<not> ce_active c" using d(5) by (simp add: active_ids_def)
  have room: "cells_held cells1 + (batch_held (en_pending e) + k) \<le> lm_used l" using assms(4) d(3) by simp
  obtain l1 cells2 where r: "cell_drop l cells1 ?i = Some (l1, cells2)" "limits_ok l1" "cells_ok cells2 fresh"
    "active_ids cells2 = active_ids cells1" "lm_used l1 + cells_held cells1 = lm_used l + cells_held cells2"
    "cells_held cells2 + (batch_held (en_pending e) + k) \<le> lm_used l1"
    using cell_drop_ok [OF d(2,5) inactive assms(3) room] by blast
  have "batch_held (en_pending e) \<le> lm_used l1" using r(6) by simp
  then obtain l2 where b: "batch_drop l1 (en_pending e) = Some l2" "limits_ok l2"
    "lm_used l2 + batch_held (en_pending e) = lm_used l1"
    using batch_drop_ok [OF r(2)] by blast
  have "entry_drop l cells e = Some (l2, cells2)" using d(1) r(1) b(1) by (simp add: entry_drop_def entry_id_def)
  moreover have "lm_used l2 + cells_held cells + batch_held (en_pending e) = lm_used l + cells_held cells2"
    using d(3) r(5) b(3) by linarith
  moreover have "cells_held cells2 + k \<le> lm_used l2" using r(6) b(3) by linarith
  ultimately show ?thesis using d(4) r(3,4) b(2) by auto
qed

lemma entries_drop_ok:
  assumes "cells_ok cells fresh" "distinct (map entry_id es)" "set (map entry_id es) \<subseteq> active_ids cells" "limits_ok l"
    and "cells_held cells + sum_list (map (\<lambda>e. batch_held (en_pending e)) es) + k \<le> lm_used l"
  shows "\<exists>l' cells'. entries_drop l cells es = Some (l', cells') \<and> limits_ok l' \<and> cells_ok cells' fresh \<and>
    active_ids cells' = active_ids cells - set (map entry_id es) \<and>
    lm_used l' + cells_held cells + sum_list (map (\<lambda>e. batch_held (en_pending e)) es) = lm_used l + cells_held cells' \<and>
    cells_held cells' + k \<le> lm_used l'"
  using assms
proof (induction es arbitrary: l cells)
  case (Cons e es)
  let ?sum = "sum_list (map (\<lambda>e. batch_held (en_pending e)) es)"
  have act: "entry_id e \<in> active_ids cells" using Cons.prems(3) by simp
  have room: "cells_held cells + batch_held (en_pending e) + (?sum + k) \<le> lm_used l" using Cons.prems(5) by simp
  obtain l1 cells1 where d: "entry_drop l cells e = Some (l1, cells1)" "limits_ok l1" "cells_ok cells1 fresh"
    "active_ids cells1 = active_ids cells - {entry_id e}"
    "lm_used l1 + cells_held cells + batch_held (en_pending e) = lm_used l + cells_held cells1"
    "cells_held cells1 + (?sum + k) \<le> lm_used l1"
    using entry_drop_ok [OF Cons.prems(1) act Cons.prems(4) room] by blast
  have "entry_id e \<notin> set (map entry_id es)" "set (map entry_id es) \<subseteq> active_ids cells"
    using Cons.prems(2,3) by simp_all
  then have "set (map entry_id es) \<subseteq> active_ids cells1" unfolding d(4) by blast
  moreover have "distinct (map entry_id es)" using Cons.prems(2) by simp
  moreover have "cells_held cells1 + ?sum + k \<le> lm_used l1" using d(6) by simp
  ultimately have "\<exists>l' cells'. entries_drop l1 cells1 es = Some (l', cells') \<and> limits_ok l' \<and> cells_ok cells' fresh \<and>
      active_ids cells' = active_ids cells1 - set (map entry_id es) \<and>
      lm_used l' + cells_held cells1 + ?sum = lm_used l1 + cells_held cells' \<and> cells_held cells' + k \<le> lm_used l'"
    using d(2,3) by (intro Cons.IH)
  then obtain l2 cells2 where e: "entries_drop l1 cells1 es = Some (l2, cells2)" "limits_ok l2" "cells_ok cells2 fresh"
    "active_ids cells2 = active_ids cells1 - set (map entry_id es)"
    "lm_used l2 + cells_held cells1 + ?sum = lm_used l1 + cells_held cells2" "cells_held cells2 + k \<le> lm_used l2" by blast
  have "active_ids cells2 = active_ids cells - set (map entry_id (e # es))" using d(4) e(4) by auto
  moreover have "lm_used l2 + cells_held cells + sum_list (map (\<lambda>e. batch_held (en_pending e)) (e # es)) =
      lm_used l + cells_held cells2" using d(5) e(5) by simp
  moreover have "entries_drop l cells (e # es) = Some (l2, cells2)" using d(1) e(1) by simp
  ultimately show ?case using e(2,3,6) by blast
qed simp

section \<open>Shards\<close>

definition shard_bal :: "limits \<Rightarrow> cells \<Rightarrow> shard \<Rightarrow> limits \<Rightarrow> cells \<Rightarrow> shard \<Rightarrow> bool" where
  "shard_bal l cells sd l' cells' sd' \<longleftrightarrow>
     lm_used l' + cells_held cells + shard_held sd = lm_used l + cells_held cells' + shard_held sd'"


lemma shard_inv_entry:
  assumes "shard_inv l cells fresh i sd A R" "map_of (sd_entries sd) key = Some e"
  shows "entry_id e \<in> active_ids cells" "entry_id e \<in> set (shard_ids sd)" "bd_key (en_binding e) = key"
    "bd_shard (en_binding e) = i" "batch_held (en_pending e) \<le> shard_held sd"
    "\<exists>t. sd_next_expiry sd = Some t \<and> t \<le> bd_expires (en_binding e)"
  using assms column_lookup [OF assms(2), of entry_id] table_sum_member [OF assms(2), of "\<lambda>e. batch_held (en_pending e)"]
    table_all_lookup [OF _ assms(2)]
  unfolding shard_inv_def shard_ids_def shard_shape_def by fastforce+

lemma shard_expire_ok:
  assumes "shard_inv l cells fresh i sd A R"
  shows "\<exists>l' cells' sd'. shard_expire l cells sd now = Some (l', cells', sd') \<and> shard_inv l' cells' fresh i sd' A R \<and>
    shard_bal l cells sd l' cells' sd' \<and>
    (\<forall>k. map_of (sd_entries sd') k = (case map_of (sd_entries sd) k of None \<Rightarrow> None
       | Some e \<Rightarrow> if now < bd_expires (en_binding e) then Some e else None))"
proof (cases "case sd_next_expiry sd of None \<Rightarrow> False | Some t \<Rightarrow> t \<le> now")
  case False
  have "now < bd_expires (en_binding e)" if "map_of (sd_entries sd) k = Some e" for k e
    using shard_inv_entry(6) [OF assms that] False by (auto split: option.splits)
  then show ?thesis using assms False by (auto simp: shard_expire_def shard_bal_def split: option.splits)
next
  case True
  define P where "P = (\<lambda>x :: frag_key \<times> entry. now < bd_expires (en_binding (snd x)))"
  define kept where "kept = filter P (sd_entries sd)"
  define gone where "gone = filter (\<lambda>x. \<not> P x) (sd_entries sd)"
  define sd' where "sd' = \<lparr>sd_entries = kept, sd_next_expiry = least (map (\<lambda>x. bd_expires (en_binding (snd x))) kept)\<rparr>"
  have inv: "cells_ok cells fresh" "limits_ok l" "distinct (column entry_id (sd_entries sd))"
    "distinct (map fst (sd_entries sd))" "active_ids cells = set (column entry_id (sd_entries sd)) \<union> A"
    "set (column entry_id (sd_entries sd)) \<inter> A = {}" "cells_held cells + shard_held sd + R \<le> lm_used l"
    using assms by (auto simp: shard_inv_def shard_ids_def shard_shape_def)
  have ids: "distinct (column entry_id kept)" "distinct (column entry_id gone)"
    "set (column entry_id kept) = set (column entry_id (sd_entries sd)) - set (column entry_id gone)"
    using column_retain [OF inv(3), of P] by (simp_all add: kept_def gone_def)
  have sub: "set (column entry_id gone) \<subseteq> set (column entry_id (sd_entries sd))" by (auto simp: gone_def column_def)
  have sums: "table_sum (\<lambda>e. batch_held (en_pending e)) kept + table_sum (\<lambda>e. batch_held (en_pending e)) gone = shard_held sd"
    unfolding kept_def gone_def by (rule table_sum_retain)
  have eqs: "map entry_id (map snd gone) = column entry_id gone"
    "sum_list (map (\<lambda>e. batch_held (en_pending e)) (map snd gone)) = table_sum (\<lambda>e. batch_held (en_pending e)) gone"
    by (simp_all add: column_def table_sum_def comp_def)
  have room: "cells_held cells + sum_list (map (\<lambda>e. batch_held (en_pending e)) (map snd gone)) + (shard_held sd' + R) \<le> lm_used l"
    using inv(7) sums unfolding eqs(2) by (simp add: sd'_def)
  have "distinct (map entry_id (map snd gone))" "set (map entry_id (map snd gone)) \<subseteq> active_ids cells"
    unfolding eqs(1) using ids(2) sub inv(5) by auto
  from entries_drop_ok [OF inv(1) this inv(2) room] obtain l' cells' where
    d: "entries_drop l cells (map snd gone) = Some (l', cells')" "limits_ok l'" "cells_ok cells' fresh"
    "active_ids cells' = active_ids cells - set (column entry_id gone)"
    "lm_used l' + cells_held cells + table_sum (\<lambda>e. batch_held (en_pending e)) gone = lm_used l + cells_held cells'"
    "cells_held cells' + (shard_held sd' + R) \<le> lm_used l'" unfolding eqs by blast
  have step: "shard_expire l cells sd now = Some (l', cells', sd')"
    using True d(1) by (simp add: shard_expire_def sd'_def kept_def gone_def P_def Let_def)
  have lookup: "map_of kept k = (case map_of (sd_entries sd) k of None \<Rightarrow> None
       | Some e \<Rightarrow> if now < bd_expires (en_binding e) then Some e else None)" for k
    unfolding kept_def map_of_retain [OF inv(4), of P] by (cases "map_of (sd_entries sd) k") (simp_all add: P_def)
  have "table_all (\<lambda>k e. bd_key (en_binding e) = k \<and> bd_shard (en_binding e) = i \<and>
      (\<exists>t. sd_next_expiry sd' = Some t \<and> t \<le> bd_expires (en_binding e))) kept"
    using assms least_le [of _ "map (\<lambda>x. bd_expires (en_binding (snd x))) kept"]
    by (fastforce simp: shard_inv_def shard_shape_def table_all_def kept_def sd'_def)
  then have shape: "shard_shape i sd'" using distinct_retain [OF inv(4), of P] by (simp add: shard_shape_def sd'_def kept_def)
  have "active_ids cells' = set (column entry_id kept) \<union> A" "set (column entry_id kept) \<inter> A = {}"
    using d(4) inv(5,6) ids(3) sub by auto
  then have "shard_inv l' cells' fresh i sd' A R"
    using d(2,3,6) shape ids(1) by (simp add: shard_inv_def shard_ids_def sd'_def)
  moreover have "shard_bal l cells sd l' cells' sd'" using d(5) sums by (simp add: shard_bal_def sd'_def)
  ultimately show ?thesis using step lookup by (auto simp: sd'_def)
qed

lemma shard_remove_ok:
  assumes "shard_inv l cells fresh i sd A R"
  shows "\<exists>l' cells' sd'. shard_remove l cells sd key = Some (l', cells', sd') \<and> shard_inv l' cells' fresh i sd' A R \<and>
    shard_bal l cells sd l' cells' sd' \<and> sd_entries sd' = AList.delete key (sd_entries sd)"
proof (cases "map_of (sd_entries sd) key")
  case None
  then have "AList.delete key (sd_entries sd) = sd_entries sd" by (simp add: delete_id map_of_eq_None_iff)
  then show ?thesis using assms None by (simp add: shard_remove_def shard_bal_def)
next
  case (Some e)
  define sd' where "sd' = sd\<lparr>sd_entries := AList.delete key (sd_entries sd)\<rparr>"
  have inv: "cells_ok cells fresh" "limits_ok l" "distinct (column entry_id (sd_entries sd))"
    "distinct (map fst (sd_entries sd))" "active_ids cells = set (column entry_id (sd_entries sd)) \<union> A"
    "set (column entry_id (sd_entries sd)) \<inter> A = {}" "cells_held cells + shard_held sd + R \<le> lm_used l"
    using assms by (auto simp: shard_inv_def shard_ids_def shard_shape_def)
  have sum: "shard_held sd = batch_held (en_pending e) + shard_held sd'"
    using table_sum_delete [OF inv(4) Some, of "\<lambda>e. batch_held (en_pending e)"] by (simp add: sd'_def)
  have room: "cells_held cells + batch_held (en_pending e) + (shard_held sd' + R) \<le> lm_used l" using sum inv(7) by simp
  obtain l' cells' where d: "entry_drop l cells e = Some (l', cells')" "limits_ok l'" "cells_ok cells' fresh"
    "active_ids cells' = active_ids cells - {entry_id e}"
    "lm_used l' + cells_held cells + batch_held (en_pending e) = lm_used l + cells_held cells'"
    "cells_held cells' + (shard_held sd' + R) \<le> lm_used l'"
    using entry_drop_ok [OF inv(1) shard_inv_entry(1) [OF assms Some] inv(2) room] by blast
  have ids: "shard_ids sd' = removeAll (entry_id e) (column entry_id (sd_entries sd))"
    using column_delete [OF inv(4,3) Some] by (simp add: shard_ids_def sd'_def)
  have "entry_id e \<notin> A" using inv(6) column_lookup [OF Some, of entry_id] by auto
  then have "active_ids cells' = set (shard_ids sd') \<union> A" "set (shard_ids sd') \<inter> A = {}"
    using d(4) inv(5,6) ids by auto
  moreover have "shard_shape i sd'"
    using assms by (simp add: shard_inv_def shard_shape_def sd'_def distinct_delete table_all_delete)
  ultimately have "shard_inv l' cells' fresh i sd' A R"
    using d(2,3,6) ids inv(3) by (simp add: shard_inv_def distinct_removeAll)
  moreover have "shard_bal l cells sd l' cells' sd'" using d(5) sum by (simp add: shard_bal_def)
  ultimately show ?thesis using Some d(1) by (simp add: shard_remove_def sd'_def)
qed







section \<open>Room in the budget\<close>











section \<open>All shards\<close>

definition others :: "routes \<Rightarrow> nat \<Rightarrow> shard list" where
  "others rt i = take i (rt_shards rt) @ drop (Suc i) (rt_shards rt)"

definition others_held :: "routes \<Rightarrow> nat \<Rightarrow> nat" where
  "others_held rt i = sum_list (map shard_held (others rt i))"

lemma rt_ids_simps [simp]: "rt_ids [] = []" "rt_ids (sd # sds) = shard_ids sd @ rt_ids sds" "rt_ids (xs @ ys) = rt_ids xs @ rt_ids ys"
  by (simp_all add: rt_ids_def)

lemma shards_split: "i < length (rt_shards rt) \<Longrightarrow>
    rt_shards rt = take i (rt_shards rt) @ rt_shards rt ! i # drop (Suc i) (rt_shards rt)"
  by (rule id_take_nth_drop)

lemma rt_held_split:
  "i < length (rt_shards rt) \<Longrightarrow> rt_held rt = cells_held (rt_cells rt) + shard_held (rt_shards rt ! i) + others_held rt i"
  using arg_cong [OF shards_split, of i rt "\<lambda>xs. sum_list (map shard_held xs)"]
  by (simp add: rt_held_def others_held_def others_def)

lemma rt_ok_shard:
  assumes "rt_ok l rt" "i < length (rt_shards rt)"
  shows "shard_inv l (rt_cells rt) (rt_fresh rt) i (rt_shards rt ! i) (set (rt_ids (others rt i))) (others_held rt i)"
proof -
  have ids: "rt_ids (rt_shards rt) = rt_ids (take i (rt_shards rt)) @ shard_ids (rt_shards rt ! i) @ rt_ids (drop (Suc i) (rt_shards rt))"
    by (subst shards_split [OF assms(2)]) simp
  have d: "distinct (rt_ids (rt_shards rt))" "active_ids (rt_cells rt) = set (rt_ids (rt_shards rt))" using assms(1) by (simp_all add: rt_ok_def)
  show ?thesis
    using assms rt_held_split [OF assms(2)] d unfolding ids by (auto simp: rt_ok_def shard_inv_def others_def)
qed

lemma rt_ok_put:
  assumes "rt_ok l rt" "i < length (rt_shards rt)" "rt_shards rt1 = rt_shards rt"
    and inv: "shard_inv l' cells' (rt_fresh rt1) i sd' (set (rt_ids (others rt i))) (others_held rt i)"
  shows "rt_ok l' (put_shard rt1 i cells' sd')" "rt_held (put_shard rt1 i cells' sd') = cells_held cells' + shard_held sd' + others_held rt i"
proof -
  let ?rt = "put_shard rt1 i cells' sd'"
  have put: "rt_shards ?rt = take i (rt_shards rt) @ sd' # drop (Suc i) (rt_shards rt)"
    using assms(2,3) by (simp add: put_shard_def upd_conv_take_nth_drop)
  have held: "rt_held ?rt = cells_held cells' + shard_held sd' + others_held rt i"
    unfolding rt_held_def put others_held_def others_def by (simp add: put_shard_def)
  have ids: "rt_ids (rt_shards ?rt) = rt_ids (take i (rt_shards rt)) @ shard_ids sd' @ rt_ids (drop (Suc i) (rt_shards rt))"
    unfolding put by simp
  have "rt_ids (rt_shards rt) = rt_ids (take i (rt_shards rt)) @ shard_ids (rt_shards rt ! i) @ rt_ids (drop (Suc i) (rt_shards rt))"
    by (subst shards_split [OF assms(2)]) simp
  then have "distinct (rt_ids (take i (rt_shards rt)))" "distinct (rt_ids (drop (Suc i) (rt_shards rt)))"
    "set (rt_ids (take i (rt_shards rt))) \<inter> set (rt_ids (drop (Suc i) (rt_shards rt))) = {}"
    using assms(1) by (auto simp: rt_ok_def)
  then have "distinct (rt_ids (rt_shards ?rt))" "active_ids cells' = set (rt_ids (rt_shards ?rt))"
    using inv unfolding ids by (auto simp: shard_inv_def others_def)
  moreover have "shard_shape j (rt_shards ?rt ! j)" if "j < length (rt_shards ?rt)" for j
    using that assms(1,2,3) inv by (cases "j = i") (auto simp: put_shard_def rt_ok_def shard_inv_def)
  ultimately show "rt_ok l' ?rt"
    using inv held by (simp add: rt_ok_def shard_inv_def) (simp add: put_shard_def)
  show "rt_held ?rt = cells_held cells' + shard_held sd' + others_held rt i" by (rule held)
qed









lemma shard_remove_rt:
  assumes "rt_ok l rt" "i < length (rt_shards rt)"
  shows "\<exists>l' cells' sd'. shard_remove l (rt_cells rt) (rt_shards rt ! i) key = Some (l', cells', sd') \<and>
    rt_ok l' (put_shard rt i cells' sd') \<and> sd_entries sd' = AList.delete key (sd_entries (rt_shards rt ! i)) \<and>
    lm_used l' + rt_held rt = lm_used l + rt_held (put_shard rt i cells' sd')"
proof -
  obtain l' cells' sd' where r: "shard_remove l (rt_cells rt) (rt_shards rt ! i) key = Some (l', cells', sd')"
    "shard_inv l' cells' (rt_fresh rt) i sd' (set (rt_ids (others rt i))) (others_held rt i)"
    "shard_bal l (rt_cells rt) (rt_shards rt ! i) l' cells' sd'" "sd_entries sd' = AList.delete key (sd_entries (rt_shards rt ! i))"
    using shard_remove_ok [OF rt_ok_shard [OF assms]] by blast
  with rt_ok_put [OF assms refl r(2)] rt_held_split [OF assms(2)] show ?thesis by (simp add: shard_bal_def)
qed

lemma finish_ok:
  assumes "rt_ok l rt" "bd_shard b < length (rt_shards rt)"
  shows "\<exists>l' rt'. finish l rt b = Some (l', rt') \<and> rt_ok l' rt' \<and> lm_used l' + rt_held rt = lm_used l + rt_held rt'"
  using shard_remove_rt [OF assms, of "bd_key b"] assms by (auto simp: finish_def Let_def split: option.splits)

lemma discard_oldest_pending_ok:
  assumes "rt_ok l rt" "i < length (rt_shards rt)"
  shows "\<exists>l' rt' r. discard_oldest_pending l rt i = Some (l', rt', r) \<and> rt_ok l' rt' \<and>
    lm_used l' + rt_held rt = lm_used l + rt_held rt'"
proof (cases "oldest (map (\<lambda>(k, e). (k, bd_expires (en_binding e))) (filter (\<lambda>(k, e). en_pending e \<noteq> None) (sd_entries (rt_shards rt ! i))))")
  case None
  with assms show ?thesis by (auto simp: discard_oldest_pending_def)
next
  case (Some x)
  with shard_remove_rt [OF assms, of "fst x"] assms(2) show ?thesis
    by (cases x) (auto simp: discard_oldest_pending_def)
qed

lemma expire_shards_ok:
  assumes "rt_ok l rt" "\<forall>i \<in> set is. i < length (rt_shards rt)"
  shows "\<exists>l' rt'. expire_shards l rt is now = Some (l', rt') \<and> rt_ok l' rt' \<and> lm_used l' + rt_held rt = lm_used l + rt_held rt' \<and>
    length (rt_shards rt') = length (rt_shards rt)"
  using assms
proof (induction "is" arbitrary: l rt)
  case (Cons i "is")
  then have i: "i < length (rt_shards rt)" by simp
  obtain l1 cells1 sd1 where x: "shard_expire l (rt_cells rt) (rt_shards rt ! i) now = Some (l1, cells1, sd1)"
    "shard_inv l1 cells1 (rt_fresh rt) i sd1 (set (rt_ids (others rt i))) (others_held rt i)"
    "shard_bal l (rt_cells rt) (rt_shards rt ! i) l1 cells1 sd1"
    using shard_expire_ok [OF rt_ok_shard [OF Cons.prems(1) i], of now] by blast
  note p = rt_ok_put [OF Cons.prems(1) i refl x(2)]
  have len: "length (rt_shards (put_shard rt i cells1 sd1)) = length (rt_shards rt)" by (simp add: put_shard_def)
  obtain l2 rt2 where "expire_shards l1 (put_shard rt i cells1 sd1) is now = Some (l2, rt2)" "rt_ok l2 rt2"
    "lm_used l2 + rt_held (put_shard rt i cells1 sd1) = lm_used l1 + rt_held rt2" "length (rt_shards rt2) = length (rt_shards rt)"
    using Cons.IH [OF p(1)] Cons.prems(2) len by auto
  then show ?case using x(1,3) p(2) rt_held_split [OF i] by (simp add: shard_bal_def)
qed simp

lemma routes_expire_ok:
  "rt_ok l rt \<Longrightarrow> \<exists>l' rt'. routes_expire l rt now = Some (l', rt') \<and> rt_ok l' rt' \<and> lm_used l' + rt_held rt = lm_used l + rt_held rt'"
  using expire_shards_ok [of l rt "[0..<length (rt_shards rt)]" now] by (auto simp: routes_expire_def)



section \<open>Properties\<close>






text \<open>
  C26. Finishing a datagram retires its binding: when the entry of a binding is finished, the entry is
  gone, its flag reads inactive at every later time so that fragments still queued under it are
  ignored, and the budget is released exactly by what the entry held.
\<close>

theorem finish_retires_binding:
  assumes "rt_ok l rt" "bd_shard b < length (rt_shards rt)"
    and "map_of (sd_entries (rt_shards rt ! bd_shard b)) (bd_key b) = Some e" "en_binding e = b"
  shows "\<exists>l' rt'. finish l rt b = Some (l', rt') \<and> rt_ok l' rt' \<and> lm_used l' + rt_held rt = lm_used l + rt_held rt' \<and>
    map_of (sd_entries (rt_shards rt' ! bd_shard b)) (bd_key b) = None \<and> binding_active (rt_cells rt) b now = (now < bd_expires b) \<and>
    \<not> binding_active (rt_cells rt') b later"
proof -
  let ?i = "bd_shard b"
  obtain l' cells' sd' where r: "shard_remove l (rt_cells rt) (rt_shards rt ! ?i) (bd_key b) = Some (l', cells', sd')"
    "rt_ok l' (put_shard rt ?i cells' sd')" "sd_entries sd' = AList.delete (bd_key b) (sd_entries (rt_shards rt ! ?i))"
    "lm_used l' + rt_held rt = lm_used l + rt_held (put_shard rt ?i cells' sd')"
    using shard_remove_rt [OF assms(1,2)] by blast
  note inv = rt_ok_shard [OF assms(1,2)]
  have act: "bd_id b \<in> active_ids (rt_cells rt)" using shard_inv_entry(1) [OF inv assms(3)] assms(4) by (simp add: entry_id_def)
  have inv': "shard_inv l' cells' (rt_fresh rt) ?i sd' (set (rt_ids (others rt ?i))) (others_held rt ?i)"
    using shard_remove_ok [OF inv, of "bd_key b"] r(1) by auto
  have "shard_ids sd' = removeAll (entry_id e) (shard_ids (rt_shards rt ! ?i))"
    using column_delete [OF _ _ assms(3), of entry_id] inv r(3) by (simp add: shard_ids_def shard_inv_def shard_shape_def)
  then have "bd_id b \<notin> active_ids cells'"
    using inv' inv shard_inv_entry(2) [OF inv assms(3)] assms(4) by (auto simp: shard_inv_def entry_id_def)
  then have gone: "\<not> binding_active cells' b later" by (auto simp: binding_active_def active_ids_def split: option.splits)
  have live: "binding_active (rt_cells rt) b now = (now < bd_expires b)"
    using active_id_cell [OF act] by (auto simp: binding_active_def)
  have "finish l rt b = Some (l', put_shard rt ?i cells' sd')"
    using assms(2-4) r(1) by (simp add: finish_def Let_def)
  moreover have "map_of (sd_entries (rt_shards (put_shard rt ?i cells' sd') ! ?i)) (bd_key b) = None"
    using assms(2) r(3) by (simp add: put_shard_def delete_conv')
  moreover have "rt_cells (put_shard rt ?i cells' sd') = cells'" by (simp add: put_shard_def)
  ultimately show ?thesis using r(2,4) gone live by simp
qed

theorem finish_retires_binding_witness:
  "\<exists>rt b l' rt'. bd_shard b = 1 \<and> bd_key b = sample_key \<and> binding_active (rt_cells rt) b 6 \<and>
    finish sample_limits rt b = Some (l', rt') \<and> map_of (sd_entries (rt_shards rt' ! 1)) sample_key = None \<and>
    \<not> binding_active (rt_cells rt') b 7"
proof -
  define b where "b = \<lparr>bd_id = 0, bd_key = sample_key, bd_expires = 60000000005, bd_shard = 1\<rparr>"
  define e where "e = \<lparr>en_binding = b, en_owner = Some 3, en_pending = None\<rparr>"
  define rt where "rt = \<lparr>rt_shards = [\<lparr>sd_entries = [], sd_next_expiry = None\<rparr>,
      \<lparr>sd_entries = [(sample_key, e)], sd_next_expiry = Some 60000000005\<rparr>],
    rt_cells = [(0, \<lparr>ce_refs = 2, ce_active = True, ce_lease = 100\<rparr>)], rt_fresh = 1, rt_changed = 1\<rparr>"
  have "limits_ok sample_limits"
    using cap_ok_new [of 1000 0] by (simp add: limits_ok_def sample_limits_def limits_new_def usize_max_def)
  moreover have "lm_used sample_limits = 110" by (simp add: sample_limits_def)
  moreover have "shard_shape i (rt_shards rt ! i)" if "i < 2" for i
    using that by (cases "i = 0") (auto simp: rt_def shard_shape_def table_all_def e_def b_def less_2_cases_iff)
  moreover have "active_ids (rt_cells rt) = {0}" by (auto simp: rt_def active_ids_def)
  ultimately have ok: "rt_ok sample_limits rt"
    by (simp add: rt_ok_def rt_held_def) (simp add: rt_def cells_ok_def table_all_def shard_ids_def entry_id_def e_def b_def batch_held_def)
  have b: "bd_shard b < length (rt_shards rt)" "map_of (sd_entries (rt_shards rt ! bd_shard b)) (bd_key b) = Some e" "en_binding e = b"
    "bd_shard b = 1" "bd_key b = sample_key" "6 < bd_expires b"
    by (simp_all add: rt_def b_def e_def)
  from finish_retires_binding [OF ok b(1-3), of 6 7] b(4-6) show ?thesis by auto
qed

end
