(* ===== verification/Sniff_Tls.thy ===== *)
theory Sniff_Tls
  imports Prelude
begin

text \<open>
  Inspection of TLS (\<open>crates/inbounds/src/sniff/tls.rs\<close>) and the result type of the sniffers
  (\<open>crates/inbounds/src/sniff.rs\<close>, \<open>crates/config/src/sniff.rs\<close>). The rustls acceptor is the parameter
  \<open>acceptor\<close>: its initial state, \<open>read_tls\<close> (the bytes it takes, \<open>None\<close> an error) and \<open>accept\<close>.
\<close>

definition MAX_BYTES :: nat where "MAX_BYTES = 64 * 1024"

definition MAX_PACKETS :: nat where "MAX_PACKETS = 32"

datatype sniff_protocol = Sniff_Http | Sniff_Tls | Sniff_Quic

record sniff_result =
  sr_protocol :: sniff_protocol
  sr_domain :: "bytes option"

datatype outcome = Need_More | Unknown | Found sniff_result

datatype accept_result = Accept_Hello "bytes option" | Accept_More | Accept_Error

record 'a acceptor =
  ac_new :: 'a
  ac_read :: "'a \<Rightarrow> bytes \<Rightarrow> 'a \<times> nat option"
  ac_accept :: "'a \<Rightarrow> 'a \<times> accept_result"

section \<open>Records\<close>

function records :: "('a, 'x) acceptor_scheme \<Rightarrow> 'a \<Rightarrow> bytes \<Rightarrow> 'a \<times> outcome" where
  "records A a bytes =
     (if bytes = [] then (a, Need_More)
      else
        (case ac_read A a bytes of
           (a, None) \<Rightarrow> (a, Unknown)
         | (a, Some count) \<Rightarrow>
             if count = 0 then (a, Unknown)
             else
               (case ac_accept A a of
                  (a, Accept_Hello server_name) \<Rightarrow> (a, Found \<lparr>sr_protocol = Sniff_Tls, sr_domain = server_name\<rparr>)
                | (a, Accept_More) \<Rightarrow> records A a (drop count bytes)
                | (a, Accept_Error) \<Rightarrow> (a, Unknown))))"
  by pat_completeness auto
termination by (relation "measure (\<lambda>(A, a, bytes). length bytes)") auto

declare records.simps [simp del]

section \<open>Handshake messages\<close>

definition tls_record :: "bytes \<Rightarrow> bytes" where
  "tls_record chunk = [22, 3, 3] @ be16 (length chunk) @ chunk"

fun feed_chunks :: "('a, 'x) acceptor_scheme \<Rightarrow> 'a \<Rightarrow> outcome \<Rightarrow> bytes list \<Rightarrow> outcome" where
  "feed_chunks A a out [] = out"
| "feed_chunks A a out (chunk # rest) =
     (case records A a (tls_record chunk) of
        (a, Need_More) \<Rightarrow> feed_chunks A a Need_More rest
      | (a, out) \<Rightarrow> out)"

definition as_quic :: "outcome \<Rightarrow> outcome" where
  "as_quic out = (case out of Found r \<Rightarrow> Found (r\<lparr>sr_protocol := Sniff_Quic\<rparr>) | _ \<Rightarrow> out)"

definition handshake_size :: "bytes \<Rightarrow> nat" where
  "handshake_size bytes = unat (bytes ! 1) * 65536 + unat (bytes ! 2) * 256 + unat (bytes ! 3) + 4"

definition handshake :: "('a, 'x) acceptor_scheme \<Rightarrow> bytes \<Rightarrow> outcome" where
  "handshake A bytes =
     (if length bytes < 4 then Need_More
      else if bytes ! 0 \<noteq> 1 then Unknown
      else
        let size = handshake_size bytes in
        if MAX_BYTES < size then Unknown
        else if length bytes < size then Need_More
        else as_quic (feed_chunks A (ac_new A) Need_More (chunks_of 16384 (take size bytes))))"

text \<open>An acceptor that takes all it is given and finds the hello in the first record.\<close>

definition sample_acceptor :: "unit acceptor" where
  "sample_acceptor = \<lparr>ac_new = (), ac_read = (\<lambda>a bytes. (a, Some (length bytes))), ac_accept = (\<lambda>a. (a, Accept_Hello None))\<rparr>"

section \<open>Lemmas\<close>

lemma handshake_header:
  assumes "4 \<le> length xs"
  shows "handshake_size (xs @ ys) = handshake_size xs" "(xs @ ys) ! 0 = xs ! 0"
  using assms by (auto simp: handshake_size_def nth_append)

text \<open>A decided handshake does not change when more of the stream arrives.\<close>

lemma handshake_stable:
  assumes "handshake A xs \<noteq> Need_More"
  shows "handshake A (xs @ ys) = handshake A xs"
proof -
  have four: "4 \<le> length xs" using assms by (auto simp: handshake_def split: if_splits)
  consider "xs ! 0 \<noteq> 1" | "xs ! 0 = 1" "MAX_BYTES < handshake_size xs"
    | "xs ! 0 = 1" "handshake_size xs \<le> MAX_BYTES" "handshake_size xs \<le> length xs"
    using assms four by (fastforce simp: handshake_def Let_def split: if_splits)
  then show ?thesis
    using four by cases (simp_all add: handshake_def handshake_header [OF four] Let_def)
qed

end
