(* ===== verification/Quic_Sniff.thy ===== *)
theory Quic_Sniff
  imports Sniff_Tls
begin

text \<open>
  Inspection of QUIC Initial packets (\<open>crates/inbounds/src/sniff/quic.rs\<close>): the cursor, the header, the
  packet number, the frames and the reassembly of the CRYPTO stream. The key schedule and the packet
  protection of rustls are the parameter \<open>quic_keys\<close>. An operation returns the inspector with \<open>None\<close>
  for the \<open>?\<close> operator's early return; a panic is an outer \<open>None\<close>.
\<close>

section \<open>Cursor\<close>

text \<open>A cursor is the rest of the input; each operation returns what it read and the new rest.\<close>

definition cur_take :: "bytes \<Rightarrow> nat \<Rightarrow> (bytes \<times> bytes) option" where
  "cur_take c count = (if count \<le> length c then Some (take count c, drop count c) else None)"

definition cur_byte :: "bytes \<Rightarrow> (byte \<times> bytes) option" where
  "cur_byte c = Option.bind (cur_take c 1) (\<lambda>(b, c). Some (b ! 0, c))"

definition cur_varint :: "bytes \<Rightarrow> (nat \<times> bytes) option" where
  "cur_varint c =
     (case c of
        [] \<Rightarrow> None
      | first # _ \<Rightarrow>
          Option.bind (cur_take c (2 ^ (unat first div 64))) (\<lambda>(b, c).
            Some (foldl (\<lambda>value x. value * 256 + unat x) (unat first mod 64) (tl b), c)))"

text \<open>On 64-bit targets the conversion to \<open>usize\<close> always succeeds.\<close>

definition cur_size :: "bytes \<Rightarrow> (nat \<times> bytes) option" where
  "cur_size c = cur_varint c"

fun cur_varints :: "nat \<Rightarrow> bytes \<Rightarrow> bytes option" where
  "cur_varints 0 c = Some c"
| "cur_varints (Suc n) c = Option.bind (cur_varint c) (\<lambda>(_, c). cur_varints n c)"

section \<open>Packet numbers\<close>

definition packet_number :: "nat \<Rightarrow> nat \<Rightarrow> nat option \<Rightarrow> nat" where
  "packet_number truncated len largest =
     (let expected = (case largest of None \<Rightarrow> 0 | Some number \<Rightarrow> number + 1);
          window = 2 ^ (len * 8);
          half = window div 2;
          candidate = expected div window * window + truncated
      in if candidate + half \<le> expected \<and> candidate + window < 2 ^ 62 then candidate + window
         else if expected + half < candidate \<and> window \<le> candidate then candidate - window
         else candidate)"

section \<open>The inspector\<close>

record inspector =
  in_connection :: "(nat \<times> bytes) option"
  in_largest :: "nat option"
  in_crypto :: bytes
  in_received :: "bool list"
  in_contiguous :: nat

definition inspector_new :: inspector where
  "inspector_new = \<lparr>in_connection = None, in_largest = None, in_crypto = [], in_received = [], in_contiguous = 0\<rparr>"

text \<open>The copy of a CRYPTO fragment byte by byte; \<open>False\<close> when it contradicts an earlier byte.\<close>

fun crypto_copy :: "inspector \<Rightarrow> nat \<Rightarrow> bytes \<Rightarrow> (inspector \<times> bool) option" where
  "crypto_copy q position [] = Some (q, True)"
| "crypto_copy q position (b # bs) =
     (if length (in_received q) \<le> position \<or> length (in_crypto q) \<le> position then None
      else if in_received q ! position \<and> in_crypto q ! position \<noteq> b then Some (q, False)
      else crypto_copy (q\<lparr>in_crypto := (in_crypto q)[position := b], in_received := (in_received q)[position := True]\<rparr>)
             (position + 1) bs)"

function advance :: "bool list \<Rightarrow> nat \<Rightarrow> nat" where
  "advance received n = (if n < length received \<and> received ! n then advance received (n + 1) else n)"
  by pat_completeness auto
termination by (relation "measure (\<lambda>(r, n). length r - n)") auto

declare advance.simps [simp del]

definition crypto_grow :: "inspector \<Rightarrow> nat \<Rightarrow> inspector" where
  "crypto_grow q e =
     (if length (in_crypto q) < e
      then q\<lparr>in_crypto := in_crypto q @ replicate (e - length (in_crypto q)) 0,
             in_received := take e (in_received q @ replicate (e - length (in_received q)) False)\<rparr>
      else q)"

definition crypto_frame :: "inspector \<Rightarrow> nat \<Rightarrow> bytes \<Rightarrow> (inspector \<times> bool) option" where
  "crypto_frame q offset fragment =
     (case checked_add offset (length fragment) of
        None \<Rightarrow> Some (q, False)
      | Some e \<Rightarrow>
          if MAX_BYTES < e then Some (q, False)
          else
            let q = crypto_grow q e in
            if length (in_crypto q) \<noteq> length (in_received q) then None
            else
              Option.bind (crypto_copy q offset fragment) (\<lambda>(q, ok).
                if \<not> ok then Some (q, False)
                else
                  let q = q\<lparr>in_contiguous := advance (in_received q) (in_contiguous q)\<rparr> in
                  if in_contiguous q \<le> length (in_crypto q) then Some (q, True) else None))"

text \<open>The body of an ACK frame after its type.\<close>

definition ack_frame :: "bool \<Rightarrow> bytes \<Rightarrow> bytes option" where
  "ack_frame ecn c =
     Option.bind (cur_varints 2 c) (\<lambda>c.
     Option.bind (cur_size c) (\<lambda>(ranges, c).
     Option.bind (cur_varint c) (\<lambda>(_, c).
       if length c div 2 < ranges then None
       else Option.bind (cur_varints (2 * ranges) c) (\<lambda>c. if ecn then cur_varints 3 c else Some c))))"

lemma cur_take_shorter: "cur_take c n = Some (b, c') \<Longrightarrow> length c = length b + length c' \<and> length b = n"
  by (auto simp: cur_take_def split: if_splits)

lemma cur_varint_shorter: "cur_varint c = Some (n, c') \<Longrightarrow> length c' < length c"
proof -
  assume "cur_varint c = Some (n, c')"
  then obtain first rest b where "c = first # rest" "cur_take c (2 ^ (unat first div 64)) = Some (b, c')"
    by (auto simp: cur_varint_def split: list.splits Option.bind_splits)
  with cur_take_shorter have "length c = 2 ^ (unat first div 64) + length c'" by metis
  then show ?thesis by simp
qed

lemma cur_varints_shorter: "cur_varints n c = Some c' \<Longrightarrow> length c' \<le> length c"
  by (induction n arbitrary: c) (auto split: Option.bind_splits dest!: cur_varint_shorter, fastforce)

lemma ack_frame_shorter: "ack_frame ecn c = Some c' \<Longrightarrow> length c' \<le> length c"
proof -
  assume a: "ack_frame ecn c = Some c'"
  then obtain c1 n c2 m c3 c4 where s: "cur_varints 2 c = Some c1" "cur_varint c1 = Some (n, c2)" "cur_varint c2 = Some (m, c3)"
    "cur_varints (2 * n) c3 = Some c4" "(if ecn then cur_varints 3 c4 else Some c4) = Some c'"
    by (auto simp: ack_frame_def cur_size_def split: Option.bind_splits if_splits)
  have "length c' \<le> length c4" using s(5) cur_varints_shorter [of 3 c4 c'] by (auto split: if_splits)
  also have "\<dots> \<le> length c3" using cur_varints_shorter [OF s(4)] .
  also have "\<dots> \<le> length c1" using cur_varint_shorter [OF s(2)] cur_varint_shorter [OF s(3)] by linarith
  also have "\<dots> \<le> length c" using cur_varints_shorter [OF s(1)] .
  finally show ?thesis .
qed

text \<open>One frame: the inspector and the rest of the plaintext, \<open>None\<close> the early return.\<close>

definition frame :: "inspector \<Rightarrow> bytes \<Rightarrow> (inspector \<times> bytes option) option" where
  "frame q c =
     (case cur_varint c of
        None \<Rightarrow> Some (q, None)
      | Some (kind, c) \<Rightarrow>
          if kind = 0 \<or> kind = 1 then Some (q, Some c)
          else if kind = 2 \<or> kind = 3 then Some (q, ack_frame (kind = 3) c)
          else if kind = 6 then
            (case Option.bind (cur_size c) (\<lambda>(offset, c).
                  Option.bind (cur_size c) (\<lambda>(len, c).
                  map_option (Pair offset) (cur_take c len))) of
               None \<Rightarrow> Some (q, None)
             | Some (offset, fragment, c) \<Rightarrow>
                 map_option (\<lambda>(q, ok). (q, if ok then Some c else None)) (crypto_frame q offset fragment))
          else Some (q, None))"

lemma frame_shorter: "frame q c = Some (q', Some c') \<Longrightarrow> length c' < length c"
  unfolding frame_def cur_size_def
  by (auto split: option.splits if_splits Option.bind_splits dest!: cur_varint_shorter ack_frame_shorter cur_take_shorter)

text \<open>The frames of a plaintext; \<open>False\<close> is the early return.\<close>

function frames :: "inspector \<Rightarrow> bytes \<Rightarrow> (inspector \<times> bool) option" where
  "frames q c =
     (if c = [] then Some (q, True)
      else case frame q c of
        None \<Rightarrow> None
      | Some (q, None) \<Rightarrow> Some (q, False)
      | Some (q, Some c) \<Rightarrow> frames q c)"
  by pat_completeness auto
termination by (relation "measure (\<lambda>(q, c). length c)") (auto dest: frame_shorter)

declare frames.simps [simp del]

section \<open>Initial packets\<close>

text \<open>
  The Initial keys for a version and connection id: the length of the header protection sample, the
  removal of header protection (the first byte and four bytes of the packet number), and the opening
  of the payload.
\<close>

record quic_keys =
  qk_suite :: bool
  qk_sample :: nat
  qk_unmask :: "nat \<Rightarrow> bytes \<Rightarrow> bytes \<Rightarrow> byte \<Rightarrow> bytes \<Rightarrow> (byte \<times> bytes) option"
  qk_open :: "nat \<Rightarrow> bytes \<Rightarrow> nat \<Rightarrow> bytes \<Rightarrow> bytes \<Rightarrow> bytes option"

definition quic_version :: "nat \<Rightarrow> (nat \<times> nat) option" where
  "quic_version version =
     (if version = 1 then Some (1, 0)
      else if version = 0x6b3343cf then Some (2, 1)
      else if 0xff00001d \<le> version \<and> version \<le> 0xff000020 then Some (0, 0)
      else None)"

text \<open>The long header up to the packet number: version, connection id, and the rest after the token.\<close>

definition long_header :: "bytes \<Rightarrow> (nat \<times> nat \<times> bytes \<times> nat \<times> bytes) option" where
  "long_header datagram =
     Option.bind (cur_byte datagram) (\<lambda>(first, c).
     if unat first div 64 \<noteq> 3 then None
     else
       Option.bind (cur_take c 4) (\<lambda>(v, c).
       let version = u32_of (v ! 0) (v ! 1) (v ! 2) (v ! 3) in
       Option.bind (quic_version version) (\<lambda>(tls_version, initial_type).
       if unat first div 16 mod 4 \<noteq> initial_type then None
       else
         Option.bind (cur_byte c) (\<lambda>(dcid_len, c).
         if 20 < unat dcid_len then None
         else
           Option.bind (cur_take c (unat dcid_len)) (\<lambda>(dcid, c).
           Option.bind (cur_byte c) (\<lambda>(scid_len, c).
           if 20 < unat scid_len then None
           else
             Option.bind (cur_take c (unat scid_len)) (\<lambda>(_, c).
             Option.bind (cur_size c) (\<lambda>(token_len, c).
             Option.bind (cur_take c token_len) (\<lambda>(_, c).
             Option.bind (cur_size c) (\<lambda>(payload_len, c).
               Some (version, tls_version, dcid, payload_len, c)))))))))))"

text \<open>Removing the protection of a packet whose packet number starts at \<open>pn_offset\<close>; \<open>None\<close> is a refusal.\<close>

definition unprotect :: "quic_keys \<Rightarrow> nat \<Rightarrow> bytes \<Rightarrow> nat option \<Rightarrow> bytes \<Rightarrow> nat \<Rightarrow> (nat \<times> bytes) option" where
  "unprotect K tls_version dcid largest packet pn_offset =
     (if \<not> qk_suite K \<or> length packet < pn_offset + 4 + qk_sample K \<or> length packet < pn_offset + 4 then None
      else
        let sample = rslice (pn_offset + 4) (pn_offset + 4 + qk_sample K) packet in
        Option.bind (qk_unmask K tls_version dcid sample (packet ! 0) (rslice pn_offset (pn_offset + 4) packet)) (\<lambda>(first, pn).
          if unat first div 4 mod 4 \<noteq> 0 then None
          else
            let packet = first # rslice 1 pn_offset packet @ pn @ drop (pn_offset + 4) packet;
                pn_len = unat first mod 4 + 1;
                truncated = foldl (\<lambda>number b. number * 256 + unat b) 0 (rslice pn_offset (pn_offset + pn_len) packet);
                number = packet_number truncated pn_len largest
            in map_option (Pair number)
                 (qk_open K tls_version dcid number (take (pn_offset + pn_len) packet) (drop (pn_offset + pn_len) packet))))"

definition initial :: "quic_keys \<Rightarrow> inspector \<Rightarrow> bytes \<Rightarrow> (inspector \<times> bytes option) option" where
  "initial K q datagram =
     (case long_header datagram of
        None \<Rightarrow> Some (q, None)
      | Some (version, tls_version, dcid, payload_len, c) \<Rightarrow>
          let pn_offset = length datagram - length c in
          (case cur_take c payload_len of
             None \<Rightarrow> Some (q, None)
           | Some (_, rest) \<Rightarrow>
               if (case in_connection q of None \<Rightarrow> False | Some (v, d) \<Rightarrow> v \<noteq> version \<or> d \<noteq> dcid) then Some (q, None)
               else
                 (case unprotect K tls_version dcid (in_largest q) (take (pn_offset + payload_len) datagram) pn_offset of
                    None \<Rightarrow> Some (q, None)
                  | Some (number, plaintext) \<Rightarrow>
                      map_option (\<lambda>(q, ok). (q, if ok then Some rest else None))
                        (frames (q\<lparr>in_connection := Some (version, dcid),
                                   in_largest := Some (case in_largest q of None \<Rightarrow> number | Some p \<Rightarrow> max p number)\<rparr>)
                          plaintext))))"

lemma cur_byte_shorter: "cur_byte c = Some (b, c') \<Longrightarrow> length c' < length c"
  by (auto simp: cur_byte_def split: Option.bind_splits dest!: cur_take_shorter)

lemma long_header_shorter: "long_header d = Some (v, t, dcid, n, c) \<Longrightarrow> length c < length d"
  unfolding long_header_def cur_size_def Let_def
  by (auto split: Option.bind_splits if_splits dest!: cur_byte_shorter cur_take_shorter cur_varint_shorter)

lemma initial_shorter: "initial K q d = Some (q', Some rest) \<Longrightarrow> length rest < length d"
  unfolding initial_def Let_def
  by (auto split: option.splits if_splits dest!: long_header_shorter cur_take_shorter)

text \<open>The loop over the coalesced packets of a datagram.\<close>

function inspect :: "quic_keys \<Rightarrow> ('a, 'x) acceptor_scheme \<Rightarrow> inspector \<Rightarrow> bytes \<Rightarrow> (inspector \<times> outcome) option" where
  "inspect K A q datagram =
     (if datagram = [] then Some (q, Need_More)
      else case initial K q datagram of
        None \<Rightarrow> None
      | Some (q, None) \<Rightarrow> Some (q, Unknown)
      | Some (q, Some rest) \<Rightarrow>
          if length (in_crypto q) < in_contiguous q then None
          else
            let out = handshake A (take (in_contiguous q) (in_crypto q)) in
            if out \<noteq> Need_More then Some (q, out)
            else if rest \<noteq> [] \<and> unat (hd rest) < 128 then Some (q, Need_More)
            else inspect K A q rest)"
  by pat_completeness auto
termination
  by (relation "measure (\<lambda>(K, A, q, d). length d)") (auto dest: initial_shorter)

declare inspect.simps [simp del]

section \<open>Reassembly of the CRYPTO stream\<close>

definition insp_ok :: "inspector \<Rightarrow> bool" where
  "insp_ok q \<longleftrightarrow> length (in_received q) = length (in_crypto q) \<and> length (in_crypto q) \<le> MAX_BYTES \<and>
     in_contiguous q \<le> length (in_crypto q) \<and> (\<forall>i < in_contiguous q. in_received q ! i)"

text \<open>Every byte marked as received is that of the stream \<open>S\<close>.\<close>

definition agrees :: "bytes \<Rightarrow> inspector \<Rightarrow> bool" where
  "agrees S q \<longleftrightarrow> (\<forall>i < length (in_received q). in_received q ! i \<longrightarrow> i < length S \<and> in_crypto q ! i = S ! i)"

definition slice_of :: "bytes \<Rightarrow> nat \<times> bytes \<Rightarrow> bool" where
  "slice_of S f \<longleftrightarrow> fst f + length (snd f) \<le> length S \<and> snd f = rslice (fst f) (fst f + length (snd f)) S"

definition received_at :: "inspector \<Rightarrow> nat \<Rightarrow> bool" where
  "received_at q i \<longleftrightarrow> i < length (in_received q) \<and> in_received q ! i"

lemma crypto_copy_ok:
  assumes "length (in_received q) = length (in_crypto q)" "p + length bs \<le> length (in_crypto q)"
  shows "\<exists>q' ok. crypto_copy q p bs = Some (q', ok) \<and> length (in_received q') = length (in_crypto q) \<and>
    length (in_crypto q') = length (in_crypto q) \<and> in_contiguous q' = in_contiguous q \<and>
    (\<forall>i. received_at q i \<longrightarrow> received_at q' i) \<and>
    (ok \<longrightarrow> (\<forall>i. received_at q' i \<longleftrightarrow> received_at q i \<or> p \<le> i \<and> i < p + length bs))"
  using assms
proof (induction bs arbitrary: q p)
  case Nil
  then show ?case by (intro exI [of _ q] exI [of _ True]) auto
next
  case (Cons b bs)
  have p: "p < length (in_received q)" "p < length (in_crypto q)" using Cons.prems by auto
  show ?case
  proof (cases "in_received q ! p \<and> in_crypto q ! p \<noteq> b")
    case True
    then show ?thesis using p Cons.prems by (intro exI [of _ q] exI [of _ False]) auto
  next
    case False
    define q1 where "q1 = q\<lparr>in_crypto := (in_crypto q)[p := b], in_received := (in_received q)[p := True]\<rparr>"
    have step: "crypto_copy q p (b # bs) = crypto_copy q1 (p + 1) bs" using False p by (auto simp: q1_def)
    have at: "received_at q1 i \<longleftrightarrow> received_at q i \<or> i = p" for i
      using p by (auto simp: q1_def received_at_def nth_list_update)
    obtain q' ok where r: "crypto_copy q1 (p + 1) bs = Some (q', ok)" "length (in_received q') = length (in_crypto q1)"
      "length (in_crypto q') = length (in_crypto q1)" "in_contiguous q' = in_contiguous q1" "\<forall>i. received_at q1 i \<longrightarrow> received_at q' i"
      "ok \<longrightarrow> (\<forall>i. received_at q' i \<longleftrightarrow> received_at q1 i \<or> p + 1 \<le> i \<and> i < p + 1 + length bs)"
      using Cons.IH [of q1 "p + 1"] Cons.prems by (auto simp: q1_def)
    have "received_at q i \<longrightarrow> received_at q' i" for i using r(5) at by blast
    moreover have "ok \<longrightarrow> (\<forall>i. received_at q' i \<longleftrightarrow> received_at q i \<or> p \<le> i \<and> i < p + length (b # bs))"
      using r(6) at by (auto simp: Suc_le_eq)
    ultimately show ?thesis using step r(1-4) by (intro exI [of _ q'] exI [of _ ok]) (simp add: q1_def)
  qed
qed

lemma crypto_copy_agrees:
  assumes "agrees S q" "p + length bs \<le> length S" "p + length bs \<le> length (in_crypto q)" "length (in_received q) = length (in_crypto q)"
    and "\<forall>j < length bs. bs ! j = S ! (p + j)"
  shows "\<exists>q'. crypto_copy q p bs = Some (q', True) \<and> agrees S q'"
  using assms
proof (induction bs arbitrary: q p)
  case (Cons b bs)
  have b: "b = S ! p" using Cons.prems(5) by force
  have fits: "p < length (in_received q)" "p < length (in_crypto q)" "p < length S" using Cons.prems(2-4) by auto
  have same: "\<not> (in_received q ! p \<and> in_crypto q ! p \<noteq> b)" using Cons.prems(1) fits b by (auto simp: agrees_def)
  define q1 where "q1 = q\<lparr>in_crypto := (in_crypto q)[p := b], in_received := (in_received q)[p := True]\<rparr>"
  have "agrees S q1" using Cons.prems(1,4) fits b by (auto simp: agrees_def q1_def nth_list_update)
  moreover have "\<forall>j < length bs. bs ! j = S ! (p + 1 + j)" using Cons.prems(5) by force
  ultimately have "\<exists>q'. crypto_copy q1 (p + 1) bs = Some (q', True) \<and> agrees S q'"
    using Cons.prems(2-4) by (intro Cons.IH) (simp_all add: q1_def)
  with same fits show ?case by (simp add: q1_def)
qed simp

lemma advance_spec:
  "n \<le> advance r n \<and> (\<forall>i. n \<le> i \<and> i < advance r n \<longrightarrow> i < length r \<and> r ! i) \<and>
    (advance r n < length r \<longrightarrow> \<not> r ! advance r n) \<and> (n \<le> length r \<longrightarrow> advance r n \<le> length r)"
proof (induction r n rule: advance.induct)
  case (1 r n)
  show ?case
  proof (cases "n < length r \<and> r ! n")
    case True
    have "advance r n = advance r (n + 1)" using True by (subst advance.simps) simp
    with "1.IH" [OF True] True show ?thesis by (metis Suc_eq_plus1 Suc_leD Suc_leI le_neq_implies_less)
  next
    case False
    then have "advance r n = n" by (subst advance.simps) auto
    with False show ?thesis by auto
  qed
qed

lemma crypto_grow_ok:
  assumes "insp_ok q" "e \<le> MAX_BYTES"
  shows "insp_ok (crypto_grow q e)" "e \<le> length (in_crypto (crypto_grow q e))"
    "received_at (crypto_grow q e) i = received_at q i" "agrees S q \<Longrightarrow> agrees S (crypto_grow q e)"
    "in_contiguous (crypto_grow q e) = in_contiguous q"
proof -
  show "in_contiguous (crypto_grow q e) = in_contiguous q" by (simp add: crypto_grow_def)
  show "e \<le> length (in_crypto (crypto_grow q e))" by (simp add: crypto_grow_def)
  show "insp_ok (crypto_grow q e)" "received_at (crypto_grow q e) i = received_at q i" "agrees S q \<Longrightarrow> agrees S (crypto_grow q e)"
    using assms by (auto simp: insp_ok_def received_at_def agrees_def crypto_grow_def nth_append)
qed

lemma crypto_frame_ok:
  assumes "insp_ok q"
  shows "\<exists>q' ok. crypto_frame q off b = Some (q', ok) \<and> insp_ok q'"
proof (cases "off + length b \<le> MAX_BYTES")
  case False
  then show ?thesis using assms
    by (cases "off + length b \<le> usize_max") (auto simp: crypto_frame_def checked_add_def)
next
  case True
  have small: "off + length b \<le> usize_max" using True by (simp add: MAX_BYTES_def usize_max_def)
  define g where "g = crypto_grow q (off + length b)"
  note g = crypto_grow_ok [OF assms True, folded g_def]
  have len: "length (in_received g) = length (in_crypto g)" using g(1) by (simp add: insp_ok_def)
  obtain q' ok where c: "crypto_copy g off b = Some (q', ok)" "length (in_received q') = length (in_crypto g)"
    "length (in_crypto q') = length (in_crypto g)" "in_contiguous q' = in_contiguous g" "\<forall>i. received_at g i \<longrightarrow> received_at q' i"
    using crypto_copy_ok [OF len g(2)] by blast
  have ok': "insp_ok q'" using c(2-5) g(1) by (auto simp: insp_ok_def received_at_def)
  define q2 where "q2 = q'\<lparr>in_contiguous := advance (in_received q') (in_contiguous q')\<rparr>"
  have "insp_ok q2"
    using ok' advance_spec [of "in_contiguous q'" "in_received q'"] unfolding insp_ok_def q2_def
    by (simp) (metis not_le)
  then have "in_contiguous q2 \<le> length (in_crypto q2)" by (simp add: insp_ok_def)
  then have "crypto_frame q off b = Some (if ok then q2 else q', ok)"
    using True small len c(1) by (simp add: crypto_frame_def checked_add_def g_def [symmetric] q2_def Let_def)
  with ok' \<open>insp_ok q2\<close> show ?thesis by simp
qed

lemma frame_ok: "insp_ok q \<Longrightarrow> \<exists>q' r. frame q c = Some (q', r) \<and> insp_ok q'"
  using crypto_frame_ok [of q] by (fastforce simp: frame_def split: option.splits)

lemma frames_ok: "insp_ok q \<Longrightarrow> \<exists>q' ok. frames q c = Some (q', ok) \<and> insp_ok q'"
proof (induction q c rule: frames.induct)
  case (1 q c)
  obtain q1 r where f: "frame q c = Some (q1, r)" "insp_ok q1" using frame_ok [OF "1.prems"] by blast
  show ?case using "1.IH" f "1.prems" by (cases r) (auto simp: frames.simps [of q c])
qed

lemma initial_ok: "insp_ok q \<Longrightarrow> \<exists>q' r. initial K q d = Some (q', r) \<and> insp_ok q'"
proof -
  assume q: "insp_ok q"
  have "\<exists>q' ok. frames (q\<lparr>in_connection := a, in_largest := b\<rparr>) c = Some (q', ok) \<and> insp_ok q'" for a b c
    using q by (intro frames_ok) (simp add: insp_ok_def)
  with q show ?thesis unfolding initial_def Let_def by (fastforce split: option.splits)
qed

lemma inspect_ok: "insp_ok q \<Longrightarrow> \<exists>q' out. inspect K A q d = Some (q', out) \<and> insp_ok q'"
proof (induction K A q d rule: inspect.induct)
  case (1 K A q d)
  obtain q1 r where i: "initial K q d = Some (q1, r)" "insp_ok q1" using initial_ok [OF "1.prems"] by blast
  then have "in_contiguous q1 \<le> length (in_crypto q1)" by (simp add: insp_ok_def)
  then show ?case using "1.IH" i "1.prems" by (cases r) (auto simp: inspect.simps [of K A q d] Let_def)
qed

definition maximal :: "inspector \<Rightarrow> bool" where
  "maximal q \<longleftrightarrow> \<not> received_at q (in_contiguous q)"

lemma crypto_frame_agrees:
  assumes "insp_ok q" "agrees S q" "slice_of S (off, b)" "length S \<le> MAX_BYTES"
  shows "\<exists>q'. crypto_frame q off b = Some (q', True) \<and> insp_ok q' \<and> agrees S q' \<and> maximal q' \<and>
    (\<forall>i. received_at q' i \<longleftrightarrow> received_at q i \<or> off \<le> i \<and> i < off + length b)"
proof -
  have fits: "off + length b \<le> length S" and b: "\<forall>j < length b. b ! j = S ! (off + j)"
    using assms(3) nth_slice [of _ "off + length b" off S] by (auto simp: slice_of_def)
  have le: "off + length b \<le> MAX_BYTES" using fits assms(4) by simp
  have small: "off + length b \<le> usize_max" using le by (simp add: MAX_BYTES_def usize_max_def)
  define g where "g = crypto_grow q (off + length b)"
  note g = crypto_grow_ok [OF assms(1) le, folded g_def]
  have len: "length (in_received g) = length (in_crypto g)" using g(1) by (simp add: insp_ok_def)
  obtain q1 where c1: "crypto_copy g off b = Some (q1, True)" "agrees S q1"
    using crypto_copy_agrees [OF g(4) [OF assms(2)] fits g(2) len b] by blast
  have c2: "in_contiguous q1 = in_contiguous g" "length (in_received q1) = length (in_crypto q1)"
    "\<forall>i. received_at q1 i \<longleftrightarrow> received_at q i \<or> off \<le> i \<and> i < off + length b"
    using crypto_copy_ok [OF len g(2)] c1(1) g(3) by auto
  define q2 where "q2 = q1\<lparr>in_contiguous := advance (in_received q1) (in_contiguous q1)\<rparr>"
  have crypto: "crypto_frame q off b = Some (q2, True)"
  proof -
    obtain q' ok where "crypto_frame q off b = Some (q', ok)" using crypto_frame_ok [OF assms(1)] by blast
    then show ?thesis using le small len c1(1)
      by (auto simp: crypto_frame_def checked_add_def g_def [symmetric] q2_def Let_def split: if_splits)
  qed
  moreover have "insp_ok q2" using crypto_frame_ok [OF assms(1), of off b] crypto by simp
  moreover have "agrees S q2" using c1(2) by (simp add: agrees_def q2_def)
  moreover have at: "received_at q2 i = received_at q1 i" for i by (simp add: received_at_def q2_def)
  moreover have "maximal q2"
    using advance_spec [of "in_contiguous q1" "in_received q1"] by (auto simp: maximal_def received_at_def q2_def)
  ultimately show ?thesis using c2(3) by blast
qed

text \<open>The contiguous part is the longest received prefix, and it is that of the stream.\<close>

lemma contiguous_prefix:
  assumes "insp_ok q" "agrees S q"
  shows "in_contiguous q \<le> length S" "take (in_contiguous q) (in_crypto q) = take (in_contiguous q) S"
proof -
  have len: "in_contiguous q \<le> length (in_received q)" "in_contiguous q \<le> length (in_crypto q)"
    and each: "\<forall>i < in_contiguous q. i < length S \<and> in_crypto q ! i = S ! i"
    using assms by (auto simp: insp_ok_def agrees_def)
  show le: "in_contiguous q \<le> length S" using each by (metis not_le order_refl)
  show "take (in_contiguous q) (in_crypto q) = take (in_contiguous q) S"
    using len le each by (intro nth_equalityI) auto
qed

lemma contiguous_longest:
  assumes "insp_ok q" "maximal q"
  shows "(\<forall>i < n. received_at q i) \<longleftrightarrow> n \<le> in_contiguous q"
proof
  assume "\<forall>i < n. received_at q i"
  then show "n \<le> in_contiguous q" using assms(2) by (metis maximal_def not_le)
next
  assume "n \<le> in_contiguous q"
  then show "\<forall>i < n. received_at q i" using assms(1) by (auto simp: insp_ok_def received_at_def)
qed

section \<open>What a client sends\<close>

text \<open>The frames of an Initial packet that a client builds, and their encoding (RFC 9000, 16 and 19).\<close>

datatype client_frame = Padding | Ping | Crypto nat bytes

definition client_varint :: "nat \<Rightarrow> bytes" where
  "client_varint n =
     (if n < 64 then [of_nat n]
      else if n < 16384 then [of_nat (64 + n div 256), of_nat (n mod 256)]
      else [of_nat (128 + n div 16777216), of_nat (n div 65536 mod 256), of_nat (n div 256 mod 256), of_nat (n mod 256)])"

fun put_frame :: "client_frame \<Rightarrow> bytes" where
  "put_frame Padding = client_varint 0"
| "put_frame Ping = client_varint 1"
| "put_frame (Crypto offset data) = client_varint 6 @ client_varint offset @ client_varint (length data) @ data"

fun carries_slice :: "bytes \<Rightarrow> client_frame \<Rightarrow> bool" where
  "carries_slice S (Crypto offset data) = slice_of S (offset, data)"
| "carries_slice S _ = True"

fun covers :: "client_frame \<Rightarrow> nat \<Rightarrow> bool" where
  "covers (Crypto offset data) i = (offset \<le> i \<and> i < offset + length data)"
| "covers _ i = False"

lemma unat_byte: "n < 256 \<Longrightarrow> unat (of_nat n :: byte) = n"
  by (simp add: unat_of_nat_byte)

lemma base256_digits:
  "((n div 16777216 * 256 + n div 65536 mod 256) * 256 + n div 256 mod 256) * 256 + n mod 256 = (n :: nat)"
proof -
  have "n div 65536 = n div 256 div 256" "n div 16777216 = n div 256 div 256 div 256"
    by (simp_all add: div_mult2_eq [symmetric])
  then show ?thesis by (simp only: div_mult_mod_eq)
qed

lemma tagged_byte:
  assumes "k < 64" "t < 4"
  shows "unat (of_nat (64 * t + k) :: byte) div 64 = t" "unat (of_nat (64 * t + k) :: byte) mod 64 = k"
proof -
  have "unat (of_nat (64 * t + k) :: byte) = 64 * t + k" using assms by (intro unat_byte) linarith
  then show "unat (of_nat (64 * t + k) :: byte) div 64 = t" "unat (of_nat (64 * t + k) :: byte) mod 64 = k"
    using assms(1) by simp_all
qed

lemma cur_varint_Cons:
  assumes "Suc (length bs) = 2 ^ (unat first div 64)"
  shows "cur_varint (first # bs @ c) = Some (foldl (\<lambda>value x. value * 256 + unat x) (unat first mod 64) bs, c)"
  using assms by (simp add: cur_varint_def cur_take_def flip: assms)

lemma client_varint_read:
  assumes "n < 1073741824"
  shows "cur_varint (client_varint n @ c) = Some (n, c)"
proof -
  consider "n < 64" | "64 \<le> n" "n < 16384" | "16384 \<le> n" by linarith
  then show ?thesis
  proof cases
    case 1
    then show ?thesis by (simp add: client_varint_def cur_varint_def cur_take_def unat_byte)
  next
    case 2
    have small: "n div 256 < 64" using 2 by (intro less_mult_imp_div_less) simp
    have "client_varint n = of_nat (64 * 1 + n div 256) # [of_nat (n mod 256)]" using 2 by (simp add: client_varint_def)
    then show ?thesis
      using cur_varint_Cons [of "[of_nat (n mod 256)]" "of_nat (64 * 1 + n div 256)" c] tagged_byte [OF small, of 1]
      by (simp add: unat_byte del: of_nat_add)
  next
    case 3
    have small: "n div 16777216 < 64" using assms by (intro less_mult_imp_div_less) simp
    let ?rest = "[of_nat (n div 65536 mod 256), of_nat (n div 256 mod 256), of_nat (n mod 256)]"
    have "client_varint n = of_nat (64 * 2 + n div 16777216) # ?rest" using 3 by (simp add: client_varint_def)
    then show ?thesis
      using cur_varint_Cons [of ?rest "of_nat (64 * 2 + n div 16777216)" c] tagged_byte [OF small, of 2] base256_digits [of n]
      by (simp add: unat_byte del: of_nat_add)
  qed
qed

lemma frame_reads_crypto:
  assumes "insp_ok q" "agrees S q" "slice_of S (off, b)" "length S \<le> MAX_BYTES"
  shows "\<exists>q'. frame q (put_frame (Crypto off b) @ c) = Some (q', Some c) \<and> insp_ok q' \<and> agrees S q' \<and> maximal q' \<and>
    (\<forall>i. received_at q' i \<longleftrightarrow> received_at q i \<or> off \<le> i \<and> i < off + length b)"
proof -
  have small: "off < 1073741824" "length b < 1073741824" using assms(3,4) by (auto simp: slice_of_def MAX_BYTES_def)
  have "frame q (put_frame (Crypto off b) @ c) = map_option (\<lambda>(q, ok). (q, if ok then Some c else None)) (crypto_frame q off b)"
    using small by (simp add: frame_def cur_size_def client_varint_read cur_take_def)
  with crypto_frame_agrees [OF assms] show ?thesis by auto
qed

lemma frames_client:
  assumes "insp_ok q" "agrees S q" "maximal q" "length S \<le> MAX_BYTES" "list_all (carries_slice S) fs"
  shows "\<exists>q'. frames q (concat (map put_frame fs)) = Some (q', True) \<and> insp_ok q' \<and> agrees S q' \<and> maximal q' \<and>
    (\<forall>i. received_at q' i \<longleftrightarrow> received_at q i \<or> (\<exists>f \<in> set fs. covers f i))"
  using assms
proof (induction fs arbitrary: q)
  case Nil
  then show ?case by (simp add: frames.simps [of q "[]"])
next
  case (Cons f fs)
  define c where "c = concat (map put_frame fs)"
  have "\<exists>q1. frame q (put_frame f @ c) = Some (q1, Some c) \<and> insp_ok q1 \<and> agrees S q1 \<and> maximal q1 \<and>
    (\<forall>i. received_at q1 i \<longleftrightarrow> received_at q i \<or> covers f i)"
  proof (cases f)
    case (Crypto off b)
    then show ?thesis using Cons.prems(5) frame_reads_crypto [OF Cons.prems(1,2) _ Cons.prems(4), of off b c] by simp
  qed (use Cons.prems in \<open>simp_all add: frame_def client_varint_read\<close>)
  then obtain q1 where q1: "frame q (put_frame f @ c) = Some (q1, Some c)" "insp_ok q1" "agrees S q1" "maximal q1"
    "\<forall>i. received_at q1 i \<longleftrightarrow> received_at q i \<or> covers f i" by blast
  have ne: "put_frame f @ c \<noteq> []" by (cases f) (simp_all add: client_varint_def)
  have "concat (map put_frame (f # fs)) = put_frame f @ c" by (simp add: c_def)
  then have "frames q (concat (map put_frame (f # fs))) = frames q1 c"
    using frames.simps [of q "put_frame f @ c"] ne q1(1) by (simp only: if_False option.case prod.case)
  with Cons.IH [OF q1(2-4) Cons.prems(4)] Cons.prems(5) q1(5) show ?case by (auto simp: c_def)
qed

lemma nearest_window:
  assumes "(w::nat) > 0" "e < n + w" "n < e + w"
  shows "e div w * w + n mod w = n \<or> e div w * w + n mod w + w = n \<or> e div w * w + n mod w = n + w"
proof -
  have "e div w \<le> (n + w) div w" "n div w \<le> (e + w) div w" using assms by (simp_all add: div_le_mono del: div_add_self2)
  then have "e div w \<le> n div w + 1" "n div w \<le> e div w + 1"
    using div_add_self2 [of w n] div_add_self2 [of w e] assms(1) by simp_all
  then consider "e div w = n div w" | "n div w = e div w + 1" | "e div w = n div w + 1" by linarith
  then show ?thesis
  proof cases
    case 2
    then show ?thesis using div_mult_mod_eq [of n w] by (simp add: add_mult_distrib)
  next
    case 3
    then show ?thesis using div_mult_mod_eq [of n w] by (simp add: add_mult_distrib)
  qed simp
qed

lemma window_correction:
  fixes c :: nat
  assumes near: "e < n + h" "n \<le> e + h" and w: "w = 2 * h" "0 < h" and "n < 2 ^ 62" "c = n \<or> c + w = n \<or> c = n + w"
  shows "(if c + h \<le> e \<and> c + w < 2 ^ 62 then c + w else if e + h < c \<and> w \<le> c then c - w else c) = n"
  using assms(6)
proof (elim disjE)
  assume "c = n"
  then show ?thesis using near w by simp
next
  assume "c + w = n"
  then show ?thesis using near w assms(5) by simp
next
  assume "c = n + w"
  then show ?thesis using near w by simp
qed

section \<open>Properties\<close>

text \<open>
  C27. The CRYPTO stream of a client is reassembled however it is split, reordered and repeated over
  the frames of its Initial packets. A plaintext whose CRYPTO frames carry slices of the stream \<open>S\<close> of at
  most 64 KiB is accepted; afterwards exactly the bytes received before or covered by a frame are
  marked, the contiguous part is the longest prefix of received bytes and equals that prefix of \<open>S\<close>, and
  a handshake outcome decided on it is the outcome on the whole of \<open>S\<close>.
\<close>

theorem crypto_stream_reassembled:
  assumes "insp_ok q" "agrees S q" "maximal q" "length S \<le> MAX_BYTES" "list_all (carries_slice S) fs"
  shows "\<exists>q'. frames q (concat (map put_frame fs)) = Some (q', True) \<and>
    insp_ok q' \<and> agrees S q' \<and> maximal q' \<and>
    (\<forall>i. received_at q' i \<longleftrightarrow> received_at q i \<or> (\<exists>f \<in> set fs. covers f i)) \<and>
    (\<forall>n. (\<forall>i < n. received_at q' i) \<longleftrightarrow> n \<le> in_contiguous q') \<and>
    take (in_contiguous q') (in_crypto q') = take (in_contiguous q') S \<and>
    (handshake A (take (in_contiguous q') (in_crypto q')) \<noteq> Need_More \<longrightarrow>
       handshake A (take (in_contiguous q') (in_crypto q')) = handshake A S)"
proof -
  obtain q' where q': "frames q (concat (map put_frame fs)) = Some (q', True)" "insp_ok q'" "agrees S q'" "maximal q'"
    "\<forall>i. received_at q' i \<longleftrightarrow> received_at q i \<or> (\<exists>f \<in> set fs. covers f i)"
    using frames_client [OF assms] by blast
  note prefix = contiguous_prefix [OF q'(2,3)]
  have "handshake A (take (in_contiguous q') S) \<noteq> Need_More \<longrightarrow> handshake A (take (in_contiguous q') S) = handshake A S"
    using handshake_stable [of A "take (in_contiguous q') S" "drop (in_contiguous q') S"] by simp
  then show ?thesis using q' prefix(2) contiguous_longest [OF q'(2,4)] by (intro exI [of _ q']) simp
qed

definition hello_frames :: "client_frame list" where
  "hello_frames = [Crypto 2 [3, 4], Padding, Crypto 0 [1, 2, 3], Ping]"

theorem crypto_stream_reassembled_witness:
  "\<exists>q'. frames inspector_new (concat (map put_frame hello_frames)) = Some (q', True) \<and>
    4 \<le> in_contiguous q' \<and> take (in_contiguous q') (in_crypto q') = take (in_contiguous q') [1, 2, 3, 4]"
proof -
  have new: "insp_ok inspector_new" "agrees [1, 2, 3, 4] inspector_new" "maximal inspector_new"
    by (simp_all add: insp_ok_def agrees_def maximal_def received_at_def inspector_new_def)
  have carries_slice: "list_all (carries_slice [1, 2, 3, 4]) hello_frames"
    by (simp add: hello_frames_def slice_of_def rslice_def)
  have len: "length ([1, 2, 3, 4] :: bytes) \<le> MAX_BYTES" by (simp add: MAX_BYTES_def)
  obtain q' where q': "frames inspector_new (concat (map put_frame hello_frames)) = Some (q', True)"
    "\<forall>i. received_at q' i \<longleftrightarrow> received_at inspector_new i \<or> (\<exists>f \<in> set hello_frames. covers f i)"
    "\<forall>n. (\<forall>i < n. received_at q' i) \<longleftrightarrow> n \<le> in_contiguous q'"
    "take (in_contiguous q') (in_crypto q') = take (in_contiguous q') [1, 2, 3, 4]"
    using crypto_stream_reassembled [OF new len carries_slice, where A = sample_acceptor] by (elim exE conjE) (rule that)
  have "received_at q' i" if "i < 4" for i
  proof -
    have "\<exists>f \<in> set hello_frames. covers f i" using that by (cases "i < 3") (simp_all add: hello_frames_def)
    with q'(2) show ?thesis by blast
  qed
  then show ?thesis using q'(1,3,4) by blast
qed

text \<open>
  A packet number truncated to \<open>len\<close> bytes is recovered: when the full number \<open>n\<close> lies in the window
  of \<open>256 ^ len\<close> numbers around the number after the largest one received, \<open>packet_number\<close> returns it.
\<close>

lemma packet_number_recovers:
  assumes "n < 2 ^ 62" "1 \<le> len"
    and "(case largest of None \<Rightarrow> 0 | Some l \<Rightarrow> l + 1) < n + 2 ^ (len * 8) div 2"
    and "n \<le> (case largest of None \<Rightarrow> 0 | Some l \<Rightarrow> l + 1) + 2 ^ (len * 8) div 2"
  shows "packet_number (n mod 2 ^ (len * 8)) len largest = n"
proof -
  define e where "e = (case largest of None \<Rightarrow> 0 | Some l \<Rightarrow> l + 1)"
  define w :: nat where "w = 2 ^ (len * 8)"
  define h where "h = w div 2"
  obtain k where "len * 8 = Suc k" using assms(2) by (cases "len * 8") auto
  then have w: "w = 2 * h" "0 < h" by (auto simp: w_def h_def)
  have near: "e < n + h" "n \<le> e + h" using assms(3,4) by (simp_all add: e_def w_def h_def)
  define c where "c = e div w * w + n mod w"
  have result: "packet_number (n mod 2 ^ (len * 8)) len largest =
      (if c + h \<le> e \<and> c + w < 2 ^ 62 then c + w else if e + h < c \<and> w \<le> c then c - w else c)"
    by (simp only: packet_number_def Let_def e_def w_def h_def c_def)
  have "e < n + w" "n < e + w" "0 < w" using near w by linarith+
  from nearest_window [OF this(3,1,2)] have "c = n \<or> c + w = n \<or> c = n + w" unfolding c_def .
  from window_correction [OF near w assms(1) this] show ?thesis unfolding result .
qed

end
