(* ===== verification/Sniff.thy ===== *)
theory Sniff
  imports Quic_Sniff Chunk Queue Target
begin

text \<open>
  Sniffing before routing (\<open>crates/inbounds/src/sniff.rs\<close>): the HTTP host, the inspection of a TCP stream
  and of a UDP session, and the replay of what was read. One call of \<open>sniff_tcp\<close> or \<open>sniff_udp\<close> is one
  poll of the future; \<open>cancelled\<close> and \<open>elapsed\<close> say which of the earlier branches of the \<open>select!\<close> is
  ready. The HTTP parser (httparse) and the authority parser (http) are the parameter \<open>http_env\<close>.
\<close>

section \<open>Textual addresses\<close>

text \<open>
  \<open>str::parse::<IpAddr>\<close> of the standard library, as a recogniser: each reader returns the rest of the
  text.
\<close>

definition digit_of :: "nat \<Rightarrow> byte \<Rightarrow> nat option" where
  "digit_of radix b =
     (let n = unat b;
          d = (if 48 \<le> n \<and> n \<le> 57 then n - 48 else if 97 \<le> n \<and> n \<le> 102 then n - 87
               else if 65 \<le> n \<and> n \<le> 70 then n - 55 else 99)
      in if d < radix then Some d else None)"

definition read_octet :: "bytes \<Rightarrow> bytes option" where
  "read_octet s =
     (let ds = takeWhile (\<lambda>b. digit_of 10 b \<noteq> None) s;
          v = foldl (\<lambda>v b. v * 10 + (unat b - 48)) 0 ds
      in if ds = [] \<or> 3 < length ds \<or> 255 < v \<or> (1 < length ds \<and> hd ds = 48) then None
         else Some (drop (length ds) s))"

definition read_char :: "byte \<Rightarrow> bytes \<Rightarrow> bytes option" where
  "read_char c s = (case s of [] \<Rightarrow> None | b # s \<Rightarrow> if b = c then Some s else None)"

fun read_dotted :: "nat \<Rightarrow> bytes \<Rightarrow> bytes option" where
  "read_dotted 0 s = Some s"
| "read_dotted (Suc n) s = Option.bind (read_char 46 s) (\<lambda>s. Option.bind (read_octet s) (read_dotted n))"

definition read_ipv4 :: "bytes \<Rightarrow> bytes option" where
  "read_ipv4 s = Option.bind (read_octet s) (read_dotted 3)"

definition read_group :: "bytes \<Rightarrow> bytes option" where
  "read_group s =
     (let ds = takeWhile (\<lambda>b. digit_of 16 b \<noteq> None) s
      in if ds = [] \<or> 4 < length ds then None else Some (drop (length ds) s))"

definition read_separator :: "nat \<Rightarrow> (bytes \<Rightarrow> bytes option) \<Rightarrow> bytes \<Rightarrow> bytes option" where
  "read_separator i f s = (if 0 < i then Option.bind (read_char 58 s) f else f s)"

text \<open>Groups \<open>i\<close> to \<open>i + k\<close>: the number read, whether they end in a dotted address, and the rest.\<close>

fun read_groups :: "nat \<Rightarrow> nat \<Rightarrow> bytes \<Rightarrow> nat \<times> bool \<times> bytes" where
  "read_groups i 0 s = (i, False, s)"
| "read_groups i (Suc k) s =
     (case (if k = 0 then None else read_separator i read_ipv4 s) of
        Some s \<Rightarrow> (i + 2, True, s)
      | None \<Rightarrow>
          (case read_separator i read_group s of
             Some s \<Rightarrow> read_groups (i + 1) k s
           | None \<Rightarrow> (i, False, s)))"

definition read_ipv6 :: "bytes \<Rightarrow> bytes option" where
  "read_ipv6 s =
     (case read_groups 0 8 s of (head, dotted, s) \<Rightarrow>
        if head = 8 then Some s
        else if dotted then None
        else Option.bind (read_char 58 s) (\<lambda>s. Option.bind (read_char 58 s) (\<lambda>s.
               Some (snd (snd (read_groups 0 (7 - head) s))))))"

definition is_ip_addr :: "bytes \<Rightarrow> bool" where
  "is_ip_addr s = ((case read_ipv4 s of Some r \<Rightarrow> Some r | None \<Rightarrow> read_ipv6 s) = Some [])"

section \<open>HTTP\<close>

datatype http_status = Http_Partial | Http_Error | Http_Complete "(bytes \<times> bytes) list"

text \<open>\<open>httparse::Request::parse\<close> with 64 headers, and the host of an \<open>http::uri::Authority\<close>.\<close>

record http_env =
  he_parse :: "bytes \<Rightarrow> http_status"
  he_host :: "bytes \<Rightarrow> bytes option"

definition domain_from_authority :: "http_env \<Rightarrow> bytes \<Rightarrow> bytes option" where
  "domain_from_authority H authority =
     Option.bind (he_host H authority) (\<lambda>host.
       let host = rev (dropWhile (\<lambda>b. b = 93) (rev (dropWhile (\<lambda>b. b = 91) host))) in
       if is_ip_addr host \<or> host = [] then None else Some (lower host))"

definition host_name :: bytes where "host_name = [104, 111, 115, 116]"

definition sniff_http :: "http_env \<Rightarrow> bytes \<Rightarrow> outcome" where
  "sniff_http H bytes =
     (case he_parse H bytes of
        Http_Partial \<Rightarrow> Need_More
      | Http_Error \<Rightarrow> Unknown
      | Http_Complete headers \<Rightarrow>
          let domain =
            Option.bind (find (\<lambda>(name, _). lower name = lower host_name) headers) (\<lambda>(_, value).
              if valid_utf8 value then domain_from_authority H value else None)
          in Found \<lparr>sr_protocol = Sniff_Http, sr_domain = domain\<rparr>)"

section \<open>TCP\<close>

text \<open>
  The locals of the future; \<open>sn_reading\<close> is set while it is suspended in the read, and clear at the
  top of the loop.
\<close>

record 'a tcp_sniff =
  sn_bytes :: bytes
  sn_acceptor :: 'a
  sn_fed :: nat
  sn_reading :: bool

definition tcp_sniff_new :: "('a, 'x) acceptor_scheme \<Rightarrow> 'a tcp_sniff" where
  "tcp_sniff_new A = \<lparr>sn_bytes = [], sn_acceptor = ac_new A, sn_fed = 0, sn_reading = False\<rparr>"

definition tcp_outcome :: "('a, 'x) acceptor_scheme \<Rightarrow> http_env \<Rightarrow> 'a tcp_sniff \<Rightarrow> 'a tcp_sniff \<times> outcome" where
  "tcp_outcome A H st =
     (case (if sn_bytes st \<noteq> [] \<and> hd (sn_bytes st) = 22
            then records A (sn_acceptor st) (drop (sn_fed st) (sn_bytes st))
            else (sn_acceptor st, sniff_http H (sn_bytes st))) of
        (a, out) \<Rightarrow> (st\<lparr>sn_acceptor := a, sn_fed := length (sn_bytes st), sn_reading := True\<rparr>, out))"

lemma tcp_outcome_fields:
  "tcp_outcome A H st = (st', out) \<Longrightarrow> sn_bytes st' = sn_bytes st \<and> sn_reading st'"
  by (auto simp: tcp_outcome_def split: prod.splits)

lemma read_shrinks: "b \<noteq> [] \<Longrightarrow> \<not> min (m - n) k < length b \<Longrightarrow> Suc (2 * (m - (n + length b))) < 2 * (m - n)"
  by (cases b) auto

function tcp_inspect ::
  "('s, 'y) io_ops_scheme \<Rightarrow> ('a, 'x) acceptor_scheme \<Rightarrow> http_env \<Rightarrow> 'a tcp_sniff \<Rightarrow> 's \<Rightarrow>
     ('a tcp_sniff \<times> 's \<times> (io_error + sniff_result option) poll) option" where
  "tcp_inspect S A H st s =
     (if \<not> sn_reading st then
        (case tcp_outcome A H st of
           (st, Found r) \<Rightarrow> Some (st, s, Ready (Inr (Some r)))
         | (st, Unknown) \<Rightarrow> Some (st, s, Ready (Inr None))
         | (st, Need_More) \<Rightarrow>
             if length (sn_bytes st) = MAX_BYTES then Some (st, s, Ready (Inr None)) else tcp_inspect S A H st s)
      else if MAX_BYTES < length (sn_bytes st) then None
      else
        let remaining = min (MAX_BYTES - length (sn_bytes st)) 4096 in
        (case io_read S s remaining of
           None \<Rightarrow> None
         | Some (s, Pending) \<Rightarrow> Some (st, s, Pending)
         | Some (s, Ready (Inl e)) \<Rightarrow> Some (st, s, Ready (Inl e))
         | Some (s, Ready (Inr b)) \<Rightarrow>
             if remaining < length b then None
             else if b = [] then Some (st, s, Ready (Inr None))
             else tcp_inspect S A H (st\<lparr>sn_bytes := sn_bytes st @ b, sn_reading := False\<rparr>) s))"
  by pat_completeness auto

termination
  by (relation "measure (\<lambda>(S, A, H, st, s). 2 * (MAX_BYTES - length (sn_bytes st)) + (if sn_reading st then 0 else 1))")
    (auto simp: read_shrinks dest: tcp_outcome_fields [OF sym])

declare tcp_inspect.simps [simp del]

text \<open>The \<open>select!\<close> and the replay: the prefix in front of the stream.\<close>

definition sniff_tcp ::
  "('s, 'y) io_ops_scheme \<Rightarrow> ('a, 'x) acceptor_scheme \<Rightarrow> http_env \<Rightarrow> bool \<Rightarrow> bool \<Rightarrow> 'a tcp_sniff \<Rightarrow> 's \<Rightarrow>
     ('a tcp_sniff \<times> 's \<times> (io_error + 's prefixed \<times> sniff_result option) poll) option" where
  "sniff_tcp S A H cancelled elapsed st s =
     map_option (\<lambda>(st, s, r). (st, s,
         case r of
           Pending \<Rightarrow> Pending
         | Ready (Inl e) \<Rightarrow> Ready (Inl e)
         | Ready (Inr result) \<Rightarrow> Ready (Inr (\<lparr>px_bytes = sn_bytes st, px_inner = s, px_read = False\<rparr>, result))))
       (if cancelled \<or> elapsed then Some (st, s, Ready (Inr None)) else tcp_inspect S A H st s)"

section \<open>UDP\<close>

record datagram =
  pk_target :: target
  pk_payload :: bytes

record udp_sniff =
  su_packets :: "datagram list"
  su_bytes :: nat
  su_quic :: inspector

definition udp_sniff_new :: udp_sniff where
  "udp_sniff_new = \<lparr>su_packets = [], su_bytes = 0, su_quic = inspector_new\<rparr>"

definition udp_outcome ::
  "quic_keys \<Rightarrow> ('a, 'x) acceptor_scheme \<Rightarrow> udp_sniff \<Rightarrow> datagram \<Rightarrow> (udp_sniff \<times> outcome) option" where
  "udp_outcome K A st packet =
     (let total = su_bytes st + length (pk_payload packet) in
      map_option (\<lambda>(q, out). (st\<lparr>su_packets := su_packets st @ [packet], su_bytes := total, su_quic := q\<rparr>, out))
        (if total \<le> MAX_BYTES then inspect K A (su_quic st) (pk_payload packet) else Some (su_quic st, Unknown)))"

lemma udp_outcome_packets: "udp_outcome K A st p = Some (st', out) \<Longrightarrow> su_packets st' = su_packets st @ [p]"
  by (auto simp: udp_outcome_def Let_def split: if_splits)

text \<open>\<open>budget n\<close> is the runtime's cooperative budget at the \<open>n\<close>th packet.\<close>

function udp_inspect ::
  "quic_keys \<Rightarrow> ('a, 'x) acceptor_scheme \<Rightarrow> ('q, datagram) seg_ops \<Rightarrow> (nat \<Rightarrow> bool) \<Rightarrow> instant \<Rightarrow>
     udp_sniff \<Rightarrow> ('q, datagram) shared \<Rightarrow> datagram list option \<Rightarrow>
     (udp_sniff \<times> ('q, datagram) shared \<times> datagram list option \<times> sniff_result option poll) option" where
  "udp_inspect K A ops budget t st s prefix =
     (if MAX_PACKETS \<le> length (su_packets st) \<or> MAX_BYTES \<le> su_bytes st then Some (st, s, prefix, Ready None)
      else
        (case rcv_poll_recv ops s prefix (budget (length (su_packets st))) t of
           None \<Rightarrow> None
         | Some (s, prefix, Pending) \<Rightarrow> Some (st, s, prefix, Pending)
         | Some (s, prefix, Ready None) \<Rightarrow> Some (st, s, prefix, Ready None)
         | Some (s, prefix, Ready (Some packet)) \<Rightarrow>
             (case udp_outcome K A st packet of
                None \<Rightarrow> None
              | Some (st, Found r) \<Rightarrow> Some (st, s, prefix, Ready (Some r))
              | Some (st, Unknown) \<Rightarrow> Some (st, s, prefix, Ready None)
              | Some (st, Need_More) \<Rightarrow> udp_inspect K A ops budget t st s prefix)))"
  by pat_completeness auto
termination
  by (relation "measure (\<lambda>(K, A, ops, b, t, st, s, p). MAX_PACKETS - length (su_packets st))")
    (auto dest!: udp_outcome_packets)

declare udp_inspect.simps [simp del]

definition sniff_udp ::
  "quic_keys \<Rightarrow> ('a, 'x) acceptor_scheme \<Rightarrow> ('q, datagram) seg_ops \<Rightarrow> (nat \<Rightarrow> bool) \<Rightarrow> instant \<Rightarrow>
     bool \<Rightarrow> bool \<Rightarrow> udp_sniff \<Rightarrow> ('q, datagram) shared \<Rightarrow> datagram list option \<Rightarrow>
     (udp_sniff \<times> ('q, datagram) shared \<times> datagram list option \<times> sniff_result option poll) option" where
  "sniff_udp K A ops budget t cancelled elapsed st s prefix =
     map_option (\<lambda>(st, s, prefix, r).
         (st, s, if r = Pending then prefix else rcv_prepend prefix (su_packets st), r))
       (if cancelled \<or> elapsed then Some (st, s, prefix, Ready None)
        else udp_inspect K A ops budget t st s prefix)"

section \<open>The stream that is inspected\<close>

text \<open>Between two polls nothing more than the limit has been read, and a suspended read has room.\<close>

definition tcp_ok :: "'a tcp_sniff \<Rightarrow> bool" where
  "tcp_ok st \<longleftrightarrow> length (sn_bytes st) \<le> MAX_BYTES \<and> (sn_reading st \<longrightarrow> length (sn_bytes st) < MAX_BYTES)"

text \<open>
  What reading promises: a read hands out a prefix of what is available, at most as much as there is
  room for, and a pending or failing read changes nothing.
\<close>

locale byte_source =
  fixes S :: "('s, 'y) io_ops_scheme"
    and avail :: "'s \<Rightarrow> bytes"
    and ok :: "'s \<Rightarrow> bool"
  assumes read_law: "ok s \<Longrightarrow> 0 < room \<Longrightarrow> \<exists>s' r. io_read S s room = Some (s', r) \<and> ok s' \<and>
      (case r of Ready (Inr b) \<Rightarrow> avail s = b @ avail s' \<and> length b \<le> room | _ \<Rightarrow> avail s' = avail s)"
begin

definition kept :: "'a tcp_sniff \<Rightarrow> 's \<Rightarrow> ('a tcp_sniff \<times> 's \<times> (io_error + sniff_result option) poll) option \<Rightarrow> bool" where
  "kept st s res \<longleftrightarrow> (\<exists>st' s' r. res = Some (st', s', r) \<and> ok s' \<and> length (sn_bytes st') \<le> MAX_BYTES \<and>
      (r = Pending \<longrightarrow> tcp_ok st') \<and> sn_bytes st' @ avail s' = sn_bytes st @ avail s)"

lemma tcp_inspect_kept: "S' = S \<Longrightarrow> ok s \<Longrightarrow> tcp_ok st \<Longrightarrow> kept st s (tcp_inspect S' A H st s)"
proof (induction S' A H st s rule: tcp_inspect.induct)
  case (1 S' A H st s)
  note [simp] = "1.prems"(1)
  show ?case
  proof (cases "sn_reading st")
    case False
    obtain st1 out where o: "tcp_outcome A H st = (st1, out)" by (cases "tcp_outcome A H st")
    note f = tcp_outcome_fields [OF o]
    have "kept st1 s (tcp_inspect S' A H st1 s)" if "out = Need_More" "length (sn_bytes st1) \<noteq> MAX_BYTES"
      using "1.IH"(1) [OF False o [symmetric] that] "1.prems" f that(2) by (simp add: tcp_ok_def)
    then show ?thesis
      using "1.prems" False o f by (cases out) (auto simp: tcp_inspect.simps [of S A H st s] kept_def tcp_ok_def)
  next
    case True
    define room where "room = min (MAX_BYTES - length (sn_bytes st)) 4096"
    have room: "0 < room" "length (sn_bytes st) + room \<le> MAX_BYTES"
      using True "1.prems"(3) by (auto simp: room_def tcp_ok_def)
    obtain s1 r where r: "io_read S s room = Some (s1, r)" "ok s1"
      "case r of Ready (Inr b) \<Rightarrow> avail s = b @ avail s1 \<and> length b \<le> room | _ \<Rightarrow> avail s1 = avail s"
      using read_law [OF "1.prems"(2) room(1)] by blast
    have unfolded: "tcp_inspect S' A H st s =
        (case r of Pending \<Rightarrow> Some (st, s1, Pending) | Ready (Inl e) \<Rightarrow> Some (st, s1, Ready (Inl e))
         | Ready (Inr b) \<Rightarrow> if room < length b then None else if b = [] then Some (st, s1, Ready (Inr None))
             else tcp_inspect S' A H (st\<lparr>sn_bytes := sn_bytes st @ b, sn_reading := False\<rparr>) s1)"
      using True r(1) "1.prems"(3) by (simp add: tcp_inspect.simps [of S A H st s] room_def tcp_ok_def Let_def split: poll.split sum.split)
    have "kept (st\<lparr>sn_bytes := sn_bytes st @ b, sn_reading := False\<rparr>) s1
        (tcp_inspect S' A H (st\<lparr>sn_bytes := sn_bytes st @ b, sn_reading := False\<rparr>) s1)"
      if "r = Ready (Inr b)" "b \<noteq> []" for b
      using that r room True "1.prems"(3)
      by (intro "1.IH"(2) [of room]) (auto simp: room_def [symmetric] tcp_ok_def)
    then show ?thesis unfolding unfolded using r(2,3) "1.prems"(3)
      by (cases r) (auto simp: kept_def tcp_ok_def split: sum.splits)
  qed
qed

end

interpretation bsrc: byte_source "buffered_stream t alloc" "\<lambda>s. buffered (fst s)" endpoint_ok for t alloc
proof unfold_locales
  fix s :: "pipe \<times> pipe" and room :: nat
  assume ok: "endpoint_ok s" and room: "0 < room"
  obtain rd wr where s: "s = (rd, wr)" by (cases s)
  have pipes: "pipe_ok rd" "pipe_ok wr" "room \<noteq> 0" using ok s room by (auto simp: endpoint_ok_def)
  show "\<exists>s' r. io_read (buffered_stream t alloc) s room = Some (s', r) \<and> endpoint_ok s' \<and>
      (case r of Ready (Inr b) \<Rightarrow> buffered (fst s) = b @ buffered (fst s') \<and> length b \<le> room
       | _ \<Rightarrow> buffered (fst s') = buffered (fst s))"
    using pipe_read_takes [OF pipes(1,3), of t] pipes(2) s
    by (auto simp: endpoint_ok_def buffered_stream_def)
qed

section \<open>Replay of datagrams\<close>

lemma poll_recv_conserves:
  assumes "seg_fifo ops items" "queue_ok items held s"
  shows "\<exists>s' p' r. rcv_poll_recv ops s p budget t = Some (s', p', r) \<and> queue_ok items held s' \<and>
    receivable items s p = (case r of Ready (Some x) \<Rightarrow> [x] | _ \<Rightarrow> []) @ receivable items s' p'"
proof (cases "budget \<and> receivable items s p \<noteq> []")
  case True
  then obtain x xs where "receivable items s p = x # xs" by (cases "receivable items s p") auto
  then show ?thesis using poll_recv_takes [OF assms] True by fastforce
next
  case False
  have "sq_pop ops (q_items s) = None" if "items (q_items s) = []" using seg_fifo_Nil [OF assms(1) that] .
  with False assms(2) show ?thesis
    by (cases rule: pop_prefix_cases [of p]) (auto simp: rcv_poll_recv_def receivable_def)
qed

lemma udp_outcome_ok:
  assumes "insp_ok (su_quic st)"
  shows "\<exists>st' out. udp_outcome K A st x = Some (st', out) \<and> insp_ok (su_quic st')"
  using inspect_ok [OF assms, of K A "pk_payload x"] assms
  by (cases "su_bytes st + length (pk_payload x) \<le> MAX_BYTES") (auto simp: udp_outcome_def Let_def)

lemma udp_inspect_conserves:
  assumes "seg_fifo ops items"
  shows "queue_ok items held s \<Longrightarrow> insp_ok (su_quic st) \<Longrightarrow> length (su_packets st) \<le> MAX_PACKETS \<Longrightarrow>
    \<exists>st' s' p' r. udp_inspect K A ops budget t st s p = Some (st', s', p', r) \<and>
      queue_ok items held s' \<and> insp_ok (su_quic st') \<and> length (su_packets st') \<le> MAX_PACKETS \<and>
      su_packets st' @ receivable items s' p' = su_packets st @ receivable items s p"
  using assms
proof (induction K A ops budget t st s p rule: udp_inspect.induct)
  case (1 K A ops budget t st s p)
  show ?case
  proof (cases "MAX_PACKETS \<le> length (su_packets st) \<or> MAX_BYTES \<le> su_bytes st")
    case True
    then show ?thesis using "1.prems" by (simp add: udp_inspect.simps [of K A ops budget t st s p])
  next
    case False
    obtain s1 p1 r where r: "rcv_poll_recv ops s p (budget (length (su_packets st))) t = Some (s1, p1, r)"
      "queue_ok items held s1" "receivable items s p = (case r of Ready (Some x) \<Rightarrow> [x] | _ \<Rightarrow> []) @ receivable items s1 p1"
      using poll_recv_conserves [OF "1.prems"(4,1)] by blast
    show ?thesis
    proof (cases "\<exists>x. r = Ready (Some x)")
      case no: False
      then show ?thesis using "1.prems" False r
        by (cases r) (auto simp: udp_inspect.simps [of K A ops budget t st s p] split: option.splits)
    next
      case True
      then obtain x where x: "r = Ready (Some x)" by blast
      obtain st1 out where o: "udp_outcome K A st x = Some (st1, out)" "insp_ok (su_quic st1)"
        using udp_outcome_ok [OF "1.prems"(2)] by blast
      note packets = udp_outcome_packets [OF o(1)]
      show ?thesis
      proof (cases "out = Need_More")
        case True
        have "\<exists>st' s' p' r. udp_inspect K A ops budget t st1 s1 p1 = Some (st', s', p', r) \<and>
            queue_ok items held s' \<and> insp_ok (su_quic st') \<and> length (su_packets st') \<le> MAX_PACKETS \<and>
            su_packets st' @ receivable items s' p' = su_packets st1 @ receivable items s1 p1"
          using False r x o True packets "1.prems" by (intro "1.IH") auto
        then show ?thesis using False r x o True packets by (simp add: udp_inspect.simps [of K A ops budget t st s p])
      next
        case decided: False
        then show ?thesis using False r x o packets
          by (cases out) (simp_all add: udp_inspect.simps [of K A ops budget t st s p])
      qed
    qed
  qed
qed

section \<open>Properties\<close>

text \<open>
  C28. Sniffing a TCP stream never loses, alters or reorders a byte and never panics. In every poll,
  whether it goes on, is cancelled or times out, the bytes held followed by the bytes still to be read
  stay the same sequence, and at most 64 KiB are held; when it returns, reading the returned stream
  yields exactly that sequence.
\<close>

theorem sniff_replays_stream:
  assumes "endpoint_ok s" "tcp_ok st"
  shows "\<exists>st' s' r. sniff_tcp (buffered_stream t alloc) A H cancelled elapsed st s = Some (st', s', r) \<and>
    endpoint_ok s' \<and> length (sn_bytes st') \<le> MAX_BYTES \<and>
    sn_bytes st' @ buffered (fst s') = sn_bytes st @ buffered (fst s) \<and>
    (case r of
       Pending \<Rightarrow> \<not> cancelled \<and> \<not> elapsed \<and> tcp_ok st'
     | Ready (Inl e) \<Rightarrow> \<not> cancelled \<and> \<not> elapsed
     | Ready (Inr (stream, result)) \<Rightarrow> endpoint_ok (px_inner stream) \<and>
         px_bytes stream @ buffered (fst (px_inner stream)) = sn_bytes st @ buffered (fst s) \<and>
         (cancelled \<or> elapsed \<longrightarrow> result = None))"
proof (cases "cancelled \<or> elapsed")
  case True
  then show ?thesis using assms by (auto simp: sniff_tcp_def tcp_ok_def)
next
  case False
  obtain st' s' r where "tcp_inspect (buffered_stream t alloc) A H st s = Some (st', s', r)" "endpoint_ok s'"
    "length (sn_bytes st') \<le> MAX_BYTES" "r = Pending \<longrightarrow> tcp_ok st'"
    "sn_bytes st' @ buffered (fst s') = sn_bytes st @ buffered (fst s)"
    using bsrc.tcp_inspect_kept [OF refl assms, of t alloc A H] unfolding bsrc.kept_def by blast
  with False show ?thesis
    by (intro exI [of _ st'] exI [of _ s']) (auto simp: sniff_tcp_def split: poll.splits sum.splits)
qed

definition sample_http :: http_env where
  "sample_http = \<lparr>he_parse = (\<lambda>b. if length b < 3 then Http_Partial else Http_Complete []), he_host = Some\<rparr>"

theorem sniff_replays_stream_witness:
  "\<exists>st' s' r. sniff_tcp (buffered_stream 0 8) sample_acceptor sample_http False False
      (tcp_sniff_new sample_acceptor) (pipe_new 4 0, pipe_new 4 0) = Some (st', s', r) \<and>
    sn_bytes st' @ buffered (fst s') = buffered (pipe_new 4 0)"
proof -
  have "endpoint_ok (pipe_new 4 0, pipe_new 4 0)" by (simp add: endpoint_ok_def pipe_new_ok usize_max_def)
  moreover have "tcp_ok (tcp_sniff_new sample_acceptor)" by (simp add: tcp_ok_def tcp_sniff_new_def MAX_BYTES_def)
  ultimately show ?thesis
    using sniff_replays_stream [of "(pipe_new 4 0, pipe_new 4 0)" "tcp_sniff_new sample_acceptor" 0 8 sample_acceptor sample_http False False]
    by (auto simp: tcp_sniff_new_def)
qed

text \<open>
  C29. Sniffing a UDP session puts every datagram it took back in front of the queue, in arrival order:
  when it returns, whatever the outcome, cancelled or timed out, the receiver has before it exactly
  the datagrams taken earlier followed by those that were receivable, and while it is pending it holds
  at most 32 of them. It never panics, whatever the datagrams contain.
\<close>

theorem sniff_replays_datagrams:
  assumes "seg_fifo ops items" "queue_ok items held s" "insp_ok (su_quic st)" "length (su_packets st) \<le> MAX_PACKETS"
  shows "\<exists>st' s' p' r. sniff_udp K A ops budget t cancelled elapsed st s p = Some (st', s', p', r) \<and>
    queue_ok items held s' \<and> insp_ok (su_quic st') \<and> length (su_packets st') \<le> MAX_PACKETS \<and>
    (case r of
       Pending \<Rightarrow> su_packets st' @ receivable items s' p' = su_packets st @ receivable items s p
     | Ready _ \<Rightarrow> receivable items s' p' = su_packets st @ receivable items s p)"
proof (cases "cancelled \<or> elapsed")
  case True
  then show ?thesis using assms by (auto simp: sniff_udp_def receivable_def prefix_items_prepend)
next
  case False
  obtain st' s' p' r where u: "udp_inspect K A ops budget t st s p = Some (st', s', p', r)" "queue_ok items held s'"
    "insp_ok (su_quic st')" "length (su_packets st') \<le> MAX_PACKETS"
    "su_packets st' @ receivable items s' p' = su_packets st @ receivable items s p"
    using udp_inspect_conserves [OF assms(1-4)] by blast
  have "receivable items s' (rcv_prepend p' (su_packets st')) = su_packets st @ receivable items s p"
    using u(5) by (simp add: receivable_def prefix_items_prepend)
  with False u show ?thesis
    by (cases r) (auto simp: sniff_udp_def)
qed

definition sample_keys :: quic_keys where
  "sample_keys = \<lparr>qk_suite = True, qk_sample = 16, qk_unmask = (\<lambda>_ _ _ f pn. Some (f, pn)), qk_open = (\<lambda>_ _ _ _ p. Some p)\<rparr>"

definition sample_datagram :: datagram where
  "sample_datagram = \<lparr>pk_target = Domain [97] 53, pk_payload = [1, 2]\<rparr>"

definition datagram_channel :: "((datagram \<times> nat) list, datagram) shared" where
  "datagram_channel = fst (channel seg_list 64 (\<lambda>_. 8) 0)"

theorem sniff_replays_datagrams_witness:
  "\<exists>st' s' p' r. sniff_udp sample_keys sample_acceptor seg_list (\<lambda>_. True) 0 False False udp_sniff_new datagram_channel
      (Some [sample_datagram]) = Some (st', s', p', r) \<and> length (su_packets st') \<le> MAX_PACKETS"
proof -
  have "queue_ok (\<lambda>q. q) 0 datagram_channel" by (simp add: datagram_channel_def queue_ok_def channel_def seg_list_def usize_max_def)
  moreover have "insp_ok (su_quic udp_sniff_new)" "length (su_packets udp_sniff_new) \<le> MAX_PACKETS"
    by (simp_all add: udp_sniff_new_def insp_ok_def inspector_new_def)
  ultimately show ?thesis
    using sniff_replays_datagrams [OF seg_list_fifo] by blast
qed

end
