(* ===== verification/Pool.thy ===== *)
theory Pool
  imports Prelude
begin

text \<open>
  The pool of reusable blocks (\<open>crates/protocol/src/pool.rs\<close>) and the packet arena on top of it
  (\<open>crates/tun/src/storage.rs\<close>). A block is its initialised bytes; the classes are bounded queues
  (\<open>ArrayQueue\<close>) of free blocks. A \<open>fill\<close> argument maps the block's old contents to its new contents. A
  lease returns to the pool when the last view of it is dropped, an operation of its own here.
\<close>

section \<open>Size classes\<close>

definition MIN_CLASS :: nat where "MIN_CLASS = 8"
definition CLASSES :: nat where "CLASSES = 10"
definition CACHED_PER_CLASS :: nat where "CACHED_PER_CLASS = 32"

text \<open>\<open>next_power_of_two\<close> searches upward from a power of two; \<open>trailing_zeros\<close> is that of the library.\<close>

function pow2_from :: "nat \<Rightarrow> nat \<Rightarrow> nat" where
  "pow2_from p n = (if n \<le> p \<or> p = 0 then p else pow2_from (2 * p) n)"
  by pat_completeness auto
termination by (relation "measure (\<lambda>(p, n). n - p)") auto

declare pow2_from.simps [simp del]

definition next_power_of_two :: "nat \<Rightarrow> nat" where
  "next_power_of_two n = pow2_from 1 n"

fun trailing_zeros :: "nat \<Rightarrow> nat" where
  "trailing_zeros n = (if n = 0 \<or> odd n then 0 else Suc (trailing_zeros (n div 2)))"

declare trailing_zeros.simps [simp del]

section \<open>Blocks and leases\<close>

type_synonym block_pool = "bytes list list"

record block_lease =
  le_bytes :: bytes
  le_class :: nat

definition pool_new :: block_pool where
  "pool_new = replicate CLASSES []"

definition class_bits :: "nat \<Rightarrow> nat" where
  "class_bits len = trailing_zeros (next_power_of_two (max len 256))"

text \<open>The subtraction panics below \<open>MIN_CLASS\<close>, which is the second branch of \<open>pool_acquire\<close>.\<close>

definition class_index :: "nat \<Rightarrow> nat" where
  "class_index len = class_bits len - MIN_CLASS"

definition vec_resize :: "nat \<Rightarrow> bytes \<Rightarrow> bytes" where
  "vec_resize n b = take n b @ replicate (n - length b) 0"

definition pool_acquire :: "block_pool \<Rightarrow> nat \<Rightarrow> (block_pool \<times> block_lease) option" where
  "pool_acquire p len =
     (if 131072 < len then None
      else if class_bits len < MIN_CLASS then None
      else
        let i = class_index len in
        if length p \<le> i then None
        else
          let (b, rest) = (case p ! i of [] \<Rightarrow> ([], []) | b # rest \<Rightarrow> (b, rest)) in
          Some (p[i := rest], \<lparr>le_bytes = vec_resize len b, le_class = i\<rparr>))"

definition lease_return :: "block_pool \<Rightarrow> block_lease \<Rightarrow> block_pool" where
  "lease_return p l =
     (if length (p ! le_class l) < CACHED_PER_CLASS
      then p[le_class l := p ! le_class l @ [le_bytes l]] else p)"

definition lease_freeze :: "block_lease \<Rightarrow> nat \<Rightarrow> bytes option" where
  "lease_freeze l len = (if len \<le> length (le_bytes l) then Some (take len (le_bytes l)) else None)"

definition pool_encode :: "block_pool \<Rightarrow> nat \<Rightarrow> (bytes \<Rightarrow> bytes) \<Rightarrow> (block_pool \<times> block_lease \<times> bytes) option" where
  "pool_encode p len fill =
     Option.bind (pool_acquire p len) (\<lambda>(p, l).
       let l = l\<lparr>le_bytes := fill (le_bytes l)\<rparr> in
       map_option (\<lambda>b. (p, l, b)) (lease_freeze l len))"

definition pool_copy :: "block_pool \<Rightarrow> bytes \<Rightarrow> (block_pool \<times> block_lease \<times> bytes) option" where
  "pool_copy p b = pool_encode p (length b) (\<lambda>_. b)"

text \<open>\<open>publish\<close> copies a short message into a smaller block and gives its own block back.\<close>

definition lease_publish :: "block_pool \<Rightarrow> block_lease \<Rightarrow> nat \<Rightarrow> (block_pool \<times> block_lease \<times> bytes) option" where
  "lease_publish p l len =
     (if len < length (le_bytes l) div 4
      then map_option (\<lambda>(p, l', b). (lease_return p l, l', b)) (pool_copy p (take len (le_bytes l)))
      else map_option (\<lambda>b. (p, l, b)) (lease_freeze l len))"

definition pool_trim :: "block_pool \<Rightarrow> block_pool" where
  "pool_trim p = map (\<lambda>_. []) p"

section \<open>The packet arena\<close>

definition BLOCK :: nat where "BLOCK = 16 * 1024"

text \<open>
  \<open>PacketArena::encode\<close>. A small packet is carved out of the tail block, zero-filled; a large one is a
  lease of the pool. The result has the lease when there is one.
\<close>

definition arena_encode :: "block_pool \<Rightarrow> nat \<Rightarrow> (bytes \<Rightarrow> bytes) \<Rightarrow> (block_pool \<times> block_lease option \<times> bytes) option" where
  "arena_encode p len emit =
     (if BLOCK div 2 < len then map_option (\<lambda>(p, l, b). (p, Some l, b)) (pool_encode p len emit)
      else Some (p, None, emit (replicate len 0)))"

definition charge :: "nat \<Rightarrow> nat" where
  "charge len = 2 * len"

section \<open>Lemmas\<close>

lemma trailing_zeros_pow2: "trailing_zeros (2 ^ k) = k"
proof (induction k)
  case (Suc k)
  then show ?case by (simp add: trailing_zeros.simps [of "2 * 2 ^ k"])
qed (simp add: trailing_zeros.simps)

lemma pow2_from_spec:
  assumes "2 ^ j < 2 * n \<or> j = 0" "0 < n"
  shows "\<exists>k. pow2_from (2 ^ j) n = 2 ^ k \<and> n \<le> 2 ^ k \<and> (2 ^ k < 2 * n)"
  using assms
proof (induction "n - 2 ^ j" arbitrary: j rule: less_induct)
  case less
  show ?case
  proof (cases "n \<le> 2 ^ j")
    case True
    with less.prems show ?thesis by (auto simp: pow2_from.simps [of "2 ^ j"] intro!: exI [of _ j])
  next
    case False
    have "pow2_from (2 ^ j) n = pow2_from (2 ^ Suc j) n" using False by (simp add: pow2_from.simps [of "2 ^ j"])
    moreover have "n - 2 ^ Suc j < n - 2 ^ j" using False by (intro diff_less_mono2) auto
    ultimately show ?thesis using less.hyps [of "Suc j"] False less.prems(2) by simp
  qed
qed

lemma next_power_of_two_spec:
  assumes "0 < n"
  obtains k where "next_power_of_two n = 2 ^ k" "n \<le> 2 ^ k" "2 ^ k < 2 * n"
  using pow2_from_spec [of 0 n] assms by (auto simp: next_power_of_two_def)

lemma class_bits_min [simp]: "\<not> class_bits len < MIN_CLASS"
proof -
  obtain k where k: "next_power_of_two (max len 256) = 2 ^ k" "max len 256 \<le> 2 ^ k"
    by (rule next_power_of_two_spec [of "max len 256"]) (simp, rule that)
  have "(2::nat) ^ 8 \<le> 2 ^ k" using k(2) by simp
  then have "8 \<le> k" by (simp only: power_increasing_iff)
  then show ?thesis by (simp add: class_bits_def k(1) trailing_zeros_pow2 MIN_CLASS_def)
qed

text \<open>The class of a length: its block size is the least power of two that holds it, from 256 on.\<close>

lemma class_index_spec:
  assumes "len \<le> 131072"
  shows "class_index len < CLASSES" "len \<le> 2 ^ (class_index len + MIN_CLASS)"
    "2 ^ (class_index len + MIN_CLASS) < 2 * max len 256"
proof -
  obtain k where k: "next_power_of_two (max len 256) = 2 ^ k" "max len 256 \<le> 2 ^ k" "2 ^ k < 2 * max len 256"
    by (rule next_power_of_two_spec [of "max len 256"]) (simp, rule that)
  have "(2::nat) ^ 8 \<le> 2 ^ k" using k(2) by simp
  then have low: "8 \<le> k" by (simp only: power_increasing_iff)
  have "(2::nat) ^ k < 2 ^ 18" using k(3) assms by simp
  then have high: "k < 18" by (simp only: power_strict_increasing_iff)
  have i: "class_index len + MIN_CLASS = k"
    using low by (simp add: class_index_def class_bits_def k(1) trailing_zeros_pow2 MIN_CLASS_def)
  show "class_index len < CLASSES" using i high by (simp add: MIN_CLASS_def CLASSES_def)
  show "len \<le> 2 ^ (class_index len + MIN_CLASS)" "2 ^ (class_index len + MIN_CLASS) < 2 * max len 256"
    unfolding i using k by auto
qed

definition class_ok :: "nat \<Rightarrow> bytes list \<Rightarrow> bool" where
  "class_ok i free \<longleftrightarrow> length free \<le> CACHED_PER_CLASS \<and> list_all (\<lambda>b. length b \<le> 2 ^ (i + MIN_CLASS)) free"

definition pool_ok :: "block_pool \<Rightarrow> bool" where
  "pool_ok p \<longleftrightarrow> length p = CLASSES \<and> (\<forall>i < CLASSES. class_ok i (p ! i))"

definition lease_ok :: "block_lease \<Rightarrow> bool" where
  "lease_ok l \<longleftrightarrow> le_class l < CLASSES \<and> length (le_bytes l) \<le> 2 ^ (le_class l + MIN_CLASS)"

lemma length_vec_resize [simp]: "length (vec_resize n b) = n"
  by (simp add: vec_resize_def)

lemma pool_new_ok [koto_inv]: "pool_ok pool_new"
  by (simp add: pool_ok_def pool_new_def class_ok_def)

lemma pool_update_ok:
  assumes "pool_ok p" "class_ok i free"
  shows "pool_ok (p[i := free])"
  using assms by (cases "i < length p") (auto simp: pool_ok_def nth_list_update)

lemma pool_acquire_ok:
  assumes "pool_ok p" "len \<le> 131072"
  shows "\<exists>p' l. pool_acquire p len = Some (p', l) \<and> pool_ok p' \<and> lease_ok l \<and> length (le_bytes l) = len \<and>
    le_class l = class_index len \<and>
    (case p ! class_index len of [] \<Rightarrow> le_bytes l = replicate len 0
     | b # rest \<Rightarrow> le_bytes l = vec_resize len b \<and> p' = p[class_index len := rest])"
proof -
  let ?i = "class_index len"
  have i: "?i < CLASSES" "?i < length p" using class_index_spec(1) [OF assms(2)] assms(1) by (auto simp: pool_ok_def)
  have free: "class_ok ?i (p ! ?i)" using assms(1) i(1) by (simp add: pool_ok_def)
  have rest: "class_ok ?i (case p ! ?i of [] \<Rightarrow> [] | b # rest \<Rightarrow> rest)"
    using free by (auto simp: class_ok_def split: list.splits)
  show ?thesis
    using pool_update_ok [OF assms(1) rest] i assms(2) class_index_spec(2) [OF assms(2)]
    by (auto simp: pool_acquire_def lease_ok_def vec_resize_def not_le Let_def split: list.splits)
qed

lemma lease_return_ok [koto_inv]:
  assumes "pool_ok p" "lease_ok l"
  shows "pool_ok (lease_return p l)"
proof -
  have "class_ok (le_class l) (p ! le_class l)" using assms by (simp add: pool_ok_def lease_ok_def)
  then have "length (p ! le_class l) < CACHED_PER_CLASS \<longrightarrow> class_ok (le_class l) (p ! le_class l @ [le_bytes l])"
    using assms(2) by (auto simp: class_ok_def lease_ok_def)
  then show ?thesis using pool_update_ok [OF assms(1)] assms(1) by (auto simp: lease_return_def)
qed

lemma pool_encode_ok:
  assumes "pool_ok p" "len \<le> 131072" "\<And>b. length b = len \<Longrightarrow> length (fill b) = len"
  shows "\<exists>p' l old. pool_encode p len fill = Some (p', l, fill old) \<and> pool_ok p' \<and> lease_ok l \<and>
    length old = len \<and> le_bytes l = fill old \<and>
    (case p ! class_index len of [] \<Rightarrow> old = replicate len 0 | b # rest \<Rightarrow> old = vec_resize len b)"
proof -
  obtain p' l where l: "pool_acquire p len = Some (p', l)" "pool_ok p'" "lease_ok l" "length (le_bytes l) = len"
    "case p ! class_index len of [] \<Rightarrow> le_bytes l = replicate len 0
     | b # rest \<Rightarrow> le_bytes l = vec_resize len b \<and> p' = p[class_index len := rest]"
    using pool_acquire_ok [OF assms(1,2)] by blast
  have "length (fill (le_bytes l)) = len" using assms(3) l(4) by blast
  with l show ?thesis
    by (intro exI [of _ p'] exI [of _ "l\<lparr>le_bytes := fill (le_bytes l)\<rparr>"] exI [of _ "le_bytes l"])
      (auto simp: pool_encode_def lease_freeze_def lease_ok_def Let_def split: list.splits)
qed

lemma lease_publish_ok:
  assumes "pool_ok p" "lease_ok l" "len \<le> length (le_bytes l)"
  shows "\<exists>p' l'. lease_publish p l len = Some (p', l', take len (le_bytes l)) \<and> pool_ok p' \<and> lease_ok l'"
proof (cases "len < length (le_bytes l) div 4")
  case False
  then show ?thesis using assms by (simp add: lease_publish_def lease_freeze_def)
next
  case True
  have "(2::nat) ^ (le_class l + MIN_CLASS) \<le> 2 ^ 17"
    using assms(2) by (intro power_increasing) (simp_all add: lease_ok_def CLASSES_def MIN_CLASS_def)
  then have le: "len \<le> 131072" using assms(2,3) by (simp add: lease_ok_def)
  have n: "length (take len (le_bytes l)) = len" using assms(3) by simp
  obtain p' l' where "pool_copy p (take len (le_bytes l)) = Some (p', l', take len (le_bytes l))" "pool_ok p'" "lease_ok l'"
    using pool_encode_ok [OF assms(1) le, of "\<lambda>_. take len (le_bytes l)"] n unfolding pool_copy_def n by blast
  with True show ?thesis using lease_return_ok [OF _ assms(2)] by (simp add: lease_publish_def)
qed

section \<open>Properties\<close>

text \<open>
  C30. The pool is well typed: from a well-formed pool every request up to 128 KiB is served without a
  panic by a block of exactly the requested length whose class holds it with less than a factor of two
  to spare (from 256 bytes on), and publishing, dropping and trimming keep the pool well formed, with
  at most 32 free blocks of each class, none larger than the class. Publishing yields exactly the
  first bytes of the lease.
\<close>

theorem pool_serves_exact_blocks:
  assumes "pool_ok p" "len \<le> 131072"
  shows "\<exists>p' l. pool_acquire p len = Some (p', l) \<and> pool_ok p' \<and> lease_ok l \<and> length (le_bytes l) = len \<and>
    len \<le> 2 ^ (le_class l + MIN_CLASS) \<and> 2 ^ (le_class l + MIN_CLASS) < 2 * max len 256 \<and>
    pool_ok (lease_return p' l) \<and> pool_ok (pool_trim p') \<and>
    (n \<le> len \<longrightarrow> (\<exists>p'' l'. lease_publish p' l n = Some (p'', l', take n (le_bytes l)) \<and> pool_ok p'' \<and> lease_ok l'))"
proof -
  obtain p' l where l: "pool_acquire p len = Some (p', l)" "pool_ok p'" "lease_ok l" "length (le_bytes l) = len"
    "le_class l = class_index len"
    using pool_acquire_ok [OF assms] by blast
  have "pool_ok (pool_trim p')" using l(2) by (simp add: pool_ok_def pool_trim_def class_ok_def)
  moreover have "n \<le> len \<longrightarrow> (\<exists>p'' l'. lease_publish p' l n = Some (p'', l', take n (le_bytes l)) \<and> pool_ok p'' \<and> lease_ok l')"
    using lease_publish_ok [OF l(2,3)] l(4) by blast
  ultimately show ?thesis
    using l class_index_spec(2,3) [OF assms(2)] lease_return_ok [OF l(2,3)] by (intro exI [of _ p'] exI [of _ l]) simp
qed

theorem pool_serves_exact_blocks_witness:
  "\<exists>p' l. pool_acquire pool_new 1000 = Some (p', l) \<and> length (le_bytes l) = 1000 \<and>
    (\<exists>p'' l'. lease_publish p' l 10 = Some (p'', l', take 10 (le_bytes l)) \<and> pool_ok p'')"
  using pool_serves_exact_blocks [OF pool_new_ok, of 1000 10] by auto

end
