(* ===== verification/Udp_Encoder.thy ===== *)
theory Udp_Encoder
  imports Ip_Packet Pool
begin

text \<open>
  Encoding of UDP datagrams into IP frames (\<open>crates/tun/src/udp.rs\<close>) and the queue charge of a
  transmission (\<open>crates/tun/src/transmit.rs\<close>). What smoltcp writes into a buffer (the IP and UDP
  headers and the checksums) is the parameter \<open>udp_wire\<close>; where the code writes, in which buffer, and
  what it leaves alone is modelled. A frame is the contents of its buffer after the emit closure.
\<close>

section \<open>Parameters\<close>

text \<open>
  \<open>uw_ip\<close> is the header of \<open>IpRepr::emit\<close>, with the protocol and the payload length; \<open>uw_v4_fragment\<close> the
  IPv4 header after the identification, flags, offset and checksum are set; \<open>uw_fragment\<close> the six bytes
  of \<open>Ipv6FragmentRepr::emit\<close> (offset, more, identification); \<open>uw_udp\<close> the header of \<open>UdpRepr::emit\<close> with
  its checksum over the payload; \<open>uw_pseudo\<close> the pseudo-header sum for a length; \<open>uw_checksum\<close> the
  complement of the combined sums of the pseudo-header, a UDP header and its payload.
\<close>

record udp_wire =
  uw_ip :: "ip_addr \<Rightarrow> ip_addr \<Rightarrow> protocol \<Rightarrow> nat \<Rightarrow> bytes"
  uw_v4_fragment :: "ip_addr \<Rightarrow> ip_addr \<Rightarrow> nat \<Rightarrow> nat \<Rightarrow> bool \<Rightarrow> nat \<Rightarrow> bytes"
  uw_fragment :: "nat \<Rightarrow> bool \<Rightarrow> nat \<Rightarrow> bytes"
  uw_udp :: "sock_addr \<Rightarrow> sock_addr \<Rightarrow> bytes \<Rightarrow> bytes"
  uw_pseudo :: "ip_addr \<Rightarrow> ip_addr \<Rightarrow> nat \<Rightarrow> nat"
  uw_checksum :: "ip_addr \<Rightarrow> ip_addr \<Rightarrow> nat \<Rightarrow> bytes \<Rightarrow> bytes \<Rightarrow> nat"

fun is_v4 :: "ip_addr \<Rightarrow> bool" where
  "is_v4 (V4 _) = True"
| "is_v4 (V6 _) = False"

abbreviation ipv4 :: "sock_addr \<Rightarrow> bool" where
  "ipv4 a \<equiv> is_v4 (fst a)"

text \<open>What smoltcp documents of its header sizes.\<close>

definition wire_sizes :: "udp_wire \<Rightarrow> bool" where
  "wire_sizes W \<longleftrightarrow>
     (\<forall>s d pr n. length (uw_ip W s d pr n) = (if is_v4 s then 20 else 40)) \<and>
     (\<forall>s d n i m off. length (uw_v4_fragment W s d n i m off) = 20) \<and>
     (\<forall>off m i. length (uw_fragment W off m i) = 6) \<and>
     (\<forall>s d p. length (uw_udp W s d p) = 8)"

section \<open>The encoder\<close>

record encoder =
  en_mtu :: nat
  en_v4 :: nat
  en_v6 :: nat
  en_pool :: block_pool

definition encoder_new :: "nat \<Rightarrow> nat \<Rightarrow> nat \<Rightarrow> encoder option" where
  "encoder_new mtu r4 r6 =
     (if 1280 \<le> mtu \<and> mtu \<le> 65535
      then Some \<lparr>en_mtu = mtu, en_v4 = r4 mod 65536, en_v6 = r6 mod 4294967296, en_pool = pool_new\<rparr> else None)"

definition max_payload :: "sock_addr \<Rightarrow> nat" where
  "max_payload source = (if ipv4 source then 65507 else 65527)"

definition can_offload :: "encoder \<Rightarrow> sock_addr \<Rightarrow> sock_addr \<Rightarrow> nat \<Rightarrow> bool" where
  "can_offload e source destination sz \<longleftrightarrow>
     ipv4 source = ipv4 destination \<and> snd source \<noteq> 0 \<and> sz + (if ipv4 source then 28 else 48) \<le> en_mtu e"

text \<open>The UDP header that the code writes field by field.\<close>

definition udp_header :: "sock_addr \<Rightarrow> sock_addr \<Rightarrow> nat \<Rightarrow> nat \<Rightarrow> bytes" where
  "udp_header source destination len ck = be16 (snd source) @ be16 (snd destination) @ be16 len @ be16 ck"

definition fragment_header :: "udp_wire \<Rightarrow> sock_addr \<Rightarrow> sock_addr \<Rightarrow> bytes \<Rightarrow> bytes" where
  "fragment_header W source destination payload =
     (let len = 8 + length payload;
          ck = uw_checksum W (fst source) (fst destination) len (udp_header source destination len 0) payload
      in udp_header source destination len (if ck = 0 then 65535 else ck))"

text \<open>The header of an aggregate; it always fits the zero-filled part of the arena.\<close>

definition aggregate_header ::
  "udp_wire \<Rightarrow> encoder \<Rightarrow> sock_addr \<Rightarrow> sock_addr \<Rightarrow> nat \<Rightarrow> nat \<Rightarrow> (encoder \<times> bytes option) option" where
  "aggregate_header W e source destination sz tot =
     (if \<not> can_offload e source destination sz \<or> max_payload source < tot then Some (e, None)
      else
        let ip_len = (if ipv4 source then 20 else 40) in
        map_option (\<lambda>(p, _, b). (e\<lparr>en_pool := p\<rparr>, Some b))
          (arena_encode (en_pool e) (ip_len + 8)
             (\<lambda>_. uw_ip W (fst source) (fst destination) UdpProto (8 + tot) @
                  udp_header source destination (8 + tot) (uw_pseudo W (fst source) (fst destination) (8 + tot)))))"

text \<open>
  \<open>copy_fragment\<close>: what it writes to an output of \<open>n\<close> bytes. \<open>None\<close> is a failing assertion or an index
  out of range.
\<close>

definition copy_fragment :: "bytes \<Rightarrow> bytes \<Rightarrow> nat \<Rightarrow> nat \<Rightarrow> bytes option" where
  "copy_fragment header payload offset n =
     (if offset mod 8 \<noteq> 0 \<or> length header + length payload < offset + n then None
      else if offset = 0 then
        (if n < length header \<or> length payload < n - length header then None
         else Some (header @ take (n - length header) payload))
      else if offset < length header \<or> length payload < offset - length header + n then None
      else Some (take n (drop (offset - length header) payload)))"

section \<open>Fragmentation\<close>

text \<open>
  One fragment, over the old contents of its buffer. The IPv6 closure writes the fixed header, the
  next header at 40 and the fragment header from 42; it does not write the reserved byte at 41.
\<close>

definition v4_frame :: "udp_wire \<Rightarrow> ip_addr \<Rightarrow> ip_addr \<Rightarrow> nat \<Rightarrow> bool \<Rightarrow> nat \<Rightarrow> bytes \<Rightarrow> bytes \<Rightarrow> bytes" where
  "v4_frame W s d i m off chunk old = uw_v4_fragment W s d (length chunk) i m off @ chunk"

definition v6_frame :: "udp_wire \<Rightarrow> ip_addr \<Rightarrow> ip_addr \<Rightarrow> nat \<Rightarrow> bool \<Rightarrow> nat \<Rightarrow> bytes \<Rightarrow> bytes \<Rightarrow> bytes" where
  "v6_frame W s d i m off chunk old =
     uw_ip W s d Ipv6Frag (length chunk + 8) @ [UdpProto, old ! 41] @ uw_fragment W (off div 8) m i @ chunk"

text \<open>The loop over the fragments from \<open>index\<close> on, \<open>k\<close> of them.\<close>

fun fragment_loop ::
  "(bool \<Rightarrow> nat \<Rightarrow> bytes \<Rightarrow> bytes \<Rightarrow> bytes) \<Rightarrow> nat \<Rightarrow> bytes \<Rightarrow> bytes \<Rightarrow> nat \<Rightarrow> nat \<Rightarrow> nat \<Rightarrow> nat \<Rightarrow> block_pool \<Rightarrow>
     (block_pool \<times> bytes list) option" where
  "fragment_loop frame overhead header payload sz count index 0 p = Some (p, [])"
| "fragment_loop frame overhead header payload sz count index (Suc k) p =
     (let len = min (length header + length payload - index * sz) sz in
      if 0xfff8 < index * sz then None
      else
        Option.bind (copy_fragment header payload (index * sz) len) (\<lambda>chunk.
        Option.bind (arena_encode p (overhead + len) (frame (index + 1 < count) (index * sz) chunk)) (\<lambda>(p, _, b).
        Option.bind (fragment_loop frame overhead header payload sz count (index + 1) k p) (\<lambda>(p, bs).
          Some (p, b # bs)))))"

definition fragment_all ::
  "(bool \<Rightarrow> nat \<Rightarrow> bytes \<Rightarrow> bytes \<Rightarrow> bytes) \<Rightarrow> nat \<Rightarrow> bytes \<Rightarrow> bytes \<Rightarrow> nat \<Rightarrow> block_pool \<Rightarrow>
     (block_pool \<times> bytes list) option" where
  "fragment_all frame overhead header payload sz p =
     (let count = div_ceil (length header + length payload) sz in
      fragment_loop frame overhead header payload sz count 0 count p)"

definition v4_fragments ::
  "udp_wire \<Rightarrow> encoder \<Rightarrow> sock_addr \<Rightarrow> sock_addr \<Rightarrow> bytes \<Rightarrow> bytes \<Rightarrow> (encoder \<times> bytes list) option" where
  "v4_fragments W e source destination header payload =
     map_option (\<lambda>(p, bs). (e\<lparr>en_v4 := (en_v4 e + 1) mod 65536, en_pool := p\<rparr>, bs))
       (fragment_all (v4_frame W (fst source) (fst destination) (en_v4 e)) 20 header payload
          ((en_mtu e - 20) div 8 * 8) (en_pool e))"

definition v6_fragments ::
  "udp_wire \<Rightarrow> encoder \<Rightarrow> sock_addr \<Rightarrow> sock_addr \<Rightarrow> bytes \<Rightarrow> bytes \<Rightarrow> (encoder \<times> bytes list) option" where
  "v6_fragments W e source destination header payload =
     (let sz = (en_mtu e - 48) div 8 * 8 in
      if sz = 0 then None
      else
        map_option (\<lambda>(p, bs). (e\<lparr>en_v6 := (en_v6 e + 1) mod 4294967296, en_pool := p\<rparr>, bs))
          (fragment_all (v6_frame W (fst source) (fst destination) (en_v6 e)) 48 header payload sz (en_pool e)))"

definition udp_encode ::
  "udp_wire \<Rightarrow> encoder \<Rightarrow> sock_addr \<Rightarrow> sock_addr \<Rightarrow> bytes \<Rightarrow> (encoder \<times> bytes list option) option" where
  "udp_encode W e source destination payload =
     (if ipv4 source \<noteq> ipv4 destination \<or> snd source = 0 \<or> max_payload source < length payload then Some (e, None)
      else
        let ip_len = (if ipv4 source then 20 else 40);
            buffer_len = ip_len + 8 + length payload;
            header = fragment_header W source destination payload
        in if buffer_len \<le> en_mtu e then
             map_option (\<lambda>(p, _, b). (e\<lparr>en_pool := p\<rparr>, Some [b]))
               (arena_encode (en_pool e) buffer_len
                  (\<lambda>_. uw_ip W (fst source) (fst destination) UdpProto (8 + length payload) @
                     uw_udp W source destination payload @ payload))
           else
             map_option (\<lambda>(e, bs). (e, Some bs))
               (if ipv4 source then v4_fragments W e source destination header payload
                else v6_fragments W e source destination header payload))"

definition reply_flow :: "ip_flow \<Rightarrow> sock_addr \<Rightarrow> (sock_addr \<times> sock_addr) option" where
  "reply_flow flow source =
     (if ipv4 source = ipv4 (fl_source flow) \<and> unicast (fst source) then Some (source, fl_source flow) else None)"

section \<open>Transmissions\<close>

datatype transmit =
    Packet bytes
  | Tcp_Gso bytes "bytes list" nat
  | Datagrams sock_addr sock_addr "bytes list"

text \<open>\<open>handle\<close> is the size of a \<open>Bytes\<close> handle.\<close>

fun transmit_size :: "nat \<Rightarrow> transmit \<Rightarrow> nat" where
  "transmit_size handle (Packet p) = charge (length p)"
| "transmit_size handle (Tcp_Gso p payload _) =
     charge (length p + sum_list (map length payload)) + length payload * handle"
| "transmit_size handle (Datagrams _ _ payload) = sum_list (map (\<lambda>p. length p + 48) payload)"

section \<open>Lemmas\<close>

definition encoder_ok :: "encoder \<Rightarrow> bool" where
  "encoder_ok e \<longleftrightarrow> 1280 \<le> en_mtu e \<and> en_mtu e \<le> 65535 \<and> pool_ok (en_pool e)"

lemma length_udp_header [simp]: "length (udp_header s d n c) = 8"
  by (simp add: udp_header_def)

lemma length_fragment_header [simp]: "length (fragment_header W s d p) = 8"
  by (simp add: fragment_header_def Let_def)

lemma copy_fragment_slice:
  assumes "length header = 8" "offset mod 8 = 0" "offset + n \<le> 8 + length payload" "offset = 0 \<longrightarrow> 8 \<le> n"
  shows "copy_fragment header payload offset n = Some (take n (drop offset (header @ payload)))"
proof (cases "offset = 0")
  case True
  then show ?thesis using assms by (simp add: copy_fragment_def)
next
  case False
  then have "8 \<le> offset" using assms(2) by (metis dvd_imp_le mod_0_imp_dvd neq0_conv)
  then show ?thesis using assms False by (simp add: copy_fragment_def)
qed

lemma arena_encode_ok:
  assumes "pool_ok p" "len \<le> 131072" "\<And>b. length b = len \<Longrightarrow> length (emit b) = len"
  shows "\<exists>p' l old. arena_encode p len emit = Some (p', l, emit old) \<and> pool_ok p' \<and> length old = len"
proof (cases "BLOCK div 2 < len")
  case True
  obtain p' l old where "pool_encode p len emit = Some (p', l, emit old)" "pool_ok p'" "length old = len"
    using pool_encode_ok [OF assms(1,2), of emit] assms(3) by blast
  with True show ?thesis by (auto simp: arena_encode_def)
next
  case False
  then show ?thesis using assms(1) by (auto simp: arena_encode_def intro!: exI [of _ "replicate len 0"])
qed

text \<open>A fragment's closure fills a buffer of its header and its chunk.\<close>

definition fills :: "(bool \<Rightarrow> nat \<Rightarrow> bytes \<Rightarrow> bytes \<Rightarrow> bytes) \<Rightarrow> nat \<Rightarrow> bool" where
  "fills frame overhead \<longleftrightarrow> (\<forall>m off chunk old. length (frame m off chunk old) = overhead + length chunk)"

lemma fragment_loop_chunks:
  assumes "fills frame overhead" "length header = 8" "0 < sz" "sz mod 8 = 0" "overhead + sz \<le> 131072"
    and "8 + length payload \<le> 65535" "count = div_ceil (8 + length payload) sz"
  defines "cs \<equiv> chunks_of sz (header @ payload)"
  shows "index + k = count \<Longrightarrow> pool_ok p \<Longrightarrow>
    \<exists>p' bs. fragment_loop frame overhead header payload sz count index k p = Some (p', bs) \<and> pool_ok p' \<and> length bs = k \<and>
      (\<forall>i < k. \<exists>old. length old = overhead + length (cs ! (index + i)) \<and>
         bs ! i = frame (index + i + 1 < count) ((index + i) * sz) (cs ! (index + i)) old)"
proof (induction k arbitrary: index p)
  case 0
  then show ?case by simp
next
  case (Suc k)
  have cs: "length cs = count" using assms(2,3,7) by (simp add: cs_def length_chunks)
  have idx: "index < length cs" using cs Suc.prems(1) by simp
  have chunk: "cs ! index = take sz (drop (index * sz) (header @ payload))"
    using nth_chunks idx unfolding cs_def by blast
  have "cs ! index \<noteq> []" using chunks_bounded [OF nth_mem [OF idx [unfolded cs_def]]] unfolding cs_def by force
  then have lt: "index * sz < 8 + length payload" unfolding chunk using assms(2) by auto
  have aligned: "index * sz mod 8 = 0" using assms(4) by (simp add: mod_mult_right_eq [symmetric])
  have "8 \<le> sz" using assms(3,4) by (metis dvd_imp_le mod_0_imp_dvd)
  define len where "len = min (8 + length payload - index * sz) sz"
  have "length (cs ! index) = len"
    by (simp only: chunk len_def length_take length_drop length_append assms(2) min.commute)
  moreover have "index * sz + len \<le> 8 + length payload" "overhead + len \<le> 131072"
    using lt assms(5) by (auto simp: len_def)
  ultimately have len: "length (cs ! index) = len" "index * sz + len \<le> 8 + length payload" "overhead + len \<le> 131072" by auto
  have "index * sz \<le> 0xfff8"
  proof -
    have "index * sz div 8 \<le> 65534 div 8" using lt assms(6) by (intro div_le_mono) simp
    moreover have "index * sz = index * sz div 8 * 8" using aligned by (metis add.right_neutral div_mult_mod_eq)
    ultimately show ?thesis by simp
  qed
  moreover have "copy_fragment header payload (index * sz) len = Some (cs ! index)"
    using copy_fragment_slice [OF assms(2) aligned len(2)] \<open>8 \<le> sz\<close> lt
    by (auto simp: len_def chunk min_def assms(2))
  moreover obtain p1 l old where a: "arena_encode p (overhead + len) (frame (index + 1 < count) (index * sz) (cs ! index)) =
      Some (p1, l, frame (index + 1 < count) (index * sz) (cs ! index) old)" "pool_ok p1" "length old = overhead + len"
    using arena_encode_ok [OF Suc.prems(2) len(3)] assms(1) len(1) unfolding fills_def by metis
  moreover obtain p2 bs where r: "fragment_loop frame overhead header payload sz count (index + 1) k p1 = Some (p2, bs)"
    "pool_ok p2" "length bs = k" "\<forall>i < k. \<exists>old. length old = overhead + length (cs ! (index + 1 + i)) \<and>
      bs ! i = frame (index + 1 + i + 1 < count) ((index + 1 + i) * sz) (cs ! (index + 1 + i)) old"
    using Suc.IH [of "index + 1" p1] Suc.prems(1) a(2) by auto
  ultimately have "fragment_loop frame overhead header payload sz count index (Suc k) p =
      Some (p2, frame (index + 1 < count) (index * sz) (cs ! index) old # bs)"
    using assms(2) by (simp add: len_def Let_def)
  with r a(3) len(1) show ?case by (auto simp: less_Suc_eq_0_disj)
qed

lemma fragment_all_chunks:
  assumes "fills frame overhead" "length header = 8" "0 < sz" "sz mod 8 = 0" "overhead + sz \<le> 131072"
    and "8 + length payload \<le> 65535" "pool_ok p"
  defines "cs \<equiv> chunks_of sz (header @ payload)"
  shows "\<exists>p' bs. fragment_all frame overhead header payload sz p = Some (p', bs) \<and> pool_ok p' \<and> length bs = length cs \<and>
      (\<forall>i < length cs. \<exists>old. length old = overhead + length (cs ! i) \<and>
         bs ! i = frame (i + 1 < length cs) (i * sz) (cs ! i) old)"
proof -
  have n: "length cs = div_ceil (8 + length payload) sz" using assms(2,3) by (simp add: cs_def length_chunks)
  have "\<exists>p' bs. fragment_loop frame overhead header payload sz (length cs) 0 (length cs) p = Some (p', bs) \<and> pool_ok p' \<and>
      length bs = length cs \<and>
      (\<forall>i < length cs. \<exists>old. length old = overhead + length (cs ! (0 + i)) \<and>
         bs ! i = frame (0 + i + 1 < length cs) ((0 + i) * sz) (cs ! (0 + i)) old)"
    unfolding cs_def by (rule fragment_loop_chunks [OF assms(1-6) n [unfolded cs_def]]) (simp_all add: assms(7))
  then show ?thesis using assms(2) n by (simp add: fragment_all_def Let_def)
qed

lemma udp_sizes:
  assumes "wire_sizes W"
  shows "length (uw_udp W s d p) = 8" "length (uw_ip W a b pr n) = (if is_v4 a then 20 else 40)"
  using assms unfolding wire_sizes_def by blast+

lemma frames_fill:
  assumes "wire_sizes W"
  shows "fills (v4_frame W s d i) 20" "\<not> is_v4 s \<Longrightarrow> fills (v6_frame W s d i) 48"
  using assms by (auto simp: fills_def v4_frame_def v6_frame_def wire_sizes_def)

text \<open>What both address families share: the chunk size, the per-frame overhead and the closure.\<close>

definition fragment_size :: "encoder \<Rightarrow> sock_addr \<Rightarrow> nat" where
  "fragment_size e source = (if ipv4 source then (en_mtu e - 20) div 8 * 8 else (en_mtu e - 48) div 8 * 8)"

definition fragment_overhead :: "sock_addr \<Rightarrow> nat" where
  "fragment_overhead source = (if ipv4 source then 20 else 48)"

definition fragment_frame :: "udp_wire \<Rightarrow> encoder \<Rightarrow> sock_addr \<Rightarrow> sock_addr \<Rightarrow> bool \<Rightarrow> nat \<Rightarrow> bytes \<Rightarrow> bytes \<Rightarrow> bytes" where
  "fragment_frame W e source destination =
     (if ipv4 source then v4_frame W (fst source) (fst destination) (en_v4 e)
      else v6_frame W (fst source) (fst destination) (en_v6 e))"

definition fragment_chunks :: "udp_wire \<Rightarrow> encoder \<Rightarrow> sock_addr \<Rightarrow> sock_addr \<Rightarrow> bytes \<Rightarrow> bytes list" where
  "fragment_chunks W e source destination payload =
     chunks_of (fragment_size e source) (fragment_header W source destination payload @ payload)"

lemma fragment_size_bounds:
  assumes "encoder_ok e"
  shows "0 < fragment_size e source" "fragment_size e source mod 8 = 0"
    "fragment_overhead source + fragment_size e source \<le> en_mtu e"
proof -
  have "(en_mtu e - 20) div 8 * 8 \<le> en_mtu e - 20" "(en_mtu e - 48) div 8 * 8 \<le> en_mtu e - 48" by simp_all
  moreover have "157 \<le> (en_mtu e - 20) div 8" "154 \<le> (en_mtu e - 48) div 8"
    using assms by (auto simp: encoder_ok_def intro: order_trans [OF _ div_le_mono])
  ultimately show "0 < fragment_size e source" "fragment_size e source mod 8 = 0"
    "fragment_overhead source + fragment_size e source \<le> en_mtu e"
    using assms by (auto simp: fragment_size_def fragment_overhead_def encoder_ok_def)
qed

lemma encode_fragmented:
  assumes "wire_sizes W" "encoder_ok e" "ipv4 source = ipv4 destination" "snd source \<noteq> 0"
    "length payload \<le> max_payload source" "en_mtu e < (if ipv4 source then 20 else 40) + 8 + length payload"
  shows "\<exists>e' bs. udp_encode W e source destination payload = Some (e', Some bs) \<and> encoder_ok e' \<and> en_mtu e' = en_mtu e \<and>
    length bs = length (fragment_chunks W e source destination payload) \<and>
    (\<forall>i < length (fragment_chunks W e source destination payload). \<exists>old. length old = fragment_overhead source + length (fragment_chunks W e source destination payload ! i) \<and>
       bs ! i = fragment_frame W e source destination (i + 1 < length (fragment_chunks W e source destination payload)) (i * fragment_size e source) (fragment_chunks W e source destination payload ! i) old)"
proof -
  let ?h = "fragment_header W source destination payload"
  note sz = fragment_size_bounds [OF assms(2), of source]
  have fill: "fills (fragment_frame W e source destination) (fragment_overhead source)"
    using frames_fill [OF assms(1)] by (simp add: fragment_frame_def fragment_overhead_def)
  have mtu: "fragment_overhead source + fragment_size e source \<le> 131072" "pool_ok (en_pool e)"
    using sz(3) assms(2) by (auto simp: encoder_ok_def)
  have len: "8 + length payload \<le> 65535" using assms(5) by (auto simp: max_payload_def split: if_splits)
  obtain p' bs where bs: "fragment_all (fragment_frame W e source destination) (fragment_overhead source) ?h payload
      (fragment_size e source) (en_pool e) = Some (p', bs)" "pool_ok p'" "length bs = length (fragment_chunks W e source destination payload)"
    "\<forall>i < length (fragment_chunks W e source destination payload). \<exists>old. length old = fragment_overhead source + length (fragment_chunks W e source destination payload ! i) \<and>
       bs ! i = fragment_frame W e source destination (i + 1 < length (fragment_chunks W e source destination payload)) (i * fragment_size e source) (fragment_chunks W e source destination payload ! i) old"
    using fragment_all_chunks [OF fill length_fragment_header sz(1,2) mtu(1) len mtu(2)] unfolding fragment_chunks_def by blast
  have "udp_encode W e source destination payload =
      Some ((if ipv4 source then e\<lparr>en_v4 := (en_v4 e + 1) mod 65536, en_pool := p'\<rparr>
             else e\<lparr>en_v6 := (en_v6 e + 1) mod 4294967296, en_pool := p'\<rparr>), Some bs)"
    using assms(3-6) bs(1) sz(1)
    by (auto simp: udp_encode_def Let_def v4_fragments_def v6_fragments_def fragment_frame_def fragment_overhead_def fragment_size_def)
  then show ?thesis using bs assms(2) by (auto simp: encoder_ok_def)
qed

section \<open>Reused blocks\<close>

lemma class_index_jumbo:
  assumes "8192 < len" "len \<le> 16384"
  shows "class_index len = 6"
proof -
  define k where "k = class_index len + MIN_CLASS"
  have k: "len \<le> 2 ^ k" "2 ^ k < 2 * max len 256" using class_index_spec(2,3) [of len] assms by (auto simp: k_def)
  have "(2::nat) ^ 13 < 2 ^ k" using k(1) assms(1) by simp
  then have "13 < k" by (simp only: power_strict_increasing_iff)
  moreover have "(2::nat) ^ k < 2 ^ 15" using k(2) assms by simp
  then have "k < 15" by (simp only: power_strict_increasing_iff)
  ultimately show ?thesis by (simp add: k_def MIN_CLASS_def)
qed

lemma arena_encode_reuses:
  assumes "8192 < len" "len \<le> 16384" "p ! 6 = blk # rest" "6 < length p" "\<And>b. length b = len \<Longrightarrow> length (emit b) = len"
  shows "\<exists>p' l. arena_encode p len emit = Some (p', l, emit (vec_resize len blk))"
  using assms by (simp add: arena_encode_def BLOCK_def pool_encode_def pool_acquire_def class_index_jumbo lease_freeze_def Let_def)

lemma fragment_loop_first:
  assumes "fragment_loop frame overhead header payload sz count 0 count p = Some (p', bs)" "0 < count"
  shows "\<exists>chunk p1 l. copy_fragment header payload 0 (min (length header + length payload) sz) = Some chunk \<and>
    arena_encode p (overhead + min (length header + length payload) sz) (frame (1 < count) 0 chunk) = Some (p1, l, bs ! 0)"
proof -
  obtain k where k: "count = Suc k" using assms(2) by (cases count) auto
  then show ?thesis using assms(1) by (auto simp: Let_def split: Option.bind_splits)
qed

text \<open>The first fragment of a jumbo IPv6 datagram keeps a byte of the block it reuses.\<close>

lemma v6_fragments_reuse:
  assumes "wire_sizes W" "encoder_ok e" "\<not> ipv4 source" "length header = 8" "8192 < 48 + fragment_size e source"
    "48 + fragment_size e source \<le> 16384" "fragment_size e source \<le> 8 + length payload"
    "en_pool e ! 6 = blk # rest" "v6_fragments W e source destination header payload = Some (e', bs)" "41 < length blk"
  shows "bs ! 0 ! 41 = blk ! 41"
proof -
  let ?sz = "fragment_size e source"
  let ?count = "div_ceil (8 + length payload) ?sz"
  let ?frame = "v6_frame W (fst source) (fst destination) (en_v6 e)"
  have "(en_mtu e - 48) div 8 * 8 = ?sz" using assms(3) by (simp add: fragment_size_def)
  note sz = this fragment_size_bounds(1,2) [OF assms(2), of source]
  have count: "0 < ?count" using div_ceil_step [OF sz(2), of "8 + length payload"] by simp
  obtain p' where "fragment_loop ?frame 48 header payload ?sz ?count 0 ?count (en_pool e) = Some (p', bs)"
    using assms(4,9) sz by (auto simp: v6_fragments_def fragment_all_def Let_def)
  from fragment_loop_first [OF this count] obtain chunk p1 l where
    c: "copy_fragment header payload 0 ?sz = Some chunk" "arena_encode (en_pool e) (48 + ?sz) (?frame (1 < ?count) 0 chunk) = Some (p1, l, bs ! 0)"
    using assms(4,7) by (auto simp: min_def split: if_splits)
  have "8 \<le> ?sz" using sz(2,3) by (metis dvd_imp_le mod_0_imp_dvd)
  then have chunk: "length chunk = ?sz"
    using c(1) copy_fragment_slice [OF assms(4), of 0 ?sz payload] assms(4,7) by auto
  have "fills ?frame 48" using frames_fill(2) [OF assms(1,3)] .
  then have "length (?frame (1 < ?count) 0 chunk b) = 48 + ?sz" for b using chunk by (simp add: fills_def)
  moreover have "6 < length (en_pool e)" using assms(2) by (simp add: encoder_ok_def pool_ok_def CLASSES_def)
  ultimately obtain q l' where "arena_encode (en_pool e) (48 + ?sz) (?frame (1 < ?count) 0 chunk) =
      Some (q, l', ?frame (1 < ?count) 0 chunk (vec_resize (48 + ?sz) blk))"
    using arena_encode_reuses [OF assms(5,6,8), of "?frame (1 < ?count) 0 chunk"] by blast
  with c(2) have b: "bs ! 0 = ?frame (1 < ?count) 0 chunk (vec_resize (48 + ?sz) blk)" by simp
  have "length (uw_ip W (fst source) (fst destination) Ipv6Frag (length chunk + 8)) = 40"
    using udp_sizes(2) [OF assms(1)] assms(3) by simp
  then show ?thesis using assms(10) by (simp add: b v6_frame_def nth_append vec_resize_def)
qed

section \<open>Properties\<close>

text \<open>
  C31. Encoding a datagram never panics and carries exactly the datagram. It refuses exactly mixed
  address families, a zero source port and an oversized payload. Otherwise every frame fits the MTU;
  a datagram that fits is one frame; a larger one is split into fragments whose payloads are the
  consecutive multiple-of-eight chunks of the UDP header and the payload, so that they concatenate to
  the datagram, each with its own offset, the same identification and the more-fragments flag on all
  but the last.
\<close>

theorem encode_carries_datagram:
  assumes "wire_sizes W" "encoder_ok e"
  shows "\<exists>e' r. udp_encode W e source destination payload = Some (e', r) \<and> encoder_ok e' \<and> en_mtu e' = en_mtu e \<and>
    (r = None \<longleftrightarrow> ipv4 source \<noteq> ipv4 destination \<or> snd source = 0 \<or> max_payload source < length payload) \<and>
    (case r of None \<Rightarrow> True
     | Some frames \<Rightarrow>
         list_all (\<lambda>f. length f \<le> en_mtu e) frames \<and>
         (if (if ipv4 source then 20 else 40) + 8 + length payload \<le> en_mtu e
          then frames = [uw_ip W (fst source) (fst destination) UdpProto (8 + length payload) @ uw_udp W source destination payload @ payload]
          else
            let cs = fragment_chunks W e source destination payload; sz = fragment_size e source in
            concat cs = fragment_header W source destination payload @ payload \<and> length frames = length cs \<and>
            (\<forall>i < length cs. length (cs ! i) \<le> sz \<and>
               (\<exists>old. frames ! i = fragment_frame W e source destination (i + 1 < length cs) (i * sz) (cs ! i) old))))"
proof (cases "ipv4 source \<noteq> ipv4 destination \<or> snd source = 0 \<or> max_payload source < length payload")
  case True
  then show ?thesis using assms(2) by (auto simp: udp_encode_def)
next
  case valid: False
  show ?thesis
  proof (cases "(if ipv4 source then 20 else 40) + 8 + length payload \<le> en_mtu e")
    case True
    let ?n = "(if ipv4 source then 20 else 40) + 8 + length payload"
    let ?f = "uw_ip W (fst source) (fst destination) UdpProto (8 + length payload) @ uw_udp W source destination payload @ payload"
    have n: "length ?f = ?n" using udp_sizes [OF assms(1)] by simp
    have "?n \<le> 131072" using True assms(2) by (simp add: encoder_ok_def)
    then obtain p' l where "arena_encode (en_pool e) ?n (\<lambda>_. ?f) = Some (p', l, ?f)" "pool_ok p'"
      using arena_encode_ok [of "en_pool e" ?n "\<lambda>_. ?f"] n assms(2) unfolding encoder_ok_def by blast
    then show ?thesis using valid True n assms(2) by (auto simp: udp_encode_def Let_def encoder_ok_def)
  next
    case False
    define cs where "cs = fragment_chunks W e source destination payload"
    define sz where "sz = fragment_size e source"
    note size = fragment_size_bounds [OF assms(2), of source, folded sz_def]
    obtain e' bs where r: "udp_encode W e source destination payload = Some (e', Some bs)" "encoder_ok e'" "en_mtu e' = en_mtu e"
      "length bs = length cs"
      "\<forall>i < length cs. \<exists>old. length old = fragment_overhead source + length (cs ! i) \<and>
         bs ! i = fragment_frame W e source destination (i + 1 < length cs) (i * sz) (cs ! i) old"
      using encode_fragmented [OF assms(1,2), of source destination payload] valid False unfolding cs_def sz_def by fastforce
    have cs: "length (cs ! i) \<le> sz" if "i < length cs" for i
      using chunks_bounded [OF nth_mem] that unfolding cs_def sz_def fragment_chunks_def by blast
    have "fills (fragment_frame W e source destination) (fragment_overhead source)"
      using frames_fill [OF assms(1)] by (simp add: fragment_frame_def fragment_overhead_def)
    then have "length (bs ! i) \<le> en_mtu e" if "i < length cs" for i
      using r(5) cs [OF that] that size(3) unfolding fills_def by fastforce
    then have "list_all (\<lambda>f. length f \<le> en_mtu e) bs" using r(4) by (auto simp: list_all_length)
    moreover have "concat cs = fragment_header W source destination payload @ payload"
      using concat_chunks [OF size(1)] by (simp add: cs_def fragment_chunks_def sz_def)
    ultimately show ?thesis using r valid False cs by (auto simp: Let_def cs_def [symmetric] sz_def [symmetric])
  qed
qed

definition sample_udp_wire :: udp_wire where
  "sample_udp_wire =
     \<lparr>uw_ip = (\<lambda>s d pr n. replicate (if is_v4 s then 20 else 40) 0), uw_v4_fragment = (\<lambda>s d n i m off. replicate 20 0),
      uw_fragment = (\<lambda>off m i. be16 (off * 8 + (if m then 1 else 0)) @ be32 i), uw_udp = (\<lambda>s d p. replicate 8 0),
      uw_pseudo = (\<lambda>s d n. n), uw_checksum = (\<lambda>s d n h p. 0)\<rparr>"

lemma sample_udp_wire_sizes: "wire_sizes sample_udp_wire"
  by (simp add: wire_sizes_def sample_udp_wire_def)

definition jumbo_encoder :: encoder where
  "jumbo_encoder = \<lparr>en_mtu = 9000, en_v4 = 0, en_v6 = 7, en_pool = pool_new\<rparr>"

theorem encode_carries_datagram_witness:
  "\<exists>e' frames. udp_encode sample_udp_wire jumbo_encoder (V6 1, 53) (V6 2, 4000) (replicate 20000 9) = Some (e', Some frames) \<and>
    list_all (\<lambda>f. length f \<le> 9000) frames"
proof -
  have "encoder_ok jumbo_encoder" by (simp add: encoder_ok_def jumbo_encoder_def pool_new_ok)
  from encode_carries_datagram [OF sample_udp_wire_sizes this, of "(V6 1, 53)" "(V6 2, 4000)" "replicate 20000 9"]
  show ?thesis by (auto simp: max_payload_def jumbo_encoder_def split: option.splits)
qed

text \<open>The frame of an IPv4 datagram of 8960 bytes, which an encoder with a jumbo MTU leases from its pool.\<close>

definition earlier_frame :: bytes where
  "earlier_frame = uw_ip sample_udp_wire (V4 1) (V4 2) UdpProto 8968 @
     uw_udp sample_udp_wire (V4 1, 53) (V4 2, 4000) (replicate 8960 255) @ replicate 8960 255"

text \<open>
  C32. The reserved byte of an IPv6 fragment header is not written. With an MTU above 8 KiB a frame is a
  block of the pool that keeps its old contents, so the byte is one of an earlier packet: after an IPv4
  datagram has been encoded and released, the first fragment of an IPv6 datagram has a byte of that
  datagram's payload at offset 41, where the protocol requires zero.
\<close>

theorem fragment_reserved_byte_stale:
  "\<exists>p l e' frames. pool_encode pool_new 8988 (\<lambda>_. earlier_frame) = Some (p, l, earlier_frame) \<and>
    udp_encode sample_udp_wire (jumbo_encoder\<lparr>en_pool := lease_return p l\<rparr>) (V6 1, 53) (V6 2, 4000) (replicate 20000 9) =
      Some (e', Some frames) \<and>
    frames ! 0 ! 41 = 255"
proof -
  have frame: "length earlier_frame = 8988" "earlier_frame ! 41 = 255"
    by (simp_all add: earlier_frame_def sample_udp_wire_def nth_append)
  have new: "pool_ok pool_new" "pool_new ! 6 = []" "6 < length pool_new"
    by (rule pool_new_ok) (simp_all add: pool_new_def CLASSES_def)
  define l where "l = \<lparr>le_bytes = earlier_frame, le_class = 6\<rparr>"
  have enc: "pool_encode pool_new 8988 (\<lambda>_. earlier_frame) = Some (pool_new[6 := []], l, earlier_frame)"
    using frame(1) new by (simp add: pool_encode_def pool_acquire_def class_index_jumbo lease_freeze_def l_def Let_def)
  define p where "p = lease_return (pool_new[6 := []]) l"
  have p6: "p ! 6 = earlier_frame # []" using new by (simp add: p_def lease_return_def l_def CACHED_PER_CLASS_def)
  have "lease_ok l" using frame(1) by (simp add: lease_ok_def l_def CLASSES_def MIN_CLASS_def)
  moreover have "pool_ok (pool_new[6 := []])" using pool_update_ok [OF new(1)] by (simp add: class_ok_def)
  ultimately have p: "pool_ok p" unfolding p_def by (rule lease_return_ok [rotated])
  define e where "e = jumbo_encoder\<lparr>en_pool := p\<rparr>"
  have e: "encoder_ok e" "en_pool e = p" "fragment_size e (V6 1, 53) = 8952"
    using p by (simp_all add: encoder_ok_def e_def jumbo_encoder_def fragment_size_def)
  let ?pl = "replicate 20000 9 :: bytes"
  obtain e' bs where r: "udp_encode sample_udp_wire e (V6 1, 53) (V6 2, 4000) ?pl = Some (e', Some bs)"
    using encode_fragmented [OF sample_udp_wire_sizes e(1), of "(V6 1, 53)" "(V6 2, 4000)" ?pl]
    by (auto simp: max_payload_def e_def jumbo_encoder_def)
  then have "v6_fragments sample_udp_wire e (V6 1, 53) (V6 2, 4000) (fragment_header sample_udp_wire (V6 1, 53) (V6 2, 4000) ?pl) ?pl =
      Some (e', bs)"
    by (auto simp: udp_encode_def max_payload_def e_def jumbo_encoder_def Let_def)
  then have "bs ! 0 ! 41 = earlier_frame ! 41"
    using frame(1) e p6 by (intro v6_fragments_reuse [OF sample_udp_wire_sizes e(1)]) auto
  with enc r frame(2) show ?thesis unfolding p_def e_def by auto
qed

end
