(* ===== verification/Shadowsocks.thy ===== *)
theory Shadowsocks
  imports Chunk
begin

text \<open>
  The Shadowsocks 2022 stream (\<open>crates/shadowsocks2022/src/buffered.rs\<close> and \<open>tcp.rs\<close>): the writer that
  keeps the input of a pending write, and the client reader that withholds plaintext until the echoed
  request salt has been checked. The crypto stream of the shadowsocks library is a parameter.
\<close>

section \<open>The buffered writer\<close>

record 's ss_buffered =
  sb_stream :: 's
  sb_pending :: "bytes option"

definition sb_new :: "'s \<Rightarrow> 's ss_buffered" where
  "sb_new s = \<lparr>sb_stream = s, sb_pending = None\<rparr>"

definition on_stream :: "'s ss_buffered \<Rightarrow> ('s \<times> 'r) option \<Rightarrow> ('s ss_buffered \<times> 'r) option" where
  "on_stream b r = map_option (\<lambda>(s, x). (b\<lparr>sb_stream := s\<rparr>, x)) r"

definition sb_read :: "('s, 'x) io_ops_scheme \<Rightarrow> 's ss_buffered \<Rightarrow> nat \<Rightarrow> ('s ss_buffered \<times> (io_error + bytes) poll) option" where
  "sb_read S b room = on_stream b (io_read S (sb_stream b) room)"

definition sb_write :: "('s, 'x) io_ops_scheme \<Rightarrow> 's ss_buffered \<Rightarrow> bytes \<Rightarrow> ('s ss_buffered \<times> (io_error + nat) poll) option" where
  "sb_write S b data =
     (case (case sb_pending b of
              Some pending \<Rightarrow> if take (length pending) data = pending then Some pending else None
            | None \<Rightarrow> Some (take (min (length data) 8192) data)) of
        None \<Rightarrow> Some (b, Ready (Inl Invalid_Input))
      | Some input \<Rightarrow>
          (case io_write S (sb_stream b) input of
             None \<Rightarrow> None
           | Some (s, Pending) \<Rightarrow>
               Some (b\<lparr>sb_stream := s, sb_pending := (case sb_pending b of None \<Rightarrow> Some input | p \<Rightarrow> p)\<rparr>, Pending)
           | Some (s, result) \<Rightarrow> Some (b\<lparr>sb_stream := s, sb_pending := None\<rparr>, result)))"

definition sb_flush :: "('s, 'x) io_ops_scheme \<Rightarrow> 's ss_buffered \<Rightarrow> ('s ss_buffered \<times> (io_error + unit) poll) option" where
  "sb_flush S b = on_stream b (io_flush S (sb_stream b))"

definition sb_shutdown :: "('s, 'x) io_ops_scheme \<Rightarrow> 's ss_buffered \<Rightarrow> ('s ss_buffered \<times> (io_error + unit) poll) option" where
  "sb_shutdown S b = on_stream b (io_shutdown S (sb_stream b))"

section \<open>The encrypted reader\<close>

text \<open>
  \<open>poll_read_decrypted\<close> with the room of its buffer, \<open>poll_write_encrypted\<close>, \<open>poll_flush\<close>,
  \<open>poll_shutdown\<close>, \<open>received_request_nonce\<close> and \<open>sent_nonce\<close>.
\<close>

record 's crypto_ops =
  cr_read :: "'s \<Rightarrow> nat \<Rightarrow> 's \<times> (io_error + bytes) poll"
  cr_write :: "'s \<Rightarrow> bytes \<Rightarrow> 's \<times> (io_error + nat) poll"
  cr_flush :: "'s \<Rightarrow> 's \<times> (io_error + unit) poll"
  cr_shutdown :: "'s \<Rightarrow> 's \<times> (io_error + unit) poll"
  cr_received_nonce :: "'s \<Rightarrow> bytes option"
  cr_sent_nonce :: "'s \<Rightarrow> bytes"

record 's encrypted =
  ec_stream :: 's
  ec_failed :: bool
  ec_verified :: bool

text \<open>The result has what is put into the caller's buffer.\<close>

definition ec_read :: "'s crypto_ops \<Rightarrow> 's encrypted \<Rightarrow> nat \<Rightarrow> 's encrypted \<times> (io_error + bytes) poll" where
  "ec_read C e room =
     (if ec_failed e then (e, Ready (Inl Other_Error))
      else if room = 0 then (e, Ready (Inr []))
      else if ec_verified e then
        (case cr_read C (ec_stream e) room of (s, r) \<Rightarrow> (e\<lparr>ec_stream := s\<rparr>, r))
      else
        (case cr_read C (ec_stream e) (min room 8192) of
           (s, Pending) \<Rightarrow> (e\<lparr>ec_stream := s\<rparr>, Pending)
         | (s, Ready (Inl err)) \<Rightarrow> (e\<lparr>ec_stream := s\<rparr>, Ready (Inl err))
         | (s, Ready (Inr filled)) \<Rightarrow>
             let e = e\<lparr>ec_stream := s\<rparr> in
             if filled = [] then (e, Ready (Inr []))
             else if cr_received_nonce C s \<noteq> Some (cr_sent_nonce C s) then (e\<lparr>ec_failed := True\<rparr>, Ready (Inl Other_Error))
             else (e\<lparr>ec_verified := True\<rparr>, Ready (Inr filled))))"

definition ec_write :: "'s crypto_ops \<Rightarrow> 's encrypted \<Rightarrow> bytes \<Rightarrow> 's encrypted \<times> (io_error + nat) poll" where
  "ec_write C e data = (case cr_write C (ec_stream e) data of (s, r) \<Rightarrow> (e\<lparr>ec_stream := s\<rparr>, r))"

definition ec_flush :: "'s crypto_ops \<Rightarrow> 's encrypted \<Rightarrow> 's encrypted \<times> (io_error + unit) poll" where
  "ec_flush C e = (case cr_flush C (ec_stream e) of (s, r) \<Rightarrow> (e\<lparr>ec_stream := s\<rparr>, r))"

definition ec_shutdown :: "'s crypto_ops \<Rightarrow> 's encrypted \<Rightarrow> 's encrypted \<times> (io_error + unit) poll" where
  "ec_shutdown C e = (case cr_shutdown C (ec_stream e) of (s, r) \<Rightarrow> (e\<lparr>ec_stream := s\<rparr>, r))"

text \<open>\<open>Encrypted\<close> as the stream that \<open>Buffered\<close> wraps.\<close>

definition encrypted_io :: "'s crypto_ops \<Rightarrow> 's encrypted io_ops" where
  "encrypted_io C =
     \<lparr>io_read = (\<lambda>e n. Some (ec_read C e n)), io_write = (\<lambda>e b. Some (ec_write C e b)),
      io_flush = (\<lambda>e. Some (ec_flush C e)), io_shutdown = (\<lambda>e. Some (ec_shutdown C e))\<rparr>"

text \<open>
  The request header: the address, the length of the padding and the padding, which is random and is
  an argument here.
\<close>

definition request_header :: "bytes \<Rightarrow> bytes \<Rightarrow> bytes" where
  "request_header address padding = address @ be16 (length padding) @ padding"

section \<open>The library's writer\<close>

text \<open>
  What \<open>poll_write_encrypted\<close> does with plaintext, as the comment of \<open>Buffered\<close> documents: it encrypts
  one frame of the input and holds it until it is written; on a retry it goes on with the held frame
  whatever the input is, and then reports the length of the current input. \<open>sent\<close> is the plaintext of
  the frames written, \<open>held\<close> that of the frame in progress.
\<close>

definition holds_frame :: "'s crypto_ops \<Rightarrow> ('s \<Rightarrow> bytes) \<Rightarrow> ('s \<Rightarrow> bytes option) \<Rightarrow> bool" where
  "holds_frame C sent held \<longleftrightarrow>
     (\<forall>s x. length x \<le> 8192 \<longrightarrow>
       (let frame = (case held s of None \<Rightarrow> x | Some h \<Rightarrow> h) in
        case cr_write C s x of
          (s', Pending) \<Rightarrow> sent s' = sent s \<and> held s' = Some frame
        | (s', Ready (Inr n)) \<Rightarrow> n = length x \<and> sent s' = sent s @ frame \<and> held s' = None
        | (s', Ready (Inl _)) \<Rightarrow> True))"

text \<open>Between two calls the kept input is the frame in progress.\<close>

definition sb_ok :: "('s \<Rightarrow> bytes option) \<Rightarrow> 's encrypted ss_buffered \<Rightarrow> bool" where
  "sb_ok held b \<longleftrightarrow> sb_pending b = held (ec_stream (sb_stream b)) \<and>
     (case sb_pending b of None \<Rightarrow> True | Some p \<Rightarrow> length p \<le> 8192)"

lemma holds_frameD:
  assumes "holds_frame C sent held" "length x \<le> 8192" "cr_write C s x = (s', r)"
  shows "case r of
      Pending \<Rightarrow> sent s' = sent s \<and> held s' = Some (case held s of None \<Rightarrow> x | Some h \<Rightarrow> h)
    | Ready (Inr n) \<Rightarrow> n = length x \<and> sent s' = sent s @ (case held s of None \<Rightarrow> x | Some h \<Rightarrow> h) \<and> held s' = None
    | Ready (Inl _) \<Rightarrow> True"
proof -
  have "let frame = (case held s of None \<Rightarrow> x | Some h \<Rightarrow> h) in
        case cr_write C s x of
          (s', Pending) \<Rightarrow> sent s' = sent s \<and> held s' = Some frame
        | (s', Ready (Inr n)) \<Rightarrow> n = length x \<and> sent s' = sent s @ frame \<and> held s' = None
        | (s', Ready (Inl _)) \<Rightarrow> True"
    using assms(1,2) unfolding holds_frame_def by blast
  then show ?thesis using assms(3) by (simp add: Let_def split: poll.splits sum.splits)
qed

section \<open>Properties\<close>

text \<open>
  C33. The buffered writer refines the library's writer to a plain one. However a caller's retry grows
  its input, a write that completes reports exactly how much of the caller's data has gone out: the
  plaintext sent grows by the first \<open>n\<close> bytes of the data for the reported \<open>n\<close>, it is pending without
  sending anything, and a retry that does not keep the pending prefix is refused without a change.
\<close>

theorem buffered_write_is_exact:
  assumes "holds_frame C sent held" "sb_ok held b"
  shows "\<exists>b' r. sb_write (encrypted_io C) b data = Some (b', r) \<and>
    (case r of
       Pending \<Rightarrow> sb_ok held b' \<and> sent (ec_stream (sb_stream b')) = sent (ec_stream (sb_stream b)) \<and>
         (\<exists>p. sb_pending b' = Some p \<and> take (length p) data = p)
     | Ready (Inr n) \<Rightarrow> sb_ok held b' \<and> sb_pending b' = None \<and> n \<le> length data \<and>
         sent (ec_stream (sb_stream b')) = sent (ec_stream (sb_stream b)) @ take n data
     | Ready (Inl e) \<Rightarrow> (case sb_pending b of None \<Rightarrow> True | Some p \<Rightarrow> take (length p) data \<noteq> p \<longrightarrow> b' = b \<and> e = Invalid_Input))"
proof (cases "case sb_pending b of None \<Rightarrow> False | Some p \<Rightarrow> take (length p) data \<noteq> p")
  case True
  then show ?thesis by (auto simp: sb_write_def split: option.splits)
next
  case False
  define s where "s = ec_stream (sb_stream b)"
  define input where "input = (case sb_pending b of None \<Rightarrow> take (min (length data) 8192) data | Some p \<Rightarrow> p)"
  have kept: "length input \<le> 8192" "take (length input) data = input"
    "(case held s of None \<Rightarrow> input | Some h \<Rightarrow> h) = input" "sb_pending b = held s"
    using False assms(2) by (auto simp: input_def sb_ok_def s_def min_def split: option.splits)
  have "length (take (length input) data) = length input" using kept(2) by simp
  then have "length input \<le> length data" by simp
  note input = kept(1,2) this kept(3,4)
  obtain s' r where w: "cr_write C s input = (s', r)" by (cases "cr_write C s input")
  note law = holds_frameD [OF assms(1) input(1) w, unfolded input(4)]
  define e' where "e' = (sb_stream b)\<lparr>ec_stream := s'\<rparr>"
  have call: "io_write (encrypted_io C) (sb_stream b) input = Some (e', r)"
    using w by (simp add: encrypted_io_def ec_write_def s_def e'_def)
  have chosen: "(case sb_pending b of Some pending \<Rightarrow> if take (length pending) data = pending then Some pending else None
      | None \<Rightarrow> Some (take (min (length data) 8192) data)) = Some input"
    using False by (auto simp: input_def split: option.splits)
  have res: "sb_write (encrypted_io C) b data =
      Some (case r of Pending \<Rightarrow> (b\<lparr>sb_stream := e', sb_pending := Some input\<rparr>, Pending)
        | _ \<Rightarrow> (b\<lparr>sb_stream := e', sb_pending := None\<rparr>, r))"
    unfolding sb_write_def chosen option.case call using False
    by (auto simp: input_def split: poll.splits option.splits)
  show ?thesis unfolding res using law input False
    by (auto simp: sb_ok_def e'_def s_def split: poll.splits sum.splits option.splits)
qed

text \<open>A writer that takes two polls for a frame.\<close>

definition slow_crypto :: "(bytes \<times> bytes option) crypto_ops" where
  "slow_crypto =
     \<lparr>cr_read = (\<lambda>s n. (s, Ready (Inr (take n [9])))),
      cr_write = (\<lambda>(out, held) x. case held of None \<Rightarrow> ((out, Some x), Pending) | Some h \<Rightarrow> ((out @ h, None), Ready (Inr (length x)))),
      cr_flush = (\<lambda>s. (s, Ready (Inr ()))), cr_shutdown = (\<lambda>s. (s, Ready (Inr ()))),
      cr_received_nonce = (\<lambda>s. Some [1]), cr_sent_nonce = (\<lambda>s. [1])\<rparr>"

definition slow_state :: "(bytes \<times> bytes option) encrypted ss_buffered" where
  "slow_state = \<lparr>sb_stream = \<lparr>ec_stream = ([], Some [1, 2]), ec_failed = False, ec_verified = False\<rparr>, sb_pending = Some [1, 2]\<rparr>"

theorem buffered_write_is_exact_witness:
  "case sb_write (encrypted_io slow_crypto) slow_state [1, 2, 3] of
     Some (b', Ready (Inr n)) \<Rightarrow> n = 2 \<and> fst (ec_stream (sb_stream b')) = take n [1, 2, 3]
   | _ \<Rightarrow> False"
proof -
  have "holds_frame slow_crypto fst snd" by (auto simp: holds_frame_def slow_crypto_def split: option.splits)
  moreover have "sb_ok snd slow_state" by (simp add: sb_ok_def slow_state_def)
  moreover obtain b' where w: "sb_write (encrypted_io slow_crypto) slow_state [1, 2, 3] = Some (b', Ready (Inr 2))"
    by (simp add: sb_write_def slow_state_def encrypted_io_def ec_write_def slow_crypto_def)
  ultimately have "fst (ec_stream (sb_stream b')) = fst (ec_stream (sb_stream slow_state)) @ take 2 [1, 2, 3]"
    using buffered_write_is_exact [of slow_crypto fst snd slow_state "[1, 2, 3]"] by simp
  then show ?thesis using w by (simp add: slow_state_def)
qed

text \<open>Reads of a client one after the other, with what each puts into its caller's buffer.\<close>

fun ec_reads :: "'s crypto_ops \<Rightarrow> 's encrypted \<Rightarrow> nat list \<Rightarrow> 's encrypted \<times> (io_error + bytes) poll list" where
  "ec_reads C e [] = (e, [])"
| "ec_reads C e (n # ns) =
     (case ec_read C e n of (e, r) \<Rightarrow> case ec_reads C e ns of (e, rs) \<Rightarrow> (e, r # rs))"

definition handed_out :: "(io_error + bytes) poll \<Rightarrow> bytes" where
  "handed_out r = (case r of Ready (Inr b) \<Rightarrow> b | _ \<Rightarrow> [])"

lemma ec_reads_failed: "ec_failed e \<Longrightarrow> ec_reads C e ns = (e, replicate (length ns) (Ready (Inl Other_Error)))"
  by (induction ns) (simp_all add: ec_read_def)

lemma ec_reads_withheld:
  assumes "\<forall>s. cr_received_nonce C s \<noteq> Some (cr_sent_nonce C s)" "\<not> ec_verified e" "ec_reads C e ns = (e', rs)"
  shows "\<not> ec_verified e' \<and> list_all (\<lambda>r. handed_out r = []) rs"
  using assms(2,3)
proof (induction ns arbitrary: e rs)
  case (Cons n ns)
  obtain e1 r where r: "ec_read C e n = (e1, r)" by (cases "ec_read C e n")
  have "\<not> ec_verified e1" "handed_out r = []"
    using r Cons.prems(1) assms(1)
    by (auto simp: ec_read_def handed_out_def Let_def split: if_splits prod.splits poll.splits sum.splits)
  with Cons.IH [of e1] Cons.prems(2) r show ?case by (auto split: prod.splits)
qed simp

text \<open>
  C34. No unauthenticated plaintext leaves the reader. When a response echoes another salt than the
  request's, a sequence of reads never puts a byte into a caller's buffer, however they are sized. The
  first read in which the library hands over plaintext sees the mismatch: that read and every one after
  it fail, and the stream is not read any more.
\<close>

theorem mismatched_response_is_withheld:
  assumes "\<forall>s. cr_received_nonce C s \<noteq> Some (cr_sent_nonce C s)" "\<not> ec_verified e" "ec_reads C e ns = (e', rs)"
  shows "\<not> ec_verified e' \<and> list_all (\<lambda>r. handed_out r = []) rs \<and>
    (ec_failed e \<longrightarrow> e' = e \<and> rs = replicate (length ns) (Ready (Inl Other_Error))) \<and>
    (\<forall>n ms s plain. \<not> ec_failed e' \<and> 0 < n \<and> cr_read C (ec_stream e') (min n 8192) = (s, Ready (Inr plain)) \<and> plain \<noteq> [] \<longrightarrow>
       ec_reads C e' (n # ms) =
         (e'\<lparr>ec_stream := s, ec_failed := True\<rparr>, replicate (Suc (length ms)) (Ready (Inl Other_Error))))"
proof -
  have held: "\<not> ec_verified e'" "list_all (\<lambda>r. handed_out r = []) rs" using ec_reads_withheld [OF assms] by simp_all
  have "ec_read C e' n = (e'\<lparr>ec_stream := s, ec_failed := True\<rparr>, Ready (Inl Other_Error))"
    if "\<not> ec_failed e'" "0 < n" "cr_read C (ec_stream e') (min n 8192) = (s, Ready (Inr plain))" "plain \<noteq> []" for n s plain
    using that held(1) assms(1) by (simp add: ec_read_def Let_def)
  then show ?thesis using held assms(3) ec_reads_failed [of e C ns] by (auto simp: ec_reads_failed)
qed

definition foreign_crypto :: "(bytes \<times> bytes option) crypto_ops" where
  "foreign_crypto = slow_crypto\<lparr>cr_received_nonce := (\<lambda>s. Some [2])\<rparr>"

theorem mismatched_response_is_withheld_witness:
  "ec_reads foreign_crypto (sb_stream slow_state) [0] = (sb_stream slow_state, [Ready (Inr [])]) \<and>
    cr_read foreign_crypto (ec_stream (sb_stream slow_state)) (min 4 8192) = (ec_stream (sb_stream slow_state), Ready (Inr [9])) \<and>
    list_all (\<lambda>r. handed_out r = []) [Ready (Inr [])] \<and>
    ec_reads foreign_crypto (sb_stream slow_state) [4, 0, 7] =
      ((sb_stream slow_state)\<lparr>ec_failed := True\<rparr>, [Ready (Inl Other_Error), Ready (Inl Other_Error), Ready (Inl Other_Error)])"
proof -
  have 1: "\<forall>s. cr_received_nonce foreign_crypto s \<noteq> Some (cr_sent_nonce foreign_crypto s)" "\<not> ec_verified (sb_stream slow_state)"
    by (simp_all add: foreign_crypto_def slow_crypto_def slow_state_def)
  have 2: "ec_reads foreign_crypto (sb_stream slow_state) [0] = (sb_stream slow_state, [Ready (Inr [])])"
    by (simp add: ec_read_def slow_state_def)
  have 3: "cr_read foreign_crypto (ec_stream (sb_stream slow_state)) (min 4 8192) = (ec_stream (sb_stream slow_state), Ready (Inr [9]))"
    "\<not> ec_failed (sb_stream slow_state)"
    by (simp_all add: foreign_crypto_def slow_crypto_def slow_state_def)
  note all = mismatched_response_is_withheld [OF 1 2]
  have "ec_reads foreign_crypto (sb_stream slow_state) [4, 0, 7] =
      ((sb_stream slow_state)\<lparr>ec_stream := ec_stream (sb_stream slow_state), ec_failed := True\<rparr>,
       replicate (Suc (length [0 :: nat, 7])) (Ready (Inl Other_Error)))"
    by (rule all [THEN conjunct2, THEN conjunct2, THEN conjunct2, rule_format, of 4 _ "[9]"]) (use 3 in simp)
  then show ?thesis using all [THEN conjunct2, THEN conjunct1] 2 3(1) by (simp add: slow_state_def)
qed

end
