(* ===== verification/Dns_Cache.thy ===== *)
theory Dns_Cache
  imports Prelude
begin

text \<open>
  The cache of DNS responses (\<open>crates/dns/src/cache.rs\<close>): which responses are stored and for how long,
  and how a stored response is aged. Messages are records of the fields the code reads; the cache of
  moka and the operations of hickory on messages are parameters.
\<close>

section \<open>Messages\<close>

datatype response_code = No_Error | Nx_Domain | Other_Code nat

record dns_record =
  dr_type :: nat
  dr_ttl :: nat
  dr_data :: bytes

text \<open>A query is its name and type; \<open>dm_edns\<close> has the EDNS options.\<close>

record dns_message =
  dm_id :: nat
  dm_truncation :: bool
  dm_code :: response_code
  dm_queries :: "(bytes \<times> nat) list"
  dm_answers :: "dns_record list"
  dm_authorities :: "dns_record list"
  dm_additionals :: "dns_record list"
  dm_edns :: "bytes list option"
  dm_signature :: bool

text \<open>\<open>RecordType::SOA\<close> and \<open>RecordType::ANY\<close>.\<close>

definition type_soa :: nat where "type_soa = 6"
definition type_any :: nat where "type_any = 255"

record cache_entry =
  ce_message :: dns_message
  ce_inserted :: instant
  ce_ttl :: duration

text \<open>
  \<open>Message::to_vec\<close>, \<open>negative_ttl\<close> and \<open>DnsResponse::from_message\<close> of hickory, and \<open>get\<close>, \<open>insert\<close> and
  \<open>invalidate\<close> of the moka cache, which expires and evicts entries as it likes.
\<close>

record 'c dns_env =
  de_encode :: "dns_message \<Rightarrow> bytes option"
  de_negative_ttl :: "dns_message \<Rightarrow> nat option"
  de_response :: "dns_message \<Rightarrow> bool"
  de_get :: "'c \<Rightarrow> bytes \<Rightarrow> cache_entry option"
  de_insert :: "'c \<Rightarrow> bytes \<Rightarrow> cache_entry \<Rightarrow> 'c"
  de_invalidate :: "'c \<Rightarrow> bytes \<Rightarrow> 'c"

section \<open>The response cache\<close>

definition SECOND :: nat where "SECOND = 1000000000"

definition has_options :: "dns_message \<Rightarrow> bool" where
  "has_options m \<longleftrightarrow> (case dm_edns m of None \<Rightarrow> False | Some options \<Rightarrow> options \<noteq> [])"

definition cache_key :: "'c dns_env \<Rightarrow> dns_message \<Rightarrow> bytes option" where
  "cache_key E request =
     (if dm_signature request \<or> dm_additionals request \<noteq> [] \<or> has_options request then None
      else de_encode E (request\<lparr>dm_id := 0\<rparr>))"

definition all_records :: "dns_message \<Rightarrow> dns_record list" where
  "all_records m = dm_answers m @ dm_authorities m @ dm_additionals m"

definition age_record :: "nat \<Rightarrow> dns_record \<Rightarrow> dns_record" where
  "age_record seconds r = r\<lparr>dr_ttl := dr_ttl r - seconds\<rparr>"

definition age_message :: "dns_message \<Rightarrow> dns_message \<Rightarrow> nat \<Rightarrow> dns_message" where
  "age_message message request seconds =
     message\<lparr>dm_id := dm_id request, dm_queries := dm_queries request,
       dm_answers := map (age_record seconds) (dm_answers message),
       dm_authorities := map (age_record seconds) (dm_authorities message),
       dm_additionals := map (age_record seconds) (dm_additionals message)\<rparr>"

definition cache_get :: "'c dns_env \<Rightarrow> 'c \<Rightarrow> bytes \<Rightarrow> dns_message \<Rightarrow> instant \<Rightarrow> 'c \<times> dns_message option" where
  "cache_get E c key request now =
     (case de_get E c key of
        None \<Rightarrow> (c, None)
      | Some entry \<Rightarrow>
          let elapsed = now - ce_inserted entry in
          if ce_ttl entry \<le> elapsed then (de_invalidate E c key, None)
          else
            let seconds = min (elapsed div SECOND) 4294967295;
                message = age_message (ce_message entry) request seconds
            in (c, if de_response E message then Some message else None))"

definition positive :: "dns_message \<Rightarrow> bool" where
  "positive m \<longleftrightarrow>
     (let query_type = (case dm_queries m of [] \<Rightarrow> None | q # _ \<Rightarrow> Some (snd q)) in
      dm_code m = No_Error \<and>
      list_ex (\<lambda>r. Some (dr_type r) = query_type \<or> query_type = Some type_any) (dm_answers m))"

definition min_ttl :: "dns_record list \<Rightarrow> nat option" where
  "min_ttl rs = (case map dr_ttl rs of [] \<Rightarrow> None | t # ts \<Rightarrow> Some (foldl min t ts))"

text \<open>The lifetime of a response in seconds, \<open>None\<close> when it is not stored.\<close>

definition cache_ttl :: "'c dns_env \<Rightarrow> dns_message \<Rightarrow> nat option" where
  "cache_ttl E response =
     (if dm_truncation response \<or> dm_signature response \<or>
         \<not> (dm_code response = No_Error \<or> dm_code response = Nx_Domain) \<or> has_options response then None
      else
        let records_ttl = min_ttl (all_records response);
            ttl = (if positive response then records_ttl
                   else map_option (\<lambda>ttl. case records_ttl of None \<Rightarrow> ttl | Some records \<Rightarrow> min records ttl)
                          (de_negative_ttl E response))
        in case ttl of None \<Rightarrow> None | Some t \<Rightarrow> if 0 < t then Some t else None)"

definition stored_message :: "dns_message \<Rightarrow> nat \<Rightarrow> dns_message" where
  "stored_message response ttl =
     (if positive response then response
      else response\<lparr>dm_authorities :=
             map (\<lambda>r. if dr_type r = type_soa then r\<lparr>dr_ttl := min (dr_ttl r) ttl\<rparr> else r) (dm_authorities response)\<rparr>)"

definition cache_insert :: "'c dns_env \<Rightarrow> 'c \<Rightarrow> bytes \<Rightarrow> dns_message \<Rightarrow> instant \<Rightarrow> 'c" where
  "cache_insert E c key response now =
     (case cache_ttl E response of
        None \<Rightarrow> c
      | Some ttl \<Rightarrow>
          de_insert E c key \<lparr>ce_message = stored_message response ttl, ce_inserted = now, ce_ttl = ttl * SECOND\<rparr>)"

section \<open>Histories\<close>

datatype cache_op = Op_Insert bytes dns_message instant | Op_Get bytes dns_message instant

fun cache_step :: "'c dns_env \<Rightarrow> 'c \<Rightarrow> cache_op \<Rightarrow> 'c" where
  "cache_step E c (Op_Insert key response now) = cache_insert E c key response now"
| "cache_step E c (Op_Get key request now) = fst (cache_get E c key request now)"

definition cache_run :: "'c dns_env \<Rightarrow> 'c \<Rightarrow> cache_op list \<Rightarrow> 'c" where
  "cache_run E c ops = foldl (cache_step E) c ops"

text \<open>
  What the cache of moka promises: a lookup returns the entry inserted last for that key and not
  invalidated since, or nothing.
\<close>

definition moka :: "'c dns_env \<Rightarrow> 'c \<Rightarrow> bool" where
  "moka E c0 \<longleftrightarrow> (\<forall>k. de_get E c0 k = None) \<and>
     (\<forall>c k e k' e'. de_get E (de_insert E c k e) k' = Some e' \<longrightarrow> (if k' = k then e' = e else de_get E c k' = Some e')) \<and>
     (\<forall>c k k' e'. de_get E (de_invalidate E c k) k' = Some e' \<longrightarrow> k' \<noteq> k \<and> de_get E c k' = Some e')"

text \<open>The last insertion for a key in a history that is stored.\<close>

fun last_stored :: "'c dns_env \<Rightarrow> bytes \<Rightarrow> cache_op list \<Rightarrow> (dns_message \<times> instant \<times> nat) option" where
  "last_stored E key [] = None"
| "last_stored E key (Op_Get _ _ _ # ops) = last_stored E key ops"
| "last_stored E key (Op_Insert k response now # ops) =
     (if k = key then
        (case cache_ttl E response of None \<Rightarrow> last_stored E key ops | Some ttl \<Rightarrow> Some (response, now, ttl))
      else last_stored E key ops)"

lemma foldl_min: "foldl min t ts \<le> t \<and> (\<forall>x \<in> set ts. foldl min t ts \<le> x)" for t :: nat
proof (induction ts arbitrary: t)
  case (Cons a ts)
  from Cons.IH [of "min t a"] show ?case by auto
qed simp

lemma min_ttl_le: "min_ttl rs = Some t \<Longrightarrow> r \<in> set rs \<Longrightarrow> t \<le> dr_ttl r"
  using foldl_min by (cases rs) (auto simp: min_ttl_def)

lemma cache_ttl_le:
  assumes "cache_ttl E m = Some t"
  shows "0 < t" "r \<in> set (all_records m) \<Longrightarrow> t \<le> dr_ttl r"
proof -
  show "0 < t" using assms by (auto simp: cache_ttl_def Let_def split: if_splits option.splits)
  assume r: "r \<in> set (all_records m)"
  then obtain u where u: "min_ttl (all_records m) = Some u"
    by (cases "all_records m") (auto simp: min_ttl_def)
  have "t \<le> u" using assms u by (auto simp: cache_ttl_def Let_def split: if_splits option.splits)
  with min_ttl_le [OF u r] show "t \<le> dr_ttl r" by simp
qed

lemma stored_ttl_le:
  assumes "cache_ttl E m = Some t" "r \<in> set (all_records (stored_message m t))"
  shows "t \<le> dr_ttl r"
  using assms(2) cache_ttl_le(2) [OF assms(1)]
  by (auto simp: stored_message_def all_records_def split: if_splits)

lemma moka_laws:
  assumes "moka E c0"
  shows "de_get E c0 k = None"
    "de_get E (de_insert E c k e) k' = Some e' \<Longrightarrow> if k' = k then e' = e else de_get E c k' = Some e'"
    "de_get E (de_invalidate E c k) k' = Some e' \<Longrightarrow> de_get E c k' = Some e'"
  using assms unfolding moka_def by blast+

lemma cache_run_entry:
  assumes "moka E c0"
  shows "de_get E (cache_run E c0 ops) key = Some e \<Longrightarrow>
    \<exists>response t0 ttl. last_stored E key (rev ops) = Some (response, t0, ttl) \<and> cache_ttl E response = Some ttl \<and>
      e = \<lparr>ce_message = stored_message response ttl, ce_inserted = t0, ce_ttl = ttl * SECOND\<rparr>"
proof (induction ops arbitrary: e rule: rev_induct)
  case Nil
  then show ?case using moka_laws(1) [OF assms] by (simp add: cache_run_def)
next
  case (snoc x ops)
  define c where "c = cache_run E c0 ops"
  have g: "de_get E (cache_step E c x) key = Some e" using snoc.prems by (simp add: cache_run_def c_def)
  show ?case
  proof (cases x)
    case (Op_Insert k response now)
    show ?thesis
    proof (cases "cache_ttl E response")
      case None
      then show ?thesis using g Op_Insert snoc.IH [of e] by (simp add: cache_insert_def c_def)
    next
      case (Some ttl)
      let ?e = "\<lparr>ce_message = stored_message response ttl, ce_inserted = now, ce_ttl = ttl * SECOND\<rparr>"
      have "if key = k then e = ?e else de_get E c key = Some e"
        using g Op_Insert Some by (intro moka_laws(2) [OF assms]) (simp add: cache_insert_def)
      then show ?thesis using Op_Insert Some snoc.IH [of e] by (auto simp: c_def split: if_splits)
    qed
  next
    case (Op_Get k request now)
    have "fst (cache_get E c k request now) = c \<or> fst (cache_get E c k request now) = de_invalidate E c k"
      by (auto simp: cache_get_def Let_def split: option.splits)
    then have "de_get E c key = Some e"
    proof
      assume "fst (cache_get E c k request now) = de_invalidate E c k"
      then show ?thesis using g Op_Get by (intro moka_laws(3) [OF assms, of c k]) simp
    qed (use g Op_Get in simp)
    then show ?thesis using Op_Get snoc.IH [of e] by (simp add: c_def)
  qed
qed

section \<open>Properties\<close>

text \<open>
  C35. A cached response is never served past its lifetime. After any history of insertions and lookups
  on an empty cache, a response returned for a key is the last one stored for that key, less than its
  lifetime ago; it has the id and the queries of the request, and every record's TTL is the stored one
  less the whole seconds elapsed, and still positive.
\<close>

theorem cached_response_is_fresh:
  assumes "moka E c0" "cache_get E (cache_run E c0 ops) key request now = (c, Some m)"
  shows "\<exists>response t0 ttl. last_stored E key (rev ops) = Some (response, t0, ttl) \<and> cache_ttl E response = Some ttl \<and>
    now - t0 < ttl * SECOND \<and> m = age_message (stored_message response ttl) request (min ((now - t0) div SECOND) 4294967295) \<and>
    dm_id m = dm_id request \<and> dm_queries m = dm_queries request \<and> list_all (\<lambda>r. 0 < dr_ttl r) (all_records m) \<and>
    map (\<lambda>r. (dr_type r, dr_ttl r, dr_data r)) (all_records m) =
      map (\<lambda>r. (dr_type r, dr_ttl r - min ((now - t0) div SECOND) 4294967295, dr_data r)) (all_records (stored_message response ttl))"
proof -
  obtain e where e: "de_get E (cache_run E c0 ops) key = Some e" "\<not> ce_ttl e \<le> now - ce_inserted e"
    "m = age_message (ce_message e) request (min ((now - ce_inserted e) div SECOND) 4294967295)"
    using assms(2) by (auto simp: cache_get_def Let_def split: option.splits if_splits)
  obtain response t0 ttl where s: "last_stored E key (rev ops) = Some (response, t0, ttl)" "cache_ttl E response = Some ttl"
    "e = \<lparr>ce_message = stored_message response ttl, ce_inserted = t0, ce_ttl = ttl * SECOND\<rparr>"
    using cache_run_entry [OF assms(1) e(1)] by blast
  have fresh: "now - t0 < ttl * SECOND" using e(2) s(3) by simp
  define secs where "secs = min ((now - t0) div SECOND) 4294967295"
  have "(now - t0) div SECOND < ttl" using fresh by (simp add: less_mult_imp_div_less)
  then have secs: "secs < ttl" by (simp add: secs_def)
  have m: "m = age_message (stored_message response ttl) request secs" using e(3) s(3) by (simp add: secs_def)
  have aged: "all_records m = map (age_record secs) (all_records (stored_message response ttl))"
    by (simp add: m age_message_def all_records_def)
  then have "list_all (\<lambda>r. 0 < dr_ttl r) (all_records m)"
    using stored_ttl_le [OF s(2)] secs by (force simp: list_all_iff age_record_def)
  moreover have "map (\<lambda>r. (dr_type r, dr_ttl r, dr_data r)) (all_records m) =
      map (\<lambda>r. (dr_type r, dr_ttl r - secs, dr_data r)) (all_records (stored_message response ttl))"
    unfolding aged by (simp add: age_record_def)
  moreover have "dm_id m = dm_id request" "dm_queries m = dm_queries request" by (simp_all add: m age_message_def)
  ultimately show ?thesis using s fresh m unfolding secs_def by blast
qed

text \<open>A cache that keeps everything.\<close>

definition map_env :: "(bytes \<times> cache_entry) list dns_env" where
  "map_env =
     \<lparr>de_encode = (\<lambda>m. Some [of_nat (dm_id m)]), de_negative_ttl = (\<lambda>m. None), de_response = (\<lambda>m. True),
      de_get = map_of, de_insert = (\<lambda>c k e. (k, e) # c), de_invalidate = (\<lambda>c k. filter (\<lambda>(k', _). k' \<noteq> k) c)\<rparr>"

lemma map_of_filter_key: "map_of (filter (\<lambda>(k', _). k' \<noteq> k) c) x = (if x = k then None else map_of c x)"
  by (induction c) auto

definition sample_answer :: dns_message where
  "sample_answer =
     \<lparr>dm_id = 7, dm_truncation = False, dm_code = No_Error, dm_queries = [([97], 1)],
      dm_answers = [\<lparr>dr_type = 1, dr_ttl = 60, dr_data = []\<rparr>], dm_authorities = [], dm_additionals = [],
      dm_edns = None, dm_signature = False\<rparr>"

theorem cached_response_is_fresh_witness:
  "case cache_get map_env (cache_run map_env [] [Op_Insert [1] sample_answer 0]) [1] (sample_answer\<lparr>dm_id := 9\<rparr>) (10 * SECOND) of
     (_, Some m) \<Rightarrow> dm_id m = 9 \<and> list_all (\<lambda>r. 0 < dr_ttl r) (all_records m)
   | _ \<Rightarrow> False"
proof -
  have moka: "moka map_env []" by (auto simp: moka_def map_env_def map_of_filter_key split: if_splits)
  obtain c m where g: "cache_get map_env (cache_run map_env [] [Op_Insert [1] sample_answer 0]) [1] (sample_answer\<lparr>dm_id := 9\<rparr>) (10 * SECOND) =
      (c, Some m)"
    by (simp add: cache_get_def cache_run_def cache_insert_def cache_ttl_def has_options_def positive_def min_ttl_def
        all_records_def sample_answer_def map_env_def SECOND_def Let_def)
  from cached_response_is_fresh [OF moka g] show ?thesis unfolding g by auto
qed

end
