(* ===== verification/Anytls_Wire.thy ===== *)
theory Anytls_Wire
  imports Target
begin

text \<open>
  The AnyTLS wire layer (\<open>crates/anytls/src/wire.rs\<close>): authentication, destination addresses, the split
  of application writes into padded records, the validation of a padding scheme and the frame decoder.
  A reader is its remaining input and a writer the list of its writes. The frame codec and the padding
  factory of the anytls library, the SOCKS address codec and SHA-256 are parameters; the record sizes
  the library draws at random are the function \<open>pd_sizes\<close> of the padding.
\<close>

datatype anytls_error =
    Authentication_Failed
  | Invalid_Padding
  | Record_Too_Large
  | Empty_Domain
  | Invalid_Address
  | Invalid_Mode
  | Packet_Too_Large
  | Encoding_Failed
  | Scheme_Error
  | Read_Error io_error

section \<open>Parameters\<close>

record any_frame =
  af_command :: byte
  af_stream :: "32 word"
  af_data :: bytes

record padding =
  pd_stop :: nat
  pd_sizes :: "nat \<Rightarrow> int list"

record any_env =
  ae_digest :: "bytes \<Rightarrow> bytes"
  ae_encode :: "any_frame \<Rightarrow> bytes option"
  ae_parse :: "bytes \<Rightarrow> any_frame option"
  ae_check_mark :: int
  ae_waste :: byte
  ae_default :: padding
  ae_factory :: "bytes \<Rightarrow> padding option"
  ae_address :: "target \<Rightarrow> bytes option"
  ae_read_address :: "byte \<Rightarrow> bytes \<Rightarrow> (target \<times> bytes) option"

definition HEADER_OVERHEAD_SIZE :: nat where "HEADER_OVERHEAD_SIZE = 7"

section \<open>Authentication\<close>

definition password_hash :: "any_env \<Rightarrow> bytes \<Rightarrow> bytes" where
  "password_hash E password = ae_digest E password"

definition any_read_exact :: "nat \<Rightarrow> bytes \<Rightarrow> anytls_error + bytes \<times> bytes" where
  "any_read_exact n input = (if n \<le> length input then Inr (take n input, drop n input) else Inl (Read_Error Unexpected_Eof))"

definition authenticate :: "bytes \<Rightarrow> bytes \<Rightarrow> anytls_error + bytes" where
  "authenticate password input =
     try_res (any_read_exact 32 input) (\<lambda>(supplied, input).
     ensure (password = supplied) Authentication_Failed
       (try_res (any_read_exact 2 input) (\<lambda>(b, input).
        try_res (any_read_exact (u16_of (b ! 0) (b ! 1)) input) (\<lambda>(_, input). Inr input))))"

definition send_authentication :: "bytes \<Rightarrow> padding \<Rightarrow> anytls_error + bytes" where
  "send_authentication password p =
     (let sz = (case pd_sizes p 0 of [] \<Rightarrow> 0 | s # _ \<Rightarrow> s) in
      ensure (0 \<le> sz \<and> sz \<le> 65535) Invalid_Padding
        (Inr (password @ be16 (nat sz) @ replicate (nat sz) 0)))"

section \<open>Addresses\<close>

definition any_address :: "any_env \<Rightarrow> target \<Rightarrow> anytls_error + bytes" where
  "any_address E t =
     (case t of
        Domain name port \<Rightarrow> ensure (name \<noteq> []) Empty_Domain (or_error (ae_address E t) Invalid_Address)
      | Ip a port \<Rightarrow> or_error (ae_address E t) Invalid_Address)"

definition read_target_family :: "any_env \<Rightarrow> byte \<Rightarrow> bytes \<Rightarrow> anytls_error + target \<times> bytes" where
  "read_target_family E family input =
     try_res (or_error (ae_read_address E family input) Invalid_Address) (\<lambda>(t, input).
       case t of
         Ip a port \<Rightarrow> Inr (Ip a port, input)
       | Domain name port \<Rightarrow> ensure (name \<noteq> []) Empty_Domain (Inr (Domain name port, input)))"

definition read_target :: "any_env \<Rightarrow> bytes \<Rightarrow> anytls_error + target \<times> bytes" where
  "read_target E input = try_res (any_read_exact 1 input) (\<lambda>(b, input). read_target_family E (b ! 0) input)"

section \<open>Padded records\<close>

text \<open>The loop over the record sizes: the writes, and the bytes left or the error.\<close>

fun record_loop :: "any_env \<Rightarrow> int list \<Rightarrow> bytes \<Rightarrow> bytes list \<Rightarrow> bytes list \<times> (anytls_error + bytes)" where
  "record_loop E [] bytes out = (out, Inr bytes)"
| "record_loop E (sz # sizes) bytes out =
     (if sz = ae_check_mark E then
        (if bytes = [] then (out, Inr bytes) else record_loop E sizes bytes out)
      else if sz < 0 then (out, Inl Invalid_Padding)
      else if 65535 < sz then (out, Inl Record_Too_Large)
      else if nat sz \<le> length bytes then record_loop E sizes (drop (nat sz) bytes) (out @ [take (nat sz) bytes])
      else if length bytes + HEADER_OVERHEAD_SIZE \<le> nat sz then
        (case ae_encode E \<lparr>af_command = ae_waste E, af_stream = 0,
                 af_data = replicate (nat sz - length bytes - HEADER_OVERHEAD_SIZE) 0\<rparr> of
           None \<Rightarrow> (out, Inl Encoding_Failed)
         | Some waste \<Rightarrow> record_loop E sizes [] (out @ [bytes @ waste]))
      else record_loop E sizes [] (out @ [bytes]))"

definition write_records :: "any_env \<Rightarrow> bytes \<Rightarrow> padding option \<Rightarrow> nat \<Rightarrow> bytes list \<times> (anytls_error + unit)" where
  "write_records E bytes p packet =
     (let sizes = (case p of Some p \<Rightarrow> if packet < pd_stop p then pd_sizes p packet else [] | None \<Rightarrow> []) in
      case record_loop E sizes bytes [] of
        (out, Inl e) \<Rightarrow> (out, Inl e)
      | (out, Inr rest) \<Rightarrow> (out @ [rest], Inr ()))"

section \<open>Padding schemes\<close>

text \<open>\<open>split_once\<close>, \<open>split\<close>, \<open>lines\<close> and \<open>parse::<u32>\<close> of the standard library.\<close>

fun split_once :: "byte \<Rightarrow> bytes \<Rightarrow> (bytes \<times> bytes) option" where
  "split_once c [] = None"
| "split_once c (b # s) = (if b = c then Some ([], s) else map_option (\<lambda>(x, y). (b # x, y)) (split_once c s))"

fun split_at :: "byte \<Rightarrow> bytes \<Rightarrow> bytes list" where
  "split_at c [] = [[]]"
| "split_at c (b # s) =
     (case split_at c s of
        [] \<Rightarrow> [[b]]
      | x # xs \<Rightarrow> if b = c then [] # x # xs else (b # x) # xs)"

definition text_lines :: "bytes \<Rightarrow> bytes list" where
  "text_lines s =
     (let parts = split_at 10 s;
          parts = (if last parts = [] then butlast parts else parts)
      in map (\<lambda>l. if l \<noteq> [] \<and> last l = 13 then butlast l else l) parts)"

definition parse_u32 :: "bytes \<Rightarrow> nat option" where
  "parse_u32 s =
     (let d = (case s of [] \<Rightarrow> [] | c # t \<Rightarrow> if c = 43 \<and> t \<noteq> [] then t else s)
      in if d \<noteq> [] \<and> list_all is_digit d \<and> decimal_value d \<le> 4294967295 then Some (decimal_value d) else None)"

definition range_valid :: "bytes \<Rightarrow> bytes \<Rightarrow> bool" where
  "range_valid key item \<longleftrightarrow>
     (item = [99] \<and> key \<noteq> [48]) \<or>
     (case split_once 45 item of
        None \<Rightarrow> False
      | Some (lo, hi) \<Rightarrow>
          (case (parse_u16 lo, parse_u16 hi) of (Some a, Some b) \<Rightarrow> 0 < a \<and> 0 < b | _ \<Rightarrow> False))"

definition stop_key :: bytes where "stop_key = [115, 116, 111, 112]"

definition line_valid :: "bytes \<Rightarrow> bool" where
  "line_valid l =
     (case split_once 61 l of
        None \<Rightarrow> False
      | Some (key, value) \<Rightarrow>
          if key = stop_key then parse_u32 value \<noteq> None
          else parse_u32 key \<noteq> None \<and> list_all (range_valid key) (split_at 44 value))"

definition padding_scheme :: "any_env \<Rightarrow> bytes option \<Rightarrow> anytls_error + padding" where
  "padding_scheme E raw =
     (case raw of
        None \<Rightarrow> Inr (ae_default E)
      | Some raw \<Rightarrow>
          ensure (length raw \<le> 65535) Scheme_Error
            (ensure (list_all line_valid (text_lines raw)) Scheme_Error
               (or_error (ae_factory E raw) Scheme_Error)))"

section \<open>The frame decoder\<close>

text \<open>\<open>None\<close> is the failing assertion or the overrunning advance.\<close>

definition frames_decode :: "any_env \<Rightarrow> bytes \<Rightarrow> (bytes \<times> any_frame option) option" where
  "frames_decode E bytes =
     (case ae_parse E bytes of
        None \<Rightarrow> Some (bytes, None)
      | Some f \<Rightarrow>
          let consumed = HEADER_OVERHEAD_SIZE + length (af_data f) in
          if consumed \<le> length bytes then Some (drop consumed bytes, Some f) else None)"

lemma frames_decode_shorter: "frames_decode E b = Some (b', Some f) \<Longrightarrow> length b' < length b"
  by (auto simp: frames_decode_def HEADER_OVERHEAD_SIZE_def Let_def split: option.splits if_splits)

text \<open>Decoding as often as there is a frame, as \<open>FramedRead\<close> does.\<close>

function decode_all :: "any_env \<Rightarrow> bytes \<Rightarrow> (bytes \<times> any_frame list) option" where
  "decode_all E b =
     (case frames_decode E b of
        None \<Rightarrow> None
      | Some (b, None) \<Rightarrow> Some (b, [])
      | Some (b, Some f) \<Rightarrow> map_option (\<lambda>(r, fs). (r, f # fs)) (decode_all E b))"
  by pat_completeness auto
termination by (relation "measure (\<lambda>(E, b). length b)") (auto dest: frames_decode_shorter)

declare decode_all.simps [simp del]

section \<open>Lemmas\<close>

text \<open>
  What the frame codec promises: a frame whose data fits a \<open>u16\<close> encodes to its header and data, it is
  read back from the front of any input, and there is no frame in an empty input.
\<close>

definition frame_codec :: "any_env \<Rightarrow> bool" where
  "frame_codec E \<longleftrightarrow> ae_parse E [] = None \<and>
     (\<forall>f. length (af_data f) \<le> 65535 \<longrightarrow>
        (\<exists>b. ae_encode E f = Some b \<and> length b = HEADER_OVERHEAD_SIZE + length (af_data f) \<and>
           (\<forall>rest. ae_parse E (b @ rest) = Some f)))"

definition encoded :: "any_env \<Rightarrow> any_frame list \<Rightarrow> bytes" where
  "encoded E fs = concat (map (\<lambda>f. case ae_encode E f of None \<Rightarrow> [] | Some b \<Rightarrow> b) fs)"

definition frame_fits :: "any_frame \<Rightarrow> bool" where
  "frame_fits f \<longleftrightarrow> length (af_data f) \<le> 65535"

lemma codec_frame:
  assumes "frame_codec E" "frame_fits f"
  obtains b where "ae_encode E f = Some b" "length b = HEADER_OVERHEAD_SIZE + length (af_data f)"
    "\<forall>rest. ae_parse E (b @ rest) = Some f"
  using assms unfolding frame_codec_def frame_fits_def by blast

lemma encoded_append: "encoded E (fs @ gs) = encoded E fs @ encoded E gs"
  by (simp add: encoded_def)

lemma decode_all_encoded:
  assumes "frame_codec E"
  shows "list_all frame_fits fs \<Longrightarrow> decode_all E (encoded E fs) = Some ([], fs)"
proof (induction fs)
  case Nil
  have "ae_parse E [] = None" using assms unfolding frame_codec_def by blast
  then have "decode_all E [] = Some ([], [])" by (subst decode_all.simps) (simp add: frames_decode_def)
  then show ?case by (simp add: encoded_def)
next
  case (Cons f fs)
  have fits: "frame_fits f" "list_all frame_fits fs" using Cons.prems by simp_all
  obtain b where b: "ae_encode E f = Some b" "length b = HEADER_OVERHEAD_SIZE + length (af_data f)"
    "\<forall>rest. ae_parse E (b @ rest) = Some f"
    by (rule codec_frame [OF assms fits(1)])
  have enc: "encoded E (f # fs) = b @ encoded E fs" using b(1) by (simp add: encoded_def)
  have "frames_decode E (b @ encoded E fs) = Some (encoded E fs, Some f)"
    using b(2,3) by (simp add: frames_decode_def Let_def)
  then have "decode_all E (b @ encoded E fs) = map_option (\<lambda>(r, fs). (r, f # fs)) (decode_all E (encoded E fs))"
    by (subst decode_all.simps) simp
  then show ?case using Cons.IH [OF fits(2)] by (simp add: enc)
qed

definition waste_frame :: "any_env \<Rightarrow> nat \<Rightarrow> any_frame" where
  "waste_frame E n = \<lparr>af_command = ae_waste E, af_stream = 0, af_data = replicate n 0\<rparr>"

definition sizes_valid :: "any_env \<Rightarrow> int list \<Rightarrow> bool" where
  "sizes_valid E sizes \<longleftrightarrow> list_all (\<lambda>s. s = ae_check_mark E \<or> 0 \<le> s \<and> s \<le> 65535) sizes"

lemma record_loop_appends_waste:
  assumes "frame_codec E"
  shows "sizes_valid E sizes \<Longrightarrow> \<exists>out' rest ns. record_loop E sizes bytes out = (out @ out', Inr rest) \<and>
    concat out' @ rest = bytes @ encoded E (map (waste_frame E) ns) \<and> list_all (\<lambda>n. n \<le> 65535) ns \<and> (ns \<noteq> [] \<longrightarrow> rest = [])"
proof (induction sizes arbitrary: bytes out)
  case Nil
  show ?case by (rule exI [of _ "[]"], rule exI [of _ bytes], rule exI [of _ "[]"]) (simp add: encoded_def)
next
  case (Cons sz sizes)
  have sizes: "sizes_valid E sizes" using Cons.prems by (simp add: sizes_valid_def)
  note IH = Cons.IH [OF sizes]
  consider (mark) "sz = ae_check_mark E" | (fit) "sz \<noteq> ae_check_mark E" "0 \<le> sz" "sz \<le> 65535" "nat sz \<le> length bytes"
    | (pad) "sz \<noteq> ae_check_mark E" "0 \<le> sz" "sz \<le> 65535" "length bytes + HEADER_OVERHEAD_SIZE \<le> nat sz"
    | (short) "sz \<noteq> ae_check_mark E" "0 \<le> sz" "sz \<le> 65535" "length bytes < nat sz" "nat sz < length bytes + HEADER_OVERHEAD_SIZE"
    using Cons.prems unfolding sizes_valid_def by force
  then show ?case
  proof cases
    case mark
    show ?thesis
    proof (cases "bytes = []")
      case True
      then show ?thesis using mark by (intro exI [of _ "[]"]) (simp add: encoded_def)
    next
      case False
      then show ?thesis using mark IH [of bytes out] by simp
    qed
  next
    case fit
    obtain out' rest ns where r: "record_loop E sizes (drop (nat sz) bytes) (out @ [take (nat sz) bytes]) =
        ((out @ [take (nat sz) bytes]) @ out', Inr rest)"
      "concat out' @ rest = drop (nat sz) bytes @ encoded E (map (waste_frame E) ns)" "list_all (\<lambda>n. n \<le> 65535) ns" "ns \<noteq> [] \<longrightarrow> rest = []"
      using IH [of "drop (nat sz) bytes" "out @ [take (nat sz) bytes]"] by blast
    have "concat (take (nat sz) bytes # out') @ rest = bytes @ encoded E (map (waste_frame E) ns)"
      using r(2) by (metis append.assoc append_take_drop_id concat.simps(2))
    then show ?thesis using fit r by (intro exI [of _ "take (nat sz) bytes # out'"] exI [of _ rest] exI [of _ ns]) simp
  next
    case pad
    define n where "n = nat sz - length bytes - HEADER_OVERHEAD_SIZE"
    have n: "n \<le> 65535" "frame_fits (waste_frame E n)" using pad(3) by (auto simp: n_def frame_fits_def waste_frame_def)
    obtain w where w: "ae_encode E (waste_frame E n) = Some w" by (rule codec_frame [OF assms n(2)])
    obtain out' rest ns where r: "record_loop E sizes [] (out @ [bytes @ w]) = ((out @ [bytes @ w]) @ out', Inr rest)"
      "concat out' @ rest = [] @ encoded E (map (waste_frame E) ns)" "list_all (\<lambda>n. n \<le> 65535) ns" "ns \<noteq> [] \<longrightarrow> rest = []"
      using IH [of "[]" "out @ [bytes @ w]"] by blast
    have "rest = []" using r(2,4) by (cases ns) (auto simp: encoded_def)
    moreover have "record_loop E (sz # sizes) bytes out = record_loop E sizes [] (out @ [bytes @ w])"
      using pad w by (simp add: waste_frame_def n_def HEADER_OVERHEAD_SIZE_def)
    moreover have "encoded E (map (waste_frame E) (n # ns)) = w @ encoded E (map (waste_frame E) ns)"
      using w by (simp add: encoded_def)
    ultimately show ?thesis using r n(1) by (intro exI [of _ "(bytes @ w) # out'"] exI [of _ rest] exI [of _ "n # ns"]) auto
  next
    case short
    obtain out' rest ns where r: "record_loop E sizes [] (out @ [bytes]) = ((out @ [bytes]) @ out', Inr rest)"
      "concat out' @ rest = [] @ encoded E (map (waste_frame E) ns)" "list_all (\<lambda>n. n \<le> 65535) ns" "ns \<noteq> [] \<longrightarrow> rest = []"
      using IH [of "[]" "out @ [bytes]"] by blast
    then show ?thesis using short by (intro exI [of _ "bytes # out'"] exI [of _ rest] exI [of _ ns]) auto
  qed
qed

section \<open>Properties\<close>

text \<open>
  C36. Padding never disturbs the frames. Whatever valid record sizes are drawn, writing the encoding of
  frames succeeds, and the peer that decodes the concatenated records gets exactly those frames, in
  order, followed by waste frames only, with nothing left over and no failing assertion.
\<close>

theorem padded_records_decode:
  assumes "frame_codec E" "list_all frame_fits fs" "case p of None \<Rightarrow> True | Some q \<Rightarrow> sizes_valid E (pd_sizes q packet)"
  shows "\<exists>out ns. write_records E (encoded E fs) p packet = (out, Inr ()) \<and>
    concat out = encoded E fs @ encoded E (map (waste_frame E) ns) \<and>
    decode_all E (concat out) = Some ([], fs @ map (waste_frame E) ns)"
proof -
  define sizes where "sizes = (case p of Some p \<Rightarrow> if packet < pd_stop p then pd_sizes p packet else [] | None \<Rightarrow> [])"
  have "sizes_valid E sizes" using assms(3) by (auto simp: sizes_def sizes_valid_def split: option.splits)
  then obtain out rest ns where r: "record_loop E sizes (encoded E fs) [] = ([] @ out, Inr rest)"
    "concat out @ rest = encoded E fs @ encoded E (map (waste_frame E) ns)" "list_all (\<lambda>n. n \<le> 65535) ns"
    using record_loop_appends_waste [OF assms(1), of sizes "encoded E fs" "[]"] by blast
  have "write_records E (encoded E fs) p packet = (out @ [rest], Inr ())"
    using r(1) by (simp add: write_records_def sizes_def [symmetric] Let_def)
  moreover have "list_all frame_fits (fs @ map (waste_frame E) ns)"
    using assms(2) r(3) by (auto simp: list_all_iff frame_fits_def waste_frame_def)
  from decode_all_encoded [OF assms(1) this]
  have "decode_all E (concat (out @ [rest])) = Some ([], fs @ map (waste_frame E) ns)"
    using r(2) by (simp add: encoded_append)
  ultimately show ?thesis using r(2) by auto
qed

text \<open>A frame codec: command, stream and length in front of the data.\<close>

definition any_sample_encode :: "any_frame \<Rightarrow> bytes option" where
  "any_sample_encode f =
     (if length (af_data f) \<le> 65535
      then Some (af_command f # be32 (unat (af_stream f)) @ be16 (length (af_data f)) @ af_data f) else None)"

definition any_sample_parse :: "bytes \<Rightarrow> any_frame option" where
  "any_sample_parse b =
     (case b of
        c # s0 # s1 # s2 # s3 # n0 # n1 # rest \<Rightarrow>
          if length rest < u16_of n0 n1 then None
          else Some \<lparr>af_command = c, af_stream = of_nat (u32_of s0 s1 s2 s3), af_data = take (u16_of n0 n1) rest\<rparr>
      | _ \<Rightarrow> None)"

definition any_sample_env :: any_env where
  "any_sample_env =
     \<lparr>ae_digest = id, ae_encode = any_sample_encode, ae_parse = any_sample_parse, ae_check_mark = -1, ae_waste = 0,
      ae_default = \<lparr>pd_stop = 0, pd_sizes = (\<lambda>_. [])\<rparr>, ae_factory = (\<lambda>_. None), ae_address = (\<lambda>_. None),
      ae_read_address = (\<lambda>_ _. None)\<rparr>"

lemma any_sample_codec: "frame_codec any_sample_env"
proof -
  have "any_sample_parse (b @ rest) = Some f"
    if "length (af_data f) \<le> 65535" "b = af_command f # be32 (unat (af_stream f)) @ be16 (length (af_data f)) @ af_data f" for f b rest
  proof -
    have "unat (af_stream f) < 4294967296" using unsigned_less [of "af_stream f", where ?'a = nat] by simp
    then have s: "u32_of (be32 (unat (af_stream f)) ! 0) (be32 (unat (af_stream f)) ! 1) (be32 (unat (af_stream f)) ! 2)
        (be32 (unat (af_stream f)) ! 3) = unat (af_stream f)" by (rule u32_of_be32)
    have "length (af_data f) < 65536" using that(1) by simp
    then have n: "u16_of (be16 (length (af_data f)) ! 0) (be16 (length (af_data f)) ! 1) = length (af_data f)" by (rule u16_of_be16)
    show ?thesis using s n unfolding that(2)
      by (simp add: any_sample_parse_def be32_def be16_def numeral_2_eq_2 numeral_3_eq_3)
  qed
  then show ?thesis
    by (auto simp: frame_codec_def any_sample_env_def any_sample_encode_def HEADER_OVERHEAD_SIZE_def any_sample_parse_def [of "[]"])
qed

definition any_sample_padding :: padding where
  "any_sample_padding = \<lparr>pd_stop = 8, pd_sizes = (\<lambda>_. [4, -1, 30])\<rparr>"

definition any_sample_frames :: "any_frame list" where
  "any_sample_frames = [\<lparr>af_command = 2, af_stream = 1, af_data = [9]\<rparr>]"

theorem padded_records_decode_witness:
  "\<exists>out ns. write_records any_sample_env (encoded any_sample_env any_sample_frames) (Some any_sample_padding) 1 = (out, Inr ()) \<and>
    decode_all any_sample_env (concat out) = Some ([], any_sample_frames @ map (waste_frame any_sample_env) ns)"
proof -
  have "list_all frame_fits any_sample_frames" by (simp add: any_sample_frames_def frame_fits_def)
  moreover have "case Some any_sample_padding of None \<Rightarrow> True | Some q \<Rightarrow> sizes_valid any_sample_env (pd_sizes q 1)"
    by (simp add: sizes_valid_def any_sample_padding_def any_sample_env_def)
  ultimately show ?thesis using padded_records_decode [OF any_sample_codec] by blast
qed

text \<open>The authentication that a client sends is accepted, and exactly it is consumed.\<close>

lemma authentication_roundtrip:
  assumes "send_authentication password p = Inr sent" "length password = 32"
  shows "authenticate password (sent @ rest) = Inr rest"
proof -
  obtain sz where sz: "0 \<le> sz" "sz \<le> (65535 :: int)" "sent = password @ be16 (nat sz) @ replicate (nat sz) 0"
    using assms(1) by (auto simp: send_authentication_def Let_def ensure_Inr)
  have "nat sz < 65536" using sz(2) by simp
  then have "u16_of (be16 (nat sz) ! 0) (be16 (nat sz) ! 1) = nat sz" by (rule u16_of_be16)
  then show ?thesis using assms(2) sz(3) by (simp add: authenticate_def any_read_exact_def)
qed

end
