(* ===== verification/Anytls_Session.thy ===== *)
theory Anytls_Session
  imports Anytls_Wire Hash_Table
begin

text \<open>
  An AnyTLS session and its logical streams (\<open>crates/anytls/src/session.rs\<close>, \<open>stream.rs\<close>): the messages of
  the streams, the frames of the peer, the receive credit shared by all streams, and the reader and
  writer of a stream. The session task handles one event at a time, so a handler is one step. A logical
  stream is kept under its id together with its channel and its \<open>Status\<close>, which the session's entry
  shares. The protocol engine of the anytls library is the parameter \<open>engine\<close>.
\<close>

section \<open>State\<close>

definition MAX_STREAMS :: nat where "MAX_STREAMS = 128"
definition RECEIVE_BYTES :: nat where "RECEIVE_BYTES = 4 * 1024 * 1024"
definition ANYTLS_CHUNK :: nat where "ANYTLS_CHUNK = 16 * 1024"

text \<open>A received chunk with the credit it holds.\<close>

record chunk_credit =
  rv_bytes :: bytes
  rv_cost :: nat

text \<open>\<open>lg_sender\<close> is whether the session's entry still has the sending half, \<open>lg_reader\<close> whether the stream is alive.\<close>

record logical =
  lg_queue :: "chunk_credit list"
  lg_pending :: "chunk_credit option"
  lg_sender :: bool
  lg_reader :: bool
  lg_closed :: bool
  lg_accepted :: bool
  lg_error :: "bytes option"
  lg_shutdown :: bool

datatype engine_action =
    Send_Frame any_frame
  | Send_Frame_Sync any_frame
  | Push_Stream_Data nat bytes
  | Ensure_Incoming_Stream nat
  | Close_Local_Stream nat
  | Close_Remote_Stream nat bytes
  | Alert_And_Fail bytes
  | Release_Write_Buffering

record 'e engine =
  eg_on_frame :: "'e \<Rightarrow> bool \<Rightarrow> any_frame \<Rightarrow> 'e \<times> engine_action list option"
  eg_on_start :: "'e \<Rightarrow> 'e \<times> engine_action list option"
  eg_padding :: "'e \<Rightarrow> padding"
  eg_syn :: byte
  eg_psh :: byte
  eg_fin :: byte
  eg_syn_ack :: byte
  eg_alert :: byte
  eg_update :: byte
  eg_received :: nat

datatype session_error = Session_Busy | Ids_Exhausted | Ids_Not_Increasing | Writer_Closed | Engine_Failed | Peer_Alert | Write_Failed | Not_Accepted | Frame_Error | Scheme_Rejected

text \<open>Who is told that a write completed: nobody, a flushing stream, or the session, which waits.\<close>

datatype completion = No_Completion | Flush_Of nat | Awaited

text \<open>
  \<open>se_writes\<close> are the writes handed to the writer task, \<open>se_writer\<close> is whether it still takes them and \<open>se_flushed\<close>
  whether it completes them, \<open>se_replies\<close> are the completions the session sends itself. \<open>se_callback\<close> is the
  callback for incoming streams, \<open>se_idle\<close> how often the idle callback was called, when there is one.
\<close>

record 'e session =
  se_client :: bool
  se_state :: 'e
  se_padding :: padding
  se_entries :: "nat list"
  se_streams :: "(nat \<times> logical) list"
  se_credit :: nat
  se_next :: nat
  se_started :: bool
  se_writer :: bool
  se_flushed :: bool
  se_writes :: "(any_frame list \<times> completion) list"
  se_replies :: "(nat \<times> bool) list"
  se_callback :: "(nat \<Rightarrow> bool) option"
  se_idle :: "nat option"

definition session_start :: "'e engine \<Rightarrow> 'e \<Rightarrow> (nat \<Rightarrow> bool) option \<Rightarrow> bool \<Rightarrow> 'e session" where
  "session_start G e callback idle =
     \<lparr>se_client = Option.is_none callback, se_state = e, se_padding = eg_padding G e, se_entries = [], se_streams = [],
      se_credit = RECEIVE_BYTES, se_next = 0, se_started = False, se_writer = True, se_flushed = True, se_writes = [],
      se_replies = [], se_callback = callback, se_idle = (if idle then Some 0 else None)\<rparr>"

text \<open>A handler returns the session and its result; \<open>None\<close> is a failing assertion. \<open>and_then\<close> is \<open>?\<close> followed by the rest.\<close>

type_synonym 'e handled = "('e session \<times> (session_error + unit)) option"

definition and_then :: "'e handled \<Rightarrow> ('e session \<Rightarrow> 'e handled) \<Rightarrow> 'e handled" where
  "and_then r f = (case r of None \<Rightarrow> None | Some (s, Inl e) \<Rightarrow> Some (s, Inl e) | Some (s, Inr _) \<Rightarrow> f s)"

section \<open>Streams of a session\<close>

definition status_close :: "bytes option \<Rightarrow> logical \<Rightarrow> logical" where
  "status_close error l =
     l\<lparr>lg_closed := True, lg_error := (case lg_error l of None \<Rightarrow> error | e \<Rightarrow> e)\<rparr>"

definition logical_new :: logical where
  "logical_new = \<lparr>lg_queue = [], lg_pending = None, lg_sender = True, lg_reader = True, lg_closed = False,
     lg_accepted = False, lg_error = None, lg_shutdown = False\<rparr>"

definition on_logical :: "nat \<Rightarrow> (logical \<Rightarrow> logical) \<Rightarrow> 'e session \<Rightarrow> 'e session" where
  "on_logical sid f s =
     (case map_of (se_streams s) sid of
        None \<Rightarrow> s
      | Some l \<Rightarrow> s\<lparr>se_streams := AList.update sid (f l) (se_streams s)\<rparr>)"

definition se_stream :: "nat \<Rightarrow> 'e session \<Rightarrow> 'e session option" where
  "se_stream sid s =
     (if sid \<in> set (se_entries s) then None
      else Some (s\<lparr>se_entries := se_entries s @ [sid], se_streams := AList.update sid logical_new (se_streams s)\<rparr>))"

definition received_cost :: "chunk_credit option \<Rightarrow> nat" where
  "received_cost r = (case r of None \<Rightarrow> 0 | Some r \<Rightarrow> rv_cost r)"

text \<open>What a logical stream still holds of the credit.\<close>

definition held_credit :: "logical \<Rightarrow> nat" where
  "held_credit l = sum_list (map rv_cost (lg_queue l)) + received_cost (lg_pending l)"

text \<open>Dropping the stream drops its chunks; its \<open>Dropped\<close> event is a \<open>se_close\<close> of its own.\<close>

definition se_drop_stream :: "nat \<Rightarrow> 'e session \<Rightarrow> 'e session" where
  "se_drop_stream sid s =
     (case map_of (se_streams s) sid of
        None \<Rightarrow> s
      | Some l \<Rightarrow>
          on_logical sid (\<lambda>l. l\<lparr>lg_queue := [], lg_pending := None, lg_reader := False\<rparr>)
            (s\<lparr>se_credit := se_credit s + held_credit l\<rparr>))"

text \<open>A handler that fails drops the stream it was about to hand out.\<close>

definition drop_on_error :: "nat \<Rightarrow> 'e handled \<Rightarrow> 'e handled" where
  "drop_on_error sid r = (case r of Some (s, Inl e) \<Rightarrow> Some (se_drop_stream sid s, Inl e) | _ \<Rightarrow> r)"

definition se_send :: "any_env \<Rightarrow> any_frame list \<Rightarrow> completion \<Rightarrow> 'e session \<Rightarrow> 'e handled" where
  "se_send E frames complete s =
     (if list_ex (\<lambda>f. ae_encode E f = None) frames then Some (s, Inl Frame_Error)
      else if \<not> se_writer s then Some (s, Inl Writer_Closed)
      else Some (s\<lparr>se_writes := se_writes s @ [(frames, complete)]\<rparr>, Inr ()))"

definition flush_frames :: "any_env \<Rightarrow> any_frame list \<Rightarrow> 'e session \<Rightarrow> 'e handled" where
  "flush_frames E frames s =
     and_then (se_send E frames Awaited s) (\<lambda>s. Some (s, if se_flushed s then Inr () else Inl Write_Failed))"

definition frame_new :: "byte \<Rightarrow> nat \<Rightarrow> any_frame" where
  "frame_new command sid = \<lparr>af_command = command, af_stream = of_nat sid, af_data = []\<rparr>"

definition frame_data :: "byte \<Rightarrow> nat \<Rightarrow> bytes \<Rightarrow> any_frame" where
  "frame_data command sid d = \<lparr>af_command = command, af_stream = of_nat sid, af_data = d\<rparr>"

definition se_idle_call :: "'e session \<Rightarrow> 'e session" where
  "se_idle_call s = (if se_entries s = [] then s\<lparr>se_idle := map_option Suc (se_idle s)\<rparr> else s)"

text \<open>Dropping an entry closes the status and drops the sending half.\<close>

definition entry_remove :: "nat \<Rightarrow> bytes option \<Rightarrow> 'e session \<Rightarrow> 'e session" where
  "entry_remove sid error s =
     on_logical sid (\<lambda>l. (status_close None (status_close error l))\<lparr>lg_sender := False\<rparr>)
       (s\<lparr>se_entries := remove1 sid (se_entries s)\<rparr>)"

definition se_close :: "any_env \<Rightarrow> 'e engine \<Rightarrow> nat \<Rightarrow> bytes option \<Rightarrow> 'e session \<Rightarrow> 'e handled" where
  "se_close E G sid error s =
     (if sid \<in> set (se_entries s) then
        and_then (flush_frames E [frame_new (eg_fin G) sid] (entry_remove sid error s)) (\<lambda>s. Some (se_idle_call s, Inr ()))
      else Some (s, Inr ()))"

section \<open>Messages of the streams\<close>

datatype message = Msg_Open bytes | Msg_Data nat bytes | Msg_Flush nat | Msg_Close nat

definition start_frames :: "engine_action list \<Rightarrow> any_frame list" where
  "start_frames actions = concat (map (\<lambda>a. case a of Send_Frame f \<Rightarrow> [f] | _ \<Rightarrow> []) actions)"

definition se_open :: "any_env \<Rightarrow> 'e engine \<Rightarrow> bytes \<Rightarrow> 'e session \<Rightarrow> 'e handled" where
  "se_open E G address s =
     (if \<not> (se_client s \<and> se_entries s = []) then Some (s, Inl Session_Busy)
      else if 4294967295 < se_next s + 1 then Some (s, Inl Ids_Exhausted)
      else
        let sid = se_next s + 1 in
        (case se_stream sid (s\<lparr>se_next := sid\<rparr>) of
           None \<Rightarrow> None
         | Some s \<Rightarrow>
             (case (if se_started s then (se_state s, Some []) else eg_on_start G (se_state s)) of
                (e, None) \<Rightarrow> Some (se_drop_stream sid (s\<lparr>se_state := e\<rparr>), Inl Engine_Failed)
              | (e, Some actions) \<Rightarrow>
                  drop_on_error sid (flush_frames E (start_frames actions @ [frame_new (eg_syn G) sid, frame_data (eg_psh G) sid address])
                    (s\<lparr>se_state := e, se_started := True\<rparr>)))))"

fun se_message :: "any_env \<Rightarrow> 'e engine \<Rightarrow> message \<Rightarrow> 'e session \<Rightarrow> 'e handled" where
  "se_message E G (Msg_Open address) s = se_open E G address s"
| "se_message E G (Msg_Data sid d) s =
     (if sid \<in> set (se_entries s) then se_send E [frame_data (eg_psh G) sid d] No_Completion s else Some (s, Inr ()))"
| "se_message E G (Msg_Flush sid) s =
     (if sid \<in> set (se_entries s) then se_send E [] (Flush_Of sid) s
      else Some (s\<lparr>se_replies := se_replies s @ [(sid, False)]\<rparr>, Inr ()))"
| "se_message E G (Msg_Close sid) s =
     and_then (se_close E G sid None s) (\<lambda>s. Some (s\<lparr>se_replies := se_replies s @ [(sid, True)]\<rparr>, Inr ()))"

section \<open>Frames of the peer\<close>

text \<open>
  Handing a chunk to a stream: \<open>True\<close> when the credit is exhausted or the reader is gone. The credit of
  a chunk that cannot be sent is released with it.
\<close>

definition se_push :: "'e engine \<Rightarrow> nat \<Rightarrow> bytes \<Rightarrow> 'e session \<Rightarrow> 'e session \<times> bool" where
  "se_push G sid d s =
     (if sid \<notin> set (se_entries s) then (s, False)
      else
        let cost = (length d + eg_received G) mod 4294967296 in
        if se_credit s < cost then (s, True)
        else
          (case map_of (se_streams s) sid of
             None \<Rightarrow> (s, True)
           | Some l \<Rightarrow>
               if lg_reader l
               then (on_logical sid (\<lambda>l. l\<lparr>lg_queue := lg_queue l @ [\<lparr>rv_bytes = d, rv_cost = cost\<rparr>]\<rparr>)
                       (s\<lparr>se_credit := se_credit s - cost\<rparr>), False)
               else (s, True)))"

definition queue_full :: bytes where "queue_full = map of_char ''AnyTLS receive queue full or consumer closed''"

definition stream_limit :: bytes where "stream_limit = map of_char ''stream limit reached''"

text \<open>A stream the callback refuses, or for which there is none, is dropped.\<close>

definition se_incoming :: "any_env \<Rightarrow> 'e engine \<Rightarrow> nat \<Rightarrow> 'e session \<Rightarrow> 'e handled" where
  "se_incoming E G sid s =
     (if \<not> se_next s < sid then Some (s, Inl Ids_Not_Increasing)
      else
        let s = s\<lparr>se_next := sid\<rparr> in
        if MAX_STREAMS \<le> length (se_entries s) then
          se_send E [frame_data (eg_syn_ack G) sid stream_limit, frame_new (eg_fin G) sid] No_Completion s
        else
          (case se_stream sid s of
             None \<Rightarrow> None
           | Some s \<Rightarrow>
               and_then (drop_on_error sid (se_send E [frame_new (eg_syn_ack G) sid] No_Completion s)) (\<lambda>s.
                 case se_callback s of
                   None \<Rightarrow> Some (se_drop_stream sid s, Inr ())
                 | Some accept \<Rightarrow> if accept sid then Some (s, Inr ()) else Some (se_drop_stream sid s, Inl Not_Accepted))))"

fun se_action :: "any_env \<Rightarrow> 'e engine \<Rightarrow> engine_action \<Rightarrow> 'e session \<Rightarrow> 'e handled" where
  "se_action E G (Send_Frame f) s = se_send E [f] No_Completion s"
| "se_action E G (Send_Frame_Sync f) s = flush_frames E [f] s"
| "se_action E G (Push_Stream_Data sid d) s =
     (case se_push G sid d s of (s, full) \<Rightarrow> if full then se_close E G sid (Some queue_full) s else Some (s, Inr ()))"
| "se_action E G (Ensure_Incoming_Stream sid) s = se_incoming E G sid s"
| "se_action E G (Close_Local_Stream sid) s =
     Some (if sid \<in> set (se_entries s) then se_idle_call (entry_remove sid None s) else s, Inr ())"
| "se_action E G (Close_Remote_Stream sid msg) s = se_close E G sid (Some msg) s"
| "se_action E G (Alert_And_Fail msg) s =
     and_then (flush_frames E [frame_data (eg_alert G) 0 msg] s) (\<lambda>s. Some (s, Inl Engine_Failed))"
| "se_action E G Release_Write_Buffering s = Some (s, Inr ())"

fun se_actions :: "any_env \<Rightarrow> 'e engine \<Rightarrow> engine_action list \<Rightarrow> 'e session \<Rightarrow> 'e handled" where
  "se_actions E G [] s = Some (s, Inr ())"
| "se_actions E G (a # as) s = and_then (se_action E G a s) (se_actions E G as)"

definition se_accept :: "'e engine \<Rightarrow> any_frame \<Rightarrow> 'e session \<Rightarrow> 'e session" where
  "se_accept G f s =
     (if se_client s \<and> af_command f = eg_syn_ack G \<and> af_data f = [] \<and> unat (af_stream f) \<in> set (se_entries s)
      then on_logical (unat (af_stream f)) (\<lambda>l. l\<lparr>lg_accepted := True\<rparr>) s else s)"

definition se_received :: "any_env \<Rightarrow> 'e engine \<Rightarrow> any_frame \<Rightarrow> 'e session \<Rightarrow> 'e handled" where
  "se_received E G f s =
     (if af_command f = eg_alert G then Some (s, Inl Peer_Alert)
      else
        let update = (se_client s \<and> af_command f = eg_update G) in
        if update \<and> (\<not> valid_utf8 (af_data f) \<or> isl (padding_scheme E (Some (af_data f)))) then Some (s, Inl Scheme_Rejected)
        else
          (case eg_on_frame G (se_state s) (se_client s) f of
             (e, None) \<Rightarrow> Some (s\<lparr>se_state := e\<rparr>, Inl Engine_Failed)
           | (e, Some actions) \<Rightarrow>
               let s = se_accept G f (s\<lparr>se_state := e\<rparr>);
                   s = (if update then s\<lparr>se_padding := eg_padding G e\<rparr> else s)
               in se_actions E G actions s))"

text \<open>Dropping the session closes what is left.\<close>

definition session_closed :: bytes where "session_closed = map of_char ''AnyTLS session closed''"

definition session_drop :: "'e session \<Rightarrow> 'e session" where
  "session_drop s = foldl (\<lambda>s sid. entry_remove sid (Some session_closed) s) s (se_entries s)"

section \<open>The logical stream\<close>

text \<open>
  \<open>poll_read\<close> with room for some bytes: what is read. A chunk read to its end is dropped, which returns
  its credit.
\<close>

definition lg_read :: "nat \<Rightarrow> logical \<Rightarrow> logical \<times> nat \<times> (bytes option + bytes) poll" where
  "lg_read room l =
     (if room = 0 then (l, 0, Ready (Inr []))
      else
        (case (case lg_pending l of Some r \<Rightarrow> Some (r, l)
               | None \<Rightarrow> (case lg_queue l of [] \<Rightarrow> None | r # rs \<Rightarrow> Some (r, l\<lparr>lg_queue := rs\<rparr>))) of
           None \<Rightarrow>
             if lg_sender l then (l, 0, Pending)
             else (l, 0, Ready (case lg_error l of Some e \<Rightarrow> Inl (Some e) | None \<Rightarrow> Inr []))
         | Some (r, l) \<Rightarrow>
             let n = min room (length (rv_bytes r));
                 r' = r\<lparr>rv_bytes := drop n (rv_bytes r)\<rparr>
             in if rv_bytes r' = [] then (l\<lparr>lg_pending := None\<rparr>, rv_cost r, Ready (Inr (take n (rv_bytes r))))
                else (l\<lparr>lg_pending := Some r'\<rparr>, 0, Ready (Inr (take n (rv_bytes r))))))"

definition se_read :: "nat \<Rightarrow> nat \<Rightarrow> 'e session \<Rightarrow> 'e session \<times> (bytes option + bytes) poll" where
  "se_read sid room s =
     (case map_of (se_streams s) sid of
        None \<Rightarrow> (s, Pending)
      | Some l \<Rightarrow>
          (case lg_read room l of (l, credit, r) \<Rightarrow>
             (on_logical sid (\<lambda>_. l) (s\<lparr>se_credit := se_credit s + credit\<rparr>), r)))"

text \<open>
  \<open>poll_ack\<close> on the stream's outstanding acknowledgement, if any, and \<open>poll_write\<close>, \<open>poll_flush\<close> and
  \<open>poll_shutdown\<close>: the message sent, whether an acknowledgement is outstanding afterwards, and the result. \<open>ack\<close> is the poll of the
  acknowledgement outstanding before, \<open>fresh\<close> that of the one a new message asks for,
  \<open>reserve\<close> that of a slot in the channel.
\<close>

definition poll_ack :: "bool \<Rightarrow> bool poll \<Rightarrow> bool \<times> (unit + unit) poll" where
  "poll_ack flushing ack =
     (if flushing then
        (case ack of
           Pending \<Rightarrow> (True, Pending)
         | Ready ok \<Rightarrow> (False, Ready (if ok then Inr () else Inl ())))
      else (False, Ready (Inr ())))"

definition lg_write :: "nat \<Rightarrow> logical \<Rightarrow> bool \<Rightarrow> bool poll \<Rightarrow> bool poll \<Rightarrow> bytes \<Rightarrow> message option \<times> bool \<times> (unit + nat) poll" where
  "lg_write sid l flushing ack reserve d =
     (if lg_shutdown l \<or> lg_closed l then (None, flushing, Ready (Inl ()))
      else
        (case poll_ack flushing ack of
           (flushing, Pending) \<Rightarrow> (None, flushing, Pending)
         | (flushing, Ready (Inl _)) \<Rightarrow> (None, flushing, Ready (Inl ()))
         | (flushing, Ready (Inr _)) \<Rightarrow>
             if d = [] then (None, flushing, Ready (Inr 0))
             else
               (case reserve of
                  Pending \<Rightarrow> (None, flushing, Pending)
                | Ready False \<Rightarrow> (None, flushing, Ready (Inl ()))
                | Ready True \<Rightarrow>
                    let n = min (length d) ANYTLS_CHUNK in (Some (Msg_Data sid (take n d)), flushing, Ready (Inr n)))))"

definition lg_flush :: "nat \<Rightarrow> logical \<Rightarrow> bool \<Rightarrow> bool poll \<Rightarrow> bool poll \<Rightarrow> bool poll \<Rightarrow> message option \<times> bool \<times> (unit + unit) poll" where
  "lg_flush sid l flushing ack fresh reserve =
     (if flushing then (None, poll_ack True ack)
      else if lg_closed l then (None, False, Ready (Inl ()))
      else
        (case reserve of
           Pending \<Rightarrow> (None, False, Pending)
         | Ready False \<Rightarrow> (None, False, Ready (Inl ()))
         | Ready True \<Rightarrow> (Some (Msg_Flush sid), poll_ack True fresh)))"

definition lg_shut :: "nat \<Rightarrow> logical \<Rightarrow> bool \<Rightarrow> bool poll \<Rightarrow> bool poll \<Rightarrow> bool poll \<Rightarrow> logical \<times> message option \<times> bool \<times> (unit + unit) poll" where
  "lg_shut sid l flushing ack fresh reserve =
     (case poll_ack flushing ack of
        (flushing, Pending) \<Rightarrow> (l, None, flushing, Pending)
      | (flushing, Ready (Inl _)) \<Rightarrow> (l, None, flushing, Ready (Inl ()))
      | (flushing, Ready (Inr _)) \<Rightarrow>
          if lg_shutdown l \<or> lg_closed l then (l, None, flushing, Ready (Inr ()))
          else
            (case reserve of
               Pending \<Rightarrow> (l, None, flushing, Pending)
             | Ready False \<Rightarrow> (l, None, flushing, Ready (Inl ()))
             | Ready True \<Rightarrow> (l\<lparr>lg_shutdown := True\<rparr>, Some (Msg_Close sid), poll_ack True fresh)))"

definition wait_handshake :: "logical \<Rightarrow> (unit + unit) poll" where
  "wait_handshake l = (if lg_accepted l then Ready (Inr ()) else if lg_closed l then Ready (Inl ()) else Pending)"

section \<open>Steps\<close>

inductive session_step :: "any_env \<Rightarrow> 'e engine \<Rightarrow> 'e session \<Rightarrow> 'e session \<Rightarrow> bool" for E G where
  step_message: "se_message E G m s = Some (s', Inr ()) \<Longrightarrow> session_step E G s s'"
| step_frame: "se_received E G f s = Some (s', Inr ()) \<Longrightarrow> session_step E G s s'"
| step_dropped: "se_close E G sid None s = Some (s', Inr ()) \<Longrightarrow> session_step E G s s'"
| step_read: "se_read sid room s = (s', r) \<Longrightarrow> session_step E G s s'"
| step_drop_stream: "session_step E G s (se_drop_stream sid s)"
| step_writer: "session_step E G s (s\<lparr>se_writer := w, se_flushed := f\<rparr>)"

inductive_cases session_stepE: "session_step E G s s'"

section \<open>Invariant\<close>

text \<open>
  Stream ids are distinct and at most the last one used, the entries are among the streams and
  limited, and the credit is what the chunks of all streams do not hold.
\<close>

definition stream_ids :: "'e session \<Rightarrow> nat set" where
  "stream_ids s = fst ` set (se_streams s)"

definition session_ok :: "'e session \<Rightarrow> bool" where
  "session_ok s \<longleftrightarrow> distinct (map fst (se_streams s)) \<and> distinct (se_entries s) \<and>
     set (se_entries s) \<subseteq> stream_ids s \<and> (\<forall>sid \<in> stream_ids s. sid \<le> se_next s) \<and>
     length (se_entries s) \<le> MAX_STREAMS \<and> se_credit s + table_sum held_credit (se_streams s) = RECEIVE_BYTES"

lemma stream_ids_fields [simp]:
  "stream_ids (s\<lparr>se_credit := a\<rparr>) = stream_ids s" "stream_ids (s\<lparr>se_next := b\<rparr>) = stream_ids s"
  "stream_ids (s\<lparr>se_entries := c\<rparr>) = stream_ids s" "stream_ids (s\<lparr>se_state := d\<rparr>) = stream_ids s"
  "stream_ids (s\<lparr>se_started := e\<rparr>) = stream_ids s" "stream_ids (s\<lparr>se_writer := f\<rparr>) = stream_ids s"
  "stream_ids (s\<lparr>se_writes := g\<rparr>) = stream_ids s" "stream_ids (s\<lparr>se_idle := h\<rparr>) = stream_ids s"
  "stream_ids (s\<lparr>se_padding := i\<rparr>) = stream_ids s" "stream_ids (s\<lparr>se_flushed := j\<rparr>) = stream_ids s"
  "stream_ids (s\<lparr>se_replies := k\<rparr>) = stream_ids s"
  by (simp_all add: stream_ids_def)

lemma stream_ids_update [simp]:
  "stream_ids (s\<lparr>se_streams := AList.update sid l (se_streams s)\<rparr>) = insert sid (stream_ids s)"
  by (simp add: stream_ids_def dom_update)

named_theorems session_inv \<open>preservation of the session invariant\<close>

lemma on_logical_ok:
  assumes "session_ok s" "map_of (se_streams s) sid = Some l" "c + held_credit (f l) = se_credit s + held_credit l"
  shows "session_ok (on_logical sid f (s\<lparr>se_credit := c\<rparr>))"
proof -
  have key: "insert sid (stream_ids s) = stream_ids s"
    using assms(2) by (metis domI dom_map_of_conv_image_fst insert_absorb stream_ids_def)
  have "table_sum held_credit (AList.update sid (f l) (se_streams s)) + held_credit l =
      table_sum held_credit (se_streams s) + held_credit (f l)"
    by (rule table_sum_update [OF _ assms(2)]) (use assms(1) in \<open>simp add: session_ok_def\<close>)
  moreover have "stream_ids (s\<lparr>se_credit := c, se_streams := AList.update sid (f l) (se_streams s)\<rparr>) = stream_ids s"
    using key by (simp add: stream_ids_def dom_update)
  ultimately show ?thesis
    using assms by (simp add: session_ok_def on_logical_def distinct_update)
qed

lemma on_logical_same [session_inv]:
  assumes "session_ok s" "\<And>l. held_credit (f l) = held_credit l"
  shows "session_ok (on_logical sid f s)"
proof (cases "map_of (se_streams s) sid")
  case (Some l)
  then show ?thesis using on_logical_ok [OF assms(1) Some, of "se_credit s" f] assms(2) by simp
qed (use assms(1) in \<open>simp add: on_logical_def\<close>)

lemma held_status_close [simp]: "held_credit (status_close e l) = held_credit l"
  by (simp add: held_credit_def status_close_def)

lemma held_fields [simp]:
  "held_credit (l\<lparr>lg_sender := a\<rparr>) = held_credit l" "held_credit (l\<lparr>lg_accepted := a\<rparr>) = held_credit l"
  by (simp_all add: held_credit_def)

lemma drop_stream_keeps [session_inv]:
  assumes "session_ok s"
  shows "session_ok (se_drop_stream sid s)"
proof (cases "map_of (se_streams s) sid")
  case (Some l)
  then show ?thesis
    by (auto simp: se_drop_stream_def held_credit_def received_cost_def intro!: on_logical_ok [OF assms Some])
qed (use assms in \<open>simp add: se_drop_stream_def\<close>)

lemma entry_remove_ok [session_inv]: "session_ok s \<Longrightarrow> session_ok (entry_remove sid e s)"
proof -
  assume ok: "session_ok s"
  have "session_ok (s\<lparr>se_entries := remove1 sid (se_entries s)\<rparr>)"
    using ok set_remove1_subset [of sid "se_entries s"] by (auto simp: session_ok_def length_remove1)
  then show ?thesis unfolding entry_remove_def by (rule on_logical_same) simp
qed

lemma idle_call_ok [session_inv]: "session_ok s \<Longrightarrow> session_ok (se_idle_call s)"
  by (simp add: se_idle_call_def session_ok_def)

lemma stream_ok:
  assumes "session_ok s" "se_next s < sid" "length (se_entries s) < MAX_STREAMS"
  shows "\<exists>s'. se_stream sid (s\<lparr>se_next := sid\<rparr>) = Some s' \<and> session_ok s'"
proof -
  have fresh: "sid \<notin> stream_ids s" using assms(1,2) by (force simp: session_ok_def)
  then have none: "map_of (se_streams s) sid = None" by (simp add: map_of_eq_None_iff stream_ids_def)
  have "held_credit logical_new = 0" by (simp add: held_credit_def logical_new_def received_cost_def)
  then have sum: "table_sum held_credit (AList.update sid logical_new (se_streams s)) = table_sum held_credit (se_streams s)"
    using table_sum_insert [OF none] by simp
  define s' where "s' = s\<lparr>se_next := sid, se_entries := se_entries s @ [sid], se_streams := AList.update sid logical_new (se_streams s)\<rparr>"
  have ids: "stream_ids s' = insert sid (stream_ids s)" by (simp add: stream_ids_def s'_def dom_update)
  have "sid \<notin> set (se_entries s)" using fresh assms(1) by (auto simp: session_ok_def)
  moreover from this have "session_ok s'"
    using assms ids sum by (fastforce simp: session_ok_def s'_def distinct_update)
  ultimately show ?thesis by (simp add: se_stream_def s'_def)
qed

text \<open>A handler keeps the invariant when it does not panic and leaves it true whatever its result.\<close>

definition keeps :: "'e handled \<Rightarrow> bool" where
  "keeps r \<longleftrightarrow> (case r of None \<Rightarrow> False | Some (s, _) \<Rightarrow> session_ok s)"

lemma keeps_Some [simp]: "keeps (Some (s, r)) \<longleftrightarrow> session_ok s"
  by (simp add: keeps_def)

lemma keeps_None [simp]: "\<not> keeps None"
  by (simp add: keeps_def)

lemma keeps_and_then: "keeps r \<Longrightarrow> (\<And>s. session_ok s \<Longrightarrow> keeps (f s)) \<Longrightarrow> keeps (and_then r f)"
  by (cases r) (auto simp: and_then_def split: sum.splits)

lemma send_keeps [session_inv]: "session_ok s \<Longrightarrow> keeps (se_send E fs c s)"
  by (simp add: se_send_def session_ok_def)

lemma flush_keeps [session_inv]: "session_ok s \<Longrightarrow> keeps (flush_frames E fs s)"
  unfolding flush_frames_def by (intro keeps_and_then send_keeps) simp_all

lemma drop_on_error_keeps [session_inv]: "keeps r \<Longrightarrow> keeps (drop_on_error sid r)"
  by (auto simp: drop_on_error_def keeps_def intro: drop_stream_keeps split: option.splits sum.splits)

lemma replies_ok [session_inv]: "session_ok s \<Longrightarrow> session_ok (s\<lparr>se_replies := r\<rparr>)"
  by (simp add: session_ok_def)

lemma close_keeps [session_inv]: "session_ok s \<Longrightarrow> keeps (se_close E G sid e s)"
  unfolding se_close_def by (auto intro!: keeps_and_then flush_keeps entry_remove_ok idle_call_ok)

lemma open_keeps [session_inv]:
  assumes "session_ok s"
  shows "keeps (se_open E G address s)"
proof (cases "se_client s \<and> se_entries s = [] \<and> se_next s + 1 \<le> 4294967295")
  case False
  then show ?thesis using assms by (auto simp: se_open_def)
next
  case True
  obtain s1 where s1: "se_stream (se_next s + 1) (s\<lparr>se_next := se_next s + 1\<rparr>) = Some s1" "session_ok s1"
    using stream_ok [OF assms, of "se_next s + 1"] True by (auto simp: MAX_STREAMS_def)
  have "session_ok (s1\<lparr>se_state := e\<rparr>)" "session_ok (s1\<lparr>se_state := e, se_started := True\<rparr>)" for e
    using s1(2) by (simp_all add: session_ok_def)
  then have k: "keeps (drop_on_error sid (flush_frames E fs (s1\<lparr>se_state := e, se_started := True\<rparr>)))"
    "session_ok (se_drop_stream sid (s1\<lparr>se_state := e\<rparr>))" for sid fs e
    by (intro drop_on_error_keeps flush_keeps drop_stream_keeps; simp)+
  obtain e actions where "(if se_started s1 then (se_state s1, Some []) else eg_on_start G (se_state s1)) = (e, actions)" by fastforce
  then show ?thesis using True s1(1) k
    by (cases actions) (simp_all add: se_open_def Let_def)
qed

lemma message_keeps [session_inv]: "session_ok s \<Longrightarrow> keeps (se_message E G m s)"
  by (cases m) (auto intro!: send_keeps open_keeps close_keeps keeps_and_then replies_ok)

lemma push_keeps [session_inv]: "session_ok s \<Longrightarrow> se_push G sid d s = (s', full) \<Longrightarrow> session_ok s'"
proof -
  assume ok: "session_ok s" and p: "se_push G sid d s = (s', full)"
  define cost where "cost = (length d + eg_received G) mod 4294967296"
  show ?thesis
  proof (cases "s' = s")
    case False
    then obtain l where l: "map_of (se_streams s) sid = Some l" "cost \<le> se_credit s"
      "s' = on_logical sid (\<lambda>l. l\<lparr>lg_queue := lg_queue l @ [\<lparr>rv_bytes = d, rv_cost = cost\<rparr>]\<rparr>) (s\<lparr>se_credit := se_credit s - cost\<rparr>)"
      using p by (auto simp: se_push_def Let_def cost_def split: if_splits option.splits)
    show ?thesis unfolding l(3) using l(2) by (intro on_logical_ok [OF ok l(1)]) (simp add: held_credit_def)
  qed (use ok in simp)
qed

lemma incoming_keeps [session_inv]:
  assumes "session_ok s"
  shows "keeps (se_incoming E G sid s)"
proof -
  have "session_ok (s\<lparr>se_next := sid\<rparr>)" if "se_next s < sid" using assms that by (force simp: session_ok_def)
  then show ?thesis using assms stream_ok [OF assms, of sid]
    by (auto simp: se_incoming_def Let_def split: option.splits
        intro!: send_keeps keeps_and_then drop_on_error_keeps drop_stream_keeps)
qed

lemma action_keeps [session_inv]: "session_ok s \<Longrightarrow> keeps (se_action E G a s)"
proof (cases a)
  case (Push_Stream_Data sid d)
  assume "session_ok s"
  then show ?thesis using Push_Stream_Data by (auto split: prod.splits intro: push_keeps intro!: close_keeps)
qed (auto intro!: send_keeps flush_keeps incoming_keeps close_keeps keeps_and_then entry_remove_ok idle_call_ok)

lemma actions_keeps [session_inv]: "session_ok s \<Longrightarrow> keeps (se_actions E G as s)"
  by (induction as arbitrary: s) (auto intro!: keeps_and_then action_keeps)

lemma accept_ok [session_inv]: "session_ok s \<Longrightarrow> session_ok (se_accept G f s)"
  unfolding se_accept_def by (auto intro: on_logical_same)

lemma received_keeps [session_inv]:
  assumes "session_ok s"
  shows "keeps (se_received E G f s)"
proof -
  have "session_ok (s\<lparr>se_state := e\<rparr>)" for e using assms by (simp add: session_ok_def)
  moreover have "session_ok (s'\<lparr>se_padding := p\<rparr>)" if "session_ok s'" for s' p using that by (simp add: session_ok_def)
  ultimately show ?thesis using assms
    by (auto simp: se_received_def Let_def intro!: actions_keeps accept_ok split: prod.splits option.splits)
qed

lemma read_credit: "lg_read room l = (l', c, r) \<Longrightarrow> c + held_credit l' = held_credit l"
  by (auto simp: lg_read_def held_credit_def received_cost_def Let_def split: if_splits option.splits list.splits)

lemma read_keeps [session_inv]:
  assumes "session_ok s" "se_read sid room s = (s', r)"
  shows "session_ok s'"
proof (cases "map_of (se_streams s) sid")
  case (Some l)
  obtain l' c x where "lg_read room l = (l', c, x)" by (cases "lg_read room l")
  then show ?thesis using assms Some read_credit [of room l]
    by (auto simp: se_read_def intro!: on_logical_ok [OF assms(1) Some])
qed (use assms in \<open>simp add: se_read_def\<close>)

lemma session_start_ok [session_inv]: "session_ok (session_start G e callback idle)"
  by (simp add: session_ok_def session_start_def stream_ids_def)

lemma step_ok: "session_step E G s s' \<Longrightarrow> session_ok s \<Longrightarrow> session_ok s'"
proof (induction rule: session_step.induct)
  case (step_message m s s')
  then show ?case using message_keeps [of s E G m] by simp
next
  case (step_frame f s s')
  then show ?case using received_keeps [of s E G f] by simp
next
  case (step_dropped sid s s')
  then show ?case using close_keeps [of s E G sid None] by simp
next
  case (step_writer s)
  then show ?case by (simp add: session_ok_def)
qed (auto intro: read_keeps drop_stream_keeps)

interpretation ss: step_system "session_step E G" "session_start G e callback idle" session_ok for E G e callback idle
  by unfold_locales (auto intro: session_start_ok step_ok)

section \<open>Order of the bytes of a stream\<close>

definition stream_bytes :: "logical \<Rightarrow> bytes" where
  "stream_bytes l = (case lg_pending l of None \<Rightarrow> [] | Some r \<Rightarrow> rv_bytes r) @ concat (map rv_bytes (lg_queue l))"

lemma read_takes_prefix:
  assumes "lg_read room l = (l', c, r)"
  shows "stream_bytes l = (case r of Ready (Inr b) \<Rightarrow> b | _ \<Rightarrow> []) @ stream_bytes l'"
    "r = Ready (Inl e) \<Longrightarrow> stream_bytes l = [] \<and> \<not> lg_sender l"
  using assms
  by (auto simp: lg_read_def stream_bytes_def Let_def split: if_splits option.splits list.splits)

section \<open>Calls of the idle callback\<close>

text \<open>
  The pool relies on a session reporting idle at most once per stream. Stream ids only grow and each
  registers at most one entry, so it is enough that the calls made and the entries left are together at
  most the last id used. For a client that is the number of streams it opened, unless its engine asks
  for incoming ones.
\<close>

definition idle_counted :: "'e session \<Rightarrow> bool" where
  "idle_counted s \<longleftrightarrow> (\<forall>k. se_idle s = Some k \<longrightarrow> k + length (se_entries s) \<le> se_next s)"

text \<open>What the count depends on.\<close>

definition tally :: "'e session \<Rightarrow> nat option \<times> nat list \<times> nat" where
  "tally s = (se_idle s, se_entries s, se_next s)"

lemma idle_counted_tally: "tally s' = tally s \<Longrightarrow> idle_counted s' = idle_counted s"
  by (simp add: idle_counted_def tally_def)

lemma on_logical_tally [simp]: "tally (on_logical sid f s) = tally s"
  by (simp add: tally_def on_logical_def split: option.splits)

lemma drop_stream_tally [simp]: "tally (se_drop_stream sid s) = tally s"
  by (simp add: se_drop_stream_def split: option.splits) (simp add: tally_def)

definition counts :: "'e handled \<Rightarrow> bool" where
  "counts r \<longleftrightarrow> (case r of None \<Rightarrow> True | Some (s, _) \<Rightarrow> idle_counted s)"

lemma counts_Some [simp]: "counts (Some (s, r)) \<longleftrightarrow> idle_counted s"
  by (simp add: counts_def)

lemma counts_None [simp]: "counts None"
  by (simp add: counts_def)

lemma counts_and_then: "counts r \<Longrightarrow> (\<And>s. idle_counted s \<Longrightarrow> counts (f s)) \<Longrightarrow> counts (and_then r f)"
  by (cases r) (auto simp: and_then_def split: sum.splits)

lemma flush_tally: "flush_frames E fs s = Some (s', r) \<Longrightarrow> tally s' = tally s"
  by (auto simp: flush_frames_def se_send_def and_then_def tally_def split: if_splits)

lemma send_counts: "idle_counted s \<Longrightarrow> counts (se_send E fs c s)"
  by (auto simp: se_send_def idle_counted_def)

lemma flush_counts: "idle_counted s \<Longrightarrow> counts (flush_frames E fs s)"
  using idle_counted_tally [OF flush_tally, of E fs s] by (auto simp: counts_def split: option.splits prod.splits)

lemma drop_on_error_counts: "counts r \<Longrightarrow> counts (drop_on_error sid r)"
  using idle_counted_tally [OF drop_stream_tally]
  by (auto simp: drop_on_error_def counts_def split: option.splits sum.splits)

text \<open>Removing an entry makes room for the call that follows.\<close>

lemma entry_remove_tally: "tally (entry_remove sid e s) = (se_idle s, remove1 sid (se_entries s), se_next s)"
  by (simp add: entry_remove_def) (simp add: tally_def)

lemma removed_idle_counted:
  assumes "idle_counted s" "sid \<in> set (se_entries s)" "tally s' = (se_idle s, remove1 sid (se_entries s), se_next s)"
  shows "idle_counted s' \<and> idle_counted (se_idle_call s')"
proof -
  have "0 < length (se_entries s)" using assms(2) by (rule length_pos_if_in_set)
  moreover have "length (se_entries s') = length (se_entries s) - 1" using assms(2,3) by (simp add: tally_def length_remove1)
  ultimately have "length (se_entries s') + 1 = length (se_entries s)" by linarith
  moreover have "se_idle s' = se_idle s" "se_next s' = se_next s" using assms(3) by (simp_all add: tally_def)
  ultimately show ?thesis using assms(1) by (cases "se_idle s") (auto simp: idle_counted_def se_idle_call_def)
qed

lemma close_counts:
  assumes "idle_counted s"
  shows "counts (se_close E G sid e s)"
proof (cases "sid \<in> set (se_entries s)")
  case True
  note gone = removed_idle_counted [OF assms True]
  show ?thesis
  proof (cases "flush_frames E [frame_new (eg_fin G) sid] (entry_remove sid e s)")
    case (Some x)
    obtain s' r where x: "x = (s', r)" by (cases x)
    have "tally s' = (se_idle s, remove1 sid (se_entries s), se_next s)"
      using flush_tally [of E _ "entry_remove sid e s"] Some x entry_remove_tally [of sid e s] by simp
    from gone [OF this] Some x True show ?thesis by (auto simp: se_close_def and_then_def split: sum.splits)
  qed (simp add: se_close_def and_then_def True)
qed (use assms in \<open>simp add: se_close_def\<close>)

lemma stream_counts:
  assumes "idle_counted s" "se_next s < sid" "se_stream sid (s\<lparr>se_next := sid\<rparr>) = Some s'"
  shows "idle_counted s'"
  using assms by (auto simp: idle_counted_def se_stream_def split: if_splits option.splits)

lemma open_counts:
  assumes "idle_counted s"
  shows "counts (se_open E G address s)"
proof (cases "se_client s \<and> se_entries s = [] \<and> se_next s + 1 \<le> 4294967295")
  case True
  show ?thesis
  proof (cases "se_stream (se_next s + 1) (s\<lparr>se_next := se_next s + 1\<rparr>)")
    case (Some s1)
    then have s1: "idle_counted s1" using stream_counts [OF assms, of "se_next s + 1"] by simp
    have "tally (s1\<lparr>se_state := e\<rparr>) = tally s1" "tally (s1\<lparr>se_state := e, se_started := True\<rparr>) = tally s1" for e
      by (simp_all add: tally_def)
    then have k: "counts (drop_on_error sid (flush_frames E fs (s1\<lparr>se_state := e, se_started := True\<rparr>)))"
      "idle_counted (se_drop_stream sid (s1\<lparr>se_state := e\<rparr>))" for sid fs e
      using s1 idle_counted_tally by (metis drop_on_error_counts flush_counts, metis drop_stream_tally)
    obtain e actions where "(if se_started s1 then (se_state s1, Some []) else eg_on_start G (se_state s1)) = (e, actions)" by fastforce
    then show ?thesis using True Some k by (cases actions) (simp_all add: se_open_def Let_def)
  qed (use True in \<open>simp add: se_open_def Let_def\<close>)
qed (use assms in \<open>auto simp: se_open_def\<close>)

lemma replies_counts: "idle_counted s \<Longrightarrow> idle_counted (s\<lparr>se_replies := r\<rparr>)"
  by (simp add: idle_counted_def)

lemma message_counts: "idle_counted s \<Longrightarrow> counts (se_message E G m s)"
  by (cases m) (auto intro!: send_counts open_counts close_counts counts_and_then replies_counts)

lemma push_tally: "se_push G sid d s = (s', full) \<Longrightarrow> tally s' = tally s"
  by (auto simp: se_push_def Let_def split: if_splits option.splits) (simp add: tally_def)

lemma incoming_counts:
  assumes "idle_counted s"
  shows "counts (se_incoming E G sid s)"
proof -
  have "idle_counted (s\<lparr>se_next := sid\<rparr>)" if "se_next s < sid"
    using assms that by (auto simp: idle_counted_def split: option.splits)
  moreover have "idle_counted (se_drop_stream sid s')" if "idle_counted s'" for s' :: "'a session"
    using that idle_counted_tally [OF drop_stream_tally] by blast
  ultimately show ?thesis using stream_counts [OF assms, of sid]
    by (auto simp: se_incoming_def Let_def assms split: option.splits
        intro!: send_counts counts_and_then drop_on_error_counts)
qed

lemma action_counts: "idle_counted s \<Longrightarrow> counts (se_action E G a s)"
proof (cases a)
  case (Push_Stream_Data sid d)
  assume "idle_counted s"
  then show ?thesis using Push_Stream_Data idle_counted_tally [OF push_tally, of G sid d s]
    by (auto split: prod.splits intro!: close_counts)
next
  case (Close_Local_Stream sid)
  assume "idle_counted s"
  then show ?thesis using Close_Local_Stream removed_idle_counted [OF _ _ entry_remove_tally, of s sid None] by auto
qed (auto intro!: send_counts flush_counts incoming_counts close_counts counts_and_then)

lemma actions_counts: "idle_counted s \<Longrightarrow> counts (se_actions E G as s)"
  by (induction as arbitrary: s) (auto intro!: counts_and_then action_counts)

lemma received_counts:
  assumes "idle_counted s"
  shows "counts (se_received E G f s)"
proof -
  have "tally (se_accept G f (s\<lparr>se_state := e\<rparr>)) = tally s" for e by (simp add: se_accept_def) (simp add: tally_def)
  then have "idle_counted (se_accept G f (s\<lparr>se_state := e\<rparr>))" "idle_counted (s\<lparr>se_state := e\<rparr>)" for e
    using assms idle_counted_tally by (blast, simp add: idle_counted_def)
  moreover have "idle_counted (s'\<lparr>se_padding := p\<rparr>)" if "idle_counted s'" for s' p using that by (simp add: idle_counted_def)
  ultimately show ?thesis using assms
    by (auto simp: se_received_def Let_def intro!: actions_counts split: prod.splits option.splits)
qed

lemma step_counts: "session_step E G s s' \<Longrightarrow> idle_counted s \<Longrightarrow> idle_counted s'"
proof (induction rule: session_step.induct)
  case (step_message m s s')
  then show ?case using message_counts [of s E G m] by simp
next
  case (step_frame f s s')
  then show ?case using received_counts [of s E G f] by simp
next
  case (step_dropped sid s s')
  then show ?case using close_counts [of s E G sid None] by simp
next
  case (step_read sid room s s' r)
  then have "tally s' = tally s"
    by (auto simp: se_read_def split: option.splits prod.splits) (simp add: tally_def)
  then show ?case using step_read idle_counted_tally by blast
next
  case (step_drop_stream s sid)
  then show ?case using idle_counted_tally [OF drop_stream_tally] by blast
next
  case (step_writer s w f)
  then show ?case by (simp add: idle_counted_def)
qed

interpretation si: step_system "session_step E G" "session_start G e callback idle" idle_counted for E G e callback idle
  by unfold_locales (simp_all add: idle_counted_def session_start_def step_counts [unfolded idle_counted_def])

lemma idle_once_per_stream:
  assumes "(session_step E G)\<^sup>*\<^sup>* (session_start G e callback idle) s" "se_idle s = Some calls"
  shows "calls + length (se_entries s) \<le> se_next s"
  using si.reachable_inv [OF assms(1)] assms(2) by (simp add: idle_counted_def)

section \<open>Properties\<close>

text \<open>
  C37. A session never exceeds its bounds and never panics, whatever the peer, the engine and the streams
  do. In every state reachable by messages, frames, reads, dropped streams and the state of the writer,
  at most 128 streams are registered, under distinct ids none of which was used before, the chunks
  queued on all streams and the remaining credit are together exactly the 4 MiB of the session, so that
  no more is ever queued, and every further message, frame or closure is handled.
\<close>

theorem session_resources_bounded:
  assumes "(session_step E G)\<^sup>*\<^sup>* (session_start G e callback idle) s"
  shows "length (se_entries s) \<le> MAX_STREAMS \<and> distinct (se_entries s) \<and> distinct (map fst (se_streams s)) \<and>
    se_credit s + table_sum held_credit (se_streams s) = RECEIVE_BYTES \<and>
    (\<forall>m. se_message E G m s \<noteq> None) \<and> (\<forall>f. se_received E G f s \<noteq> None) \<and> (\<forall>sid x. se_close E G sid x s \<noteq> None)"
proof -
  have ok: "session_ok s" using ss.reachable_inv [OF assms] .
  have "r \<noteq> None" if "keeps r" for r :: "'a handled" using that by (metis keeps_None)
  then show ?thesis
    using ok message_keeps [OF ok] received_keeps [OF ok] close_keeps [OF ok] by (simp add: session_ok_def)
qed

definition sample_engine :: "unit engine" where
  "sample_engine =
     \<lparr>eg_on_frame = (\<lambda>e c f. (e, Some [Push_Stream_Data (unat (af_stream f)) (af_data f)])), eg_on_start = (\<lambda>e. (e, Some [])),
      eg_padding = (\<lambda>e. any_sample_padding), eg_syn = 1, eg_psh = 2, eg_fin = 3, eg_syn_ack = 7, eg_alert = 5, eg_update = 6,
      eg_received = 56\<rparr>"

definition opened_session :: "unit session" where
  "opened_session =
     (case se_message any_sample_env sample_engine (Msg_Open [1]) (session_start sample_engine () None True) of
        Some (s, _) \<Rightarrow> s | None \<Rightarrow> session_start sample_engine () None True)"

theorem session_resources_bounded_witness:
  "se_entries opened_session = [1] \<and>
    se_credit opened_session + table_sum held_credit (se_streams opened_session) = RECEIVE_BYTES \<and>
    se_received any_sample_env sample_engine \<lparr>af_command = 2, af_stream = 1, af_data = [9]\<rparr> opened_session \<noteq> None"
proof -
  let ?s = "session_start sample_engine () None True"
  have open1: "se_message any_sample_env sample_engine (Msg_Open [1]) ?s = Some (opened_session, Inr ())" "se_entries opened_session = [1]"
    by (simp_all add: opened_session_def se_open_def session_start_def se_stream_def se_send_def flush_frames_def and_then_def drop_on_error_def
        sample_engine_def start_frames_def
        frame_new_def frame_data_def any_sample_env_def any_sample_encode_def Let_def)
  have "session_step any_sample_env sample_engine ?s opened_session" using open1(1) by (rule step_message)
  then have "(session_step any_sample_env sample_engine)\<^sup>*\<^sup>* ?s opened_session" by (rule r_into_rtranclp)
  from session_resources_bounded [OF this] open1(2) show ?thesis by blast
qed

end
