(* ===== verification/Anytls_Uot.thy ===== *)
theory Anytls_Uot
  imports Anytls_Wire
begin

text \<open>
  UDP over an AnyTLS stream (\<open>crates/anytls/src/udp.rs\<close>): the request and the framing of datagrams. The
  families 0, 1 and 2 stand for those of the SOCKS address codec, which is a parameter.
\<close>

definition SENTINEL :: bytes where
  "SENTINEL = map of_char ''sp.v2.udp-over-tcp.arpa''"

definition sentinel :: target where
  "sentinel = Domain SENTINEL 0"

definition is_sentinel :: "target \<Rightarrow> bool" where
  "is_sentinel t = (case t of Domain name _ \<Rightarrow> name = SENTINEL | Ip _ _ \<Rightarrow> False)"

definition uot_request :: "any_env \<Rightarrow> target \<Rightarrow> anytls_error + bytes" where
  "uot_request E destination = try_res (any_address E destination) (\<lambda>a. Inr (1 # a))"

definition uot_read_request :: "any_env \<Rightarrow> bytes \<Rightarrow> anytls_error + target option \<times> bytes" where
  "uot_read_request E input =
     try_res (any_read_exact 1 input) (\<lambda>(b, input).
     ensure (unat (b ! 0) \<le> 1) Invalid_Mode
       (try_res (read_target E input) (\<lambda>(t, input). Inr (if b ! 0 = 1 then Some t else None, input))))"

definition family_of :: "byte \<Rightarrow> byte option" where
  "family_of b = (if b = 0 then Some 1 else if b = 1 then Some 4 else if b = 2 then Some 3 else None)"

definition family_to :: "byte \<Rightarrow> byte option" where
  "family_to b = (if b = 1 then Some 0 else if b = 4 then Some 1 else if b = 3 then Some 2 else None)"

definition uot_read_packet :: "any_env \<Rightarrow> target option \<Rightarrow> bytes \<Rightarrow> anytls_error + (target \<times> bytes) \<times> bytes" where
  "uot_read_packet E connected input =
     try_res
       (case connected of
          Some destination \<Rightarrow> Inr (destination, input)
        | None \<Rightarrow>
            try_res (any_read_exact 1 input) (\<lambda>(b, input).
            try_res (or_error (family_of (b ! 0)) Invalid_Address) (\<lambda>family. read_target_family E family input)))
       (\<lambda>(t, input).
         try_res (any_read_exact 2 input) (\<lambda>(b, input).
         try_res (any_read_exact (u16_of (b ! 0) (b ! 1)) input) (\<lambda>(payload, input). Inr ((t, payload), input))))"

text \<open>\<open>None\<close> is the failing assertion on an empty address.\<close>

definition uot_write_packet :: "any_env \<Rightarrow> target \<Rightarrow> bytes \<Rightarrow> bool \<Rightarrow> (anytls_error + bytes) option" where
  "uot_write_packet E t payload connected =
     (if 65535 < length payload then Some (Inl Packet_Too_Large)
      else if connected then Some (Inr (be16 (length payload) @ payload))
      else
        (case any_address E t of
           Inl e \<Rightarrow> Some (Inl e)
         | Inr [] \<Rightarrow> None
         | Inr (f # a) \<Rightarrow>
             Some (try_res (or_error (family_to f) Invalid_Address) (\<lambda>f. Inr (f # a @ be16 (length payload) @ payload)))))"

text \<open>What the SOCKS address codec promises: an encoded address has a known family and is read back.\<close>

definition socks_codec :: "any_env \<Rightarrow> bool" where
  "socks_codec E \<longleftrightarrow> (\<forall>t b. ae_address E t = Some b \<longrightarrow>
     (\<exists>f a. b = f # a \<and> f \<in> {1, 3, 4} \<and> (\<forall>rest. ae_read_address E f (a @ rest) = Some (t, rest))))"

lemma any_address_read:
  assumes "socks_codec E" "any_address E t = Inr b"
  obtains f a where "b = f # a" "f \<in> {1, 3, 4}" "\<And>rest. read_target_family E f (a @ rest) = Inr (t, rest)"
proof -
  have a: "ae_address E t = Some b" and d: "\<And>n p. t = Domain n p \<Longrightarrow> n \<noteq> []"
    using assms(2) by (auto simp: any_address_def result_Inr split: target.splits)
  obtain f a where f: "b = f # a" "f \<in> {1, 3, 4}" "\<forall>rest. ae_read_address E f (a @ rest) = Some (t, rest)"
    using assms(1) a unfolding socks_codec_def by blast
  have "read_target_family E f (a @ rest) = Inr (t, rest)" for rest
    using f(3) d by (cases t) (auto simp: read_target_family_def)
  with f(1,2) show thesis by (rule that)
qed

lemma read_payload:
  assumes "length payload \<le> 65535"
  shows "try_res (any_read_exact 2 (be16 (length payload) @ payload @ rest)) (\<lambda>(b, input).
     try_res (any_read_exact (u16_of (b ! 0) (b ! 1)) input) (\<lambda>(p, input). Inr ((t, p), input))) = Inr ((t, payload), rest)"
proof -
  have "u16_of (be16 (length payload) ! 0) (be16 (length payload) ! 1) = length payload"
    using assms by (intro u16_of_be16) simp
  then show ?thesis by (simp add: any_read_exact_def)
qed

text \<open>A datagram written to the stream is read back, with its target, and exactly it is consumed.\<close>

lemma uot_packet_roundtrip:
  assumes "socks_codec E" "uot_write_packet E t payload (connected \<noteq> None) = Some (Inr sent)" "connected = None \<or> connected = Some t"
  shows "uot_read_packet E connected (sent @ rest) = Inr ((t, payload), rest)"
proof (cases connected)
  case (Some d)
  then have "sent = be16 (length payload) @ payload" "length payload \<le> 65535" "d = t"
    using assms(2,3) by (auto simp: uot_write_packet_def split: if_splits)
  then show ?thesis using Some read_payload [of payload rest t] by (simp add: uot_read_packet_def)
next
  case None
  obtain b where b: "any_address E t = Inr b" "length payload \<le> 65535"
    using assms(2) None by (cases "any_address E t") (auto simp: uot_write_packet_def split: if_splits)
  obtain f a where f: "b = f # a" "f \<in> {1, 3, 4}" "\<And>rest. read_target_family E f (a @ rest) = Inr (t, rest)"
    using any_address_read [OF assms(1) b(1)] by metis
  obtain g where g: "family_to f = Some g" "family_of g = Some f"
    using f(2) by (auto simp: family_to_def family_of_def)
  have "sent = g # a @ be16 (length payload) @ payload"
    using assms(2) None b f(1) g(1) by (simp add: uot_write_packet_def)
  then show ?thesis
    using None g(2) f(3) read_payload [OF b(2), of rest t] by (simp add: uot_read_packet_def any_read_exact_def)
qed

end
