(* ===== verification/Anytls_Pool.thy ===== *)
theory Anytls_Pool
  imports Hash_Table
begin

text \<open>
  The sessions an AnyTLS client keeps for reuse (\<open>Pool\<close> and its use by \<open>Client\<close> in
  \<open>crates/anytls/src/client.rs\<close>). The pool is behind a lock, so each locked section is one step; the
  cancellation tokens of the sessions are the argument \<open>closed\<close>, the clock the argument \<open>now\<close>. A failing
  assertion is \<open>None\<close>.
\<close>

section \<open>The pool\<close>

record slot =
  sl_idle :: "nat option"

text \<open>\<open>ap_dropped\<close> are the sessions whose slot was dropped, which closes their scope.\<close>

record any_pool =
  ap_sessions :: "(nat \<times> slot) list"
  ap_idle :: "nat list"
  ap_sequence :: nat
  ap_draining :: bool
  ap_dropped :: "nat list"

definition pool_default :: any_pool where
  "pool_default = \<lparr>ap_sessions = [], ap_idle = [], ap_sequence = 0, ap_draining = False, ap_dropped = []\<rparr>"

definition retain_slots :: "(nat \<times> slot \<Rightarrow> bool) \<Rightarrow> any_pool \<Rightarrow> any_pool" where
  "retain_slots keep p =
     p\<lparr>ap_sessions := filter keep (ap_sessions p),
       ap_dropped := ap_dropped p @ map fst (filter (\<lambda>x. \<not> keep x) (ap_sessions p))\<rparr>"

definition slot_live :: "nat \<Rightarrow> nat \<Rightarrow> (nat \<Rightarrow> bool) \<Rightarrow> nat \<times> slot \<Rightarrow> bool" where
  "slot_live timeout now closed x \<longleftrightarrow> \<not> closed (fst x) \<and>
     (case sl_idle (snd x) of None \<Rightarrow> True | Some since \<Rightarrow> now - since < timeout)"

definition ap_prune :: "nat \<Rightarrow> nat \<Rightarrow> (nat \<Rightarrow> bool) \<Rightarrow> any_pool \<Rightarrow> any_pool" where
  "ap_prune timeout now closed p =
     (let p = retain_slots (slot_live timeout now closed) p
      in p\<lparr>ap_idle := filter (\<lambda>sid. map_of (ap_sessions p) sid \<noteq> None) (ap_idle p)\<rparr>)"

definition ap_reuse :: "nat \<Rightarrow> nat \<Rightarrow> (nat \<Rightarrow> bool) \<Rightarrow> any_pool \<Rightarrow> (any_pool \<times> nat option) option" where
  "ap_reuse timeout now closed p =
     (let p = ap_prune timeout now closed p in
      if ap_idle p = [] then Some (p, None)
      else
        let sid = last (ap_idle p); p = p\<lparr>ap_idle := butlast (ap_idle p)\<rparr> in
        (case map_of (ap_sessions p) sid of
           None \<Rightarrow> None
         | Some slot \<Rightarrow>
             if sl_idle slot = None then None
             else Some (p\<lparr>ap_sessions := AList.update sid (slot\<lparr>sl_idle := None\<rparr>) (ap_sessions p)\<rparr>, Some sid)))"

definition ap_mark_idle :: "nat \<Rightarrow> nat \<Rightarrow> any_pool \<Rightarrow> any_pool option" where
  "ap_mark_idle now sid p =
     (if ap_draining p then Some (retain_slots (\<lambda>x. fst x \<noteq> sid) p)
      else
        (case map_of (ap_sessions p) sid of
           None \<Rightarrow> Some p
         | Some slot \<Rightarrow>
             if sl_idle slot \<noteq> None then None
             else Some (p\<lparr>ap_sessions := AList.update sid (slot\<lparr>sl_idle := Some now\<rparr>) (ap_sessions p),
                          ap_idle := ap_idle p @ [sid]\<rparr>)))"

text \<open>The two locked sections of \<open>new_session\<close>, and \<open>drain\<close>.\<close>

definition ap_allocate :: "any_pool \<Rightarrow> (any_pool \<times> nat) option" where
  "ap_allocate p =
     (if 18446744073709551615 < ap_sequence p + 1 then None
      else Some (p\<lparr>ap_sequence := ap_sequence p + 1\<rparr>, ap_sequence p + 1))"

definition ap_publish :: "nat \<Rightarrow> any_pool \<Rightarrow> any_pool" where
  "ap_publish sid p = p\<lparr>ap_sessions := AList.update sid \<lparr>sl_idle = None\<rparr> (ap_sessions p)\<rparr>"

definition ap_drain :: "any_pool \<Rightarrow> any_pool" where
  "ap_drain p = (retain_slots (\<lambda>x. sl_idle (snd x) = None) (p\<lparr>ap_draining := True\<rparr>))\<lparr>ap_idle := []\<rparr>"

section \<open>The client\<close>

text \<open>
  The client around its pool: the sessions being set up, those handed to an opener that have not become idle
  since, those whose task ended, and the clock. A session reports idle when the stream it was handed
  out for is closed, at most once per stream (\<open>idle_once_per_stream\<close> of the session's theory).
\<close>

record any_client =
  ac_pool :: any_pool
  ac_starting :: "nat list"
  ac_using :: "nat list"
  ac_ended :: "nat list"
  ac_now :: nat

definition client_new :: any_client where
  "client_new = \<lparr>ac_pool = pool_default, ac_starting = [], ac_using = [], ac_ended = [], ac_now = 0\<rparr>"

definition is_closed :: "any_client \<Rightarrow> nat \<Rightarrow> bool" where
  "is_closed c sid \<longleftrightarrow> sid \<in> set (ac_ended c)"

inductive client_step :: "nat \<Rightarrow> any_client \<Rightarrow> any_client \<Rightarrow> bool" for timeout where
  cl_tick: "client_step timeout c (c\<lparr>ac_now := ac_now c + d\<rparr>)"
| cl_ended: "client_step timeout c (c\<lparr>ac_ended := sid # ac_ended c\<rparr>)"
| cl_prune: "client_step timeout c (c\<lparr>ac_pool := ap_prune timeout (ac_now c) (is_closed c) (ac_pool c)\<rparr>)"
| cl_reuse: "ap_reuse timeout (ac_now c) (is_closed c) (ac_pool c) = Some (p, Some sid) \<Longrightarrow>
    client_step timeout c (c\<lparr>ac_pool := p, ac_using := sid # ac_using c\<rparr>)"
| cl_none: "ap_reuse timeout (ac_now c) (is_closed c) (ac_pool c) = Some (p, None) \<Longrightarrow>
    client_step timeout c (c\<lparr>ac_pool := p\<rparr>)"
| cl_allocate: "ap_allocate (ac_pool c) = Some (p, sid) \<Longrightarrow>
    client_step timeout c (c\<lparr>ac_pool := p, ac_starting := sid # ac_starting c\<rparr>)"
| cl_publish: "sid \<in> set (ac_starting c) \<Longrightarrow>
    client_step timeout c
      (c\<lparr>ac_pool := ap_publish sid (ac_pool c), ac_starting := remove1 sid (ac_starting c), ac_using := sid # ac_using c\<rparr>)"
| cl_abandon: "client_step timeout c (c\<lparr>ac_starting := remove1 sid (ac_starting c)\<rparr>)"
| cl_idle: "sid \<in> set (ac_using c) \<Longrightarrow> ap_mark_idle (ac_now c) sid (ac_pool c) = Some p \<Longrightarrow>
    client_step timeout c (c\<lparr>ac_pool := p, ac_using := remove1 sid (ac_using c)\<rparr>)"
| cl_drain: "client_step timeout c (c\<lparr>ac_pool := ap_drain (ac_pool c)\<rparr>)"

section \<open>Invariant\<close>

definition idle_slot :: "any_pool \<Rightarrow> nat \<Rightarrow> bool" where
  "idle_slot p sid \<longleftrightarrow> (\<exists>slot. map_of (ap_sessions p) sid = Some slot \<and> sl_idle slot \<noteq> None)"

text \<open>The idle list is exactly the sessions with an idle time, each once.\<close>

definition idle_pool_ok :: "any_pool \<Rightarrow> bool" where
  "idle_pool_ok p \<longleftrightarrow> distinct (map fst (ap_sessions p)) \<and> distinct (ap_idle p) \<and> set (ap_idle p) = {sid. idle_slot p sid} \<and>
     fst ` set (ap_sessions p) \<subseteq> {..ap_sequence p}"

definition client_ok :: "any_client \<Rightarrow> bool" where
  "client_ok c \<longleftrightarrow> idle_pool_ok (ac_pool c) \<and> distinct (ac_starting c @ ac_using c) \<and>
     set (ac_starting c @ ac_using c) \<subseteq> {..ap_sequence (ac_pool c)} \<and>
     set (ac_using c) \<inter> set (ap_idle (ac_pool c)) = {} \<and>
     set (ac_starting c) \<inter> fst ` set (ap_sessions (ac_pool c)) = {}"

lemma idle_list: "idle_pool_ok p \<Longrightarrow> sid \<in> set (ap_idle p) \<longleftrightarrow> idle_slot p sid"
  by (simp add: idle_pool_ok_def)

lemma idle_retain:
  "distinct (map fst (ap_sessions p)) \<Longrightarrow>
     idle_slot (retain_slots keep p) sid \<longleftrightarrow>
       (\<exists>slot. map_of (ap_sessions p) sid = Some slot \<and> keep (sid, slot) \<and> sl_idle slot \<noteq> None)"
  by (cases "map_of (ap_sessions p) sid") (simp_all add: idle_slot_def retain_slots_def map_of_retain)

lemma idle_update [simp]:
  "idle_slot (p\<lparr>ap_sessions := AList.update sid slot (ap_sessions p)\<rparr>) k \<longleftrightarrow> (if k = sid then sl_idle slot \<noteq> None else idle_slot p k)"
  by (simp add: idle_slot_def update_conv')

lemma idle_fields [simp]:
  "idle_slot (p\<lparr>ap_idle := a\<rparr>) = idle_slot p" "idle_slot (p\<lparr>ap_sequence := b\<rparr>) = idle_slot p"
  "idle_slot (p\<lparr>ap_draining := d\<rparr>) = idle_slot p"
  by (simp_all add: idle_slot_def fun_eq_iff)

lemma retain_fields [simp]:
  "ap_idle (retain_slots keep p) = ap_idle p" "ap_sequence (retain_slots keep p) = ap_sequence p"
  "ap_sessions (retain_slots keep p) = filter keep (ap_sessions p)"
  by (simp_all add: retain_slots_def)

text \<open>The sessions that survive a prune, in idle order.\<close>

definition eligible :: "nat \<Rightarrow> nat \<Rightarrow> (nat \<Rightarrow> bool) \<Rightarrow> any_pool \<Rightarrow> nat list" where
  "eligible timeout now closed p =
     filter (\<lambda>sid. case map_of (ap_sessions p) sid of None \<Rightarrow> False | Some slot \<Rightarrow> slot_live timeout now closed (sid, slot)) (ap_idle p)"

lemma prune_idle: "idle_pool_ok p \<Longrightarrow> ap_idle (ap_prune timeout now closed p) = eligible timeout now closed p"
  by (auto simp: ap_prune_def eligible_def idle_pool_ok_def map_of_retain Let_def intro!: filter_cong split: option.splits)

lemma prune_sessions:
  "ap_sessions (ap_prune timeout now closed p) = filter (slot_live timeout now closed) (ap_sessions p)"
  "ap_sequence (ap_prune timeout now closed p) = ap_sequence p"
  by (simp_all add: ap_prune_def Let_def)

lemma prune_ok:
  assumes "idle_pool_ok p"
  shows "idle_pool_ok (ap_prune timeout now closed p)"
proof -
  have d: "distinct (map fst (ap_sessions p))" using assms by (simp add: idle_pool_ok_def)
  have "idle_slot (ap_prune timeout now closed p) sid \<longleftrightarrow> sid \<in> set (eligible timeout now closed p)" for sid
    by (cases "map_of (ap_sessions p) sid")
      (simp_all add: idle_slot_def prune_sessions map_of_retain [OF d] eligible_def idle_list [OF assms] conj_commute)
  then show ?thesis
    using assms d by (auto simp: idle_pool_ok_def prune_idle [OF assms] prune_sessions distinct_retain eligible_def)
qed

lemma butlast_last_set: "distinct xs \<Longrightarrow> xs = ys @ [x] \<Longrightarrow> set ys = set xs - {x}"
  by auto

text \<open>What \<open>reuse\<close> does: it takes the last eligible session.\<close>

lemma reuse_spec:
  fixes timeout now :: nat and closed :: "nat \<Rightarrow> bool"
  assumes "idle_pool_ok p"
  defines "ids \<equiv> eligible timeout now closed p"
  shows "\<exists>p'. ap_reuse timeout now closed p = Some (p', if ids = [] then None else Some (last ids)) \<and> idle_pool_ok p' \<and>
    ap_idle p' = butlast ids \<and> ap_sequence p' = ap_sequence p \<and>
    fst ` set (ap_sessions p') \<subseteq> fst ` set (ap_sessions p)"
proof -
  define q where "q = ap_prune timeout now closed p"
  have q: "idle_pool_ok q" "ap_idle q = ids" "ap_sequence q = ap_sequence p" "fst ` set (ap_sessions q) \<subseteq> fst ` set (ap_sessions p)"
    using prune_ok [OF assms(1)] prune_idle [OF assms(1)] by (auto simp: q_def ids_def prune_sessions)
  show ?thesis
  proof (cases "ids = []")
    case True
    then show ?thesis using q by (simp add: ap_reuse_def q_def [symmetric])
  next
    case False
    define sid where "sid = last ids"
    have "sid \<in> set (ap_idle q)" using False q(2) last_in_set [of ids] by (simp add: sid_def)
    then obtain slot where slot: "map_of (ap_sessions q) sid = Some slot" "sl_idle slot \<noteq> None"
      using q(1) by (auto simp: idle_pool_ok_def idle_slot_def)
    have split: "ids = butlast ids @ [sid]" using False by (simp add: sid_def)
    then have b: "distinct (butlast ids)" "set (butlast ids) = set ids - {sid}"
      using q(1,2) butlast_last_set [OF _ split] by (simp_all add: idle_pool_ok_def distinct_butlast)
    define p' where "p' = q\<lparr>ap_idle := butlast ids, ap_sessions := AList.update sid (slot\<lparr>sl_idle := None\<rparr>) (ap_sessions q)\<rparr>"
    have key: "insert sid (fst ` set (ap_sessions q)) = fst ` set (ap_sessions q)"
      using slot(1) by (metis domI dom_map_of_conv_image_fst insert_absorb)
    have "ap_reuse timeout now closed p = Some (p', Some sid)"
      using False q(2) slot by (simp add: ap_reuse_def q_def [symmetric] sid_def p'_def Let_def)
    moreover have "idle_pool_ok p'"
      using q(1,2) b key by (auto simp: idle_pool_ok_def p'_def distinct_update dom_update idle_slot_def update_conv')
    ultimately show ?thesis using q False key by (simp add: p'_def sid_def dom_update)
  qed
qed

text \<open>Every locked section keeps the pool well formed.\<close>

named_theorems pool_inv \<open>preservation of the pool invariant\<close>

lemma known_idle: "idle_pool_ok p \<Longrightarrow> sid \<in> set (ap_idle p) \<Longrightarrow> sid \<in> fst ` set (ap_sessions p)"
  by (metis domI dom_map_of_conv_image_fst idle_list idle_slot_def)

lemma mark_idle_spec:
  assumes "idle_pool_ok p" "sid \<notin> set (ap_idle p)"
  shows "\<exists>p'. ap_mark_idle now sid p = Some p' \<and> idle_pool_ok p' \<and> ap_sequence p' = ap_sequence p \<and>
    set (ap_idle p') \<subseteq> insert sid (set (ap_idle p)) \<and> fst ` set (ap_sessions p') \<subseteq> fst ` set (ap_sessions p)"
proof (cases "ap_draining p")
  case True
  have d: "distinct (map fst (ap_sessions p))" using assms(1) by (simp add: idle_pool_ok_def)
  have "idle_slot (retain_slots (\<lambda>x. fst x \<noteq> sid) p) k \<longleftrightarrow> idle_slot p k" for k
    using assms(2) idle_list [OF assms(1)] idle_retain [OF d] by (auto simp: idle_slot_def)
  then have "idle_pool_ok (retain_slots (\<lambda>x. fst x \<noteq> sid) p)"
    using assms(1) by (auto simp: idle_pool_ok_def distinct_retain)
  then show ?thesis using True by (auto simp: ap_mark_idle_def)
next
  case False
  show ?thesis
  proof (cases "map_of (ap_sessions p) sid")
    case (Some slot)
    then have n: "sl_idle slot = None" using assms idle_list [OF assms(1)] by (auto simp: idle_slot_def)
    define p' where "p' = p\<lparr>ap_sessions := AList.update sid (slot\<lparr>sl_idle := Some now\<rparr>) (ap_sessions p), ap_idle := ap_idle p @ [sid]\<rparr>"
    have key: "insert sid (fst ` set (ap_sessions p)) = fst ` set (ap_sessions p)"
      using Some by (metis domI dom_map_of_conv_image_fst insert_absorb)
    have "idle_pool_ok p'"
      using assms key by (auto simp: idle_pool_ok_def p'_def distinct_update dom_update)
    then show ?thesis using False Some n key by (simp add: ap_mark_idle_def p'_def dom_update)
  qed (use False assms(1) in \<open>auto simp: ap_mark_idle_def\<close>)
qed

lemma publish_ok [pool_inv]:
  assumes "idle_pool_ok p" "sid \<notin> fst ` set (ap_sessions p)" "sid \<le> ap_sequence p"
  shows "idle_pool_ok (ap_publish sid p)"
proof -
  have "\<not> idle_slot p sid" using assms known_idle idle_list by blast
  then show ?thesis using assms by (auto simp: idle_pool_ok_def ap_publish_def distinct_update dom_update)
qed

lemma drain_ok [pool_inv]:
  assumes "idle_pool_ok p"
  shows "idle_pool_ok (ap_drain p)"
proof -
  have d: "distinct (map fst (ap_sessions (p\<lparr>ap_draining := True\<rparr>)))" using assms by (simp add: idle_pool_ok_def)
  show ?thesis using assms idle_retain [OF d] by (auto simp: idle_pool_ok_def ap_drain_def distinct_retain)
qed

lemma client_ok_pool:
  assumes "client_ok c" "idle_pool_ok p" "ap_sequence p = ap_sequence (ac_pool c)"
    "fst ` set (ap_sessions p) \<subseteq> fst ` set (ap_sessions (ac_pool c))"
    "distinct (ac_starting c @ us)" "set us \<subseteq> {..ap_sequence (ac_pool c)}" "set us \<inter> set (ap_idle p) = {}"
  shows "client_ok (c\<lparr>ac_pool := p, ac_using := us\<rparr>)"
proof -
  have "set (ac_starting c) \<inter> fst ` set (ap_sessions p) = {}"
    using assms(1,4) unfolding client_ok_def by blast
  then show ?thesis using assms by (simp add: client_ok_def)
qed

lemma reuse_client_ok:
  assumes "client_ok c" "ap_reuse timeout (ac_now c) (is_closed c) (ac_pool c) = Some (p, Some sid)"
  shows "client_ok (c\<lparr>ac_pool := p, ac_using := sid # ac_using c\<rparr>)"
proof -
  have p: "idle_pool_ok (ac_pool c)" using assms(1) by (simp add: client_ok_def)
  let ?ids = "eligible timeout (ac_now c) (is_closed c) (ac_pool c)"
  from reuse_spec [OF p, of timeout "ac_now c" "is_closed c"] assms(2)
  have r: "?ids \<noteq> []" "sid = last ?ids" "idle_pool_ok p" "ap_idle p = butlast ?ids" "ap_sequence p = ap_sequence (ac_pool c)"
    "fst ` set (ap_sessions p) \<subseteq> fst ` set (ap_sessions (ac_pool c))" by (auto split: if_splits)
  have i: "sid \<in> set (ap_idle (ac_pool c))" using r(1,2) last_in_set [of ?ids] by (auto simp: eligible_def)
  have "distinct ?ids" using p by (simp add: eligible_def idle_pool_ok_def)
  then have "set (ap_idle p) = set ?ids - {sid}" unfolding r(4) by (rule butlast_last_set) (use r(1,2) in simp)
  then have "set (ap_idle p) \<subseteq> set (ap_idle (ac_pool c)) - {sid}" by (auto simp: eligible_def)
  moreover have "sid \<notin> set (ac_starting c)" "sid \<notin> set (ac_using c)" "sid \<le> ap_sequence (ac_pool c)"
    using assms(1) i known_idle [OF p i] p unfolding client_ok_def idle_pool_ok_def by blast+
  ultimately show ?thesis
    using assms(1) r(3,5,6) by (intro client_ok_pool) (auto simp: client_ok_def)
qed

lemma allocate_client_ok:
  assumes "client_ok c" "ap_allocate (ac_pool c) = Some (p, sid)"
  shows "client_ok (c\<lparr>ac_pool := p, ac_starting := sid # ac_starting c\<rparr>)"
proof -
  let ?n = "ap_sequence (ac_pool c)"
  have p: "p = (ac_pool c)\<lparr>ap_sequence := Suc ?n\<rparr>" "sid = Suc ?n"
    using assms(2) by (auto simp: ap_allocate_def split: if_splits)
  have le: "{..?n} \<subseteq> {..Suc ?n}" by auto
  have s: "fst ` set (ap_sessions (ac_pool c)) \<subseteq> {..?n}" "set (ac_starting c) \<subseteq> {..?n}" "set (ac_using c) \<subseteq> {..?n}"
    using assms(1) by (auto simp: client_ok_def idle_pool_ok_def)
  have "idle_pool_ok p" using assms(1) order_trans [OF s(1) le] unfolding client_ok_def idle_pool_ok_def p(1) by simp
  moreover have "sid \<notin> set (ac_starting c)" "sid \<notin> set (ac_using c)"
    using s unfolding p(2) by auto
  moreover have "sid \<notin> fst ` set (ap_sessions (ac_pool c))" using s(1) unfolding p(2) by (meson atMost_iff not_less_eq_eq subsetD order_refl)
  ultimately show ?thesis using assms(1) order_trans [OF s(2) le] order_trans [OF s(3) le]
    unfolding client_ok_def p(1) by (simp add: p(2))
qed

lemma step_client_ok: "client_step timeout c c' \<Longrightarrow> client_ok c \<Longrightarrow> client_ok c'"
proof (induction rule: client_step.induct)
  case (cl_prune c)
  then have p: "idle_pool_ok (ac_pool c)" by (simp add: client_ok_def)
  let ?q = "ap_prune timeout (ac_now c) (is_closed c) (ac_pool c)"
  have "set (ap_idle ?q) \<subseteq> set (ap_idle (ac_pool c))" unfolding prune_idle [OF p] by (auto simp: eligible_def)
  then have "set (ac_using c) \<inter> set (ap_idle ?q) = {}" using cl_prune unfolding client_ok_def by blast
  moreover have "fst ` set (ap_sessions ?q) \<subseteq> fst ` set (ap_sessions (ac_pool c))" unfolding prune_sessions by auto
  ultimately show ?case
    using client_ok_pool [OF cl_prune prune_ok [OF p] prune_sessions(2), of _ _ _ "ac_using c"] cl_prune by (simp add: client_ok_def)
next
  case (cl_reuse c p sid)
  then show ?case by (intro reuse_client_ok)
next
  case (cl_none c p)
  then have p: "idle_pool_ok (ac_pool c)" by (simp add: client_ok_def)
  let ?ids = "eligible timeout (ac_now c) (is_closed c) (ac_pool c)"
  from reuse_spec [OF p, of timeout "ac_now c" "is_closed c"] cl_none(1)
  have "?ids = []" "idle_pool_ok p" "ap_idle p = []" "ap_sequence p = ap_sequence (ac_pool c)"
    "fst ` set (ap_sessions p) \<subseteq> fst ` set (ap_sessions (ac_pool c))" by (auto split: if_splits)
  then show ?case using client_ok_pool [of c p "ac_using c"] cl_none.prems by (simp add: client_ok_def)
next
  case (cl_allocate c p sid)
  then show ?case by (intro allocate_client_ok)
next
  case (cl_publish sid c)
  then have "idle_pool_ok (ap_publish sid (ac_pool c))" by (intro publish_ok) (auto simp: client_ok_def)
  moreover have "sid \<notin> set (ap_idle (ac_pool c))"
    using cl_publish known_idle [of "ac_pool c" sid] by (auto simp: client_ok_def)
  ultimately show ?case using cl_publish by (auto simp: client_ok_def ap_publish_def dom_update)
next
  case (cl_abandon c sid)
  then show ?case using set_remove1_subset [of sid "ac_starting c"] by (auto simp: client_ok_def)
next
  case (cl_idle sid c p)
  then have "idle_pool_ok (ac_pool c)" "sid \<notin> set (ap_idle (ac_pool c))" by (auto simp: client_ok_def)
  from mark_idle_spec [OF this, of "ac_now c"] cl_idle(2)
  have "idle_pool_ok p" "ap_sequence p = ap_sequence (ac_pool c)" "set (ap_idle p) \<subseteq> insert sid (set (ap_idle (ac_pool c)))"
    "fst ` set (ap_sessions p) \<subseteq> fst ` set (ap_sessions (ac_pool c))" by auto
  moreover have "distinct (ac_using c)" using cl_idle.prems by (simp add: client_ok_def)
  ultimately show ?case using cl_idle.prems by (intro client_ok_pool) (auto simp: client_ok_def set_remove1_eq)
next
  case (cl_drain c)
  then have "idle_pool_ok (ap_drain (ac_pool c))" by (intro drain_ok) (simp add: client_ok_def)
  then show ?case using cl_drain by (auto simp: client_ok_def ap_drain_def)
qed (auto simp: client_ok_def)

lemma client_new_ok: "client_ok client_new"
  by (simp add: client_ok_def client_new_def idle_pool_ok_def pool_default_def idle_slot_def)

interpretation cl: step_system "client_step timeout" client_new client_ok for timeout
  by unfold_locales (auto intro: client_new_ok step_client_ok)

section \<open>Properties\<close>

text \<open>
  C38. A pooled session is never shared and never stale. However openers, session tasks, the cleanup and
  \<open>drain\<close> interleave, \<open>reuse\<close> runs without a failing assertion and returns the session that became idle last
  among those that are alive and idle for less than the timeout, or nothing when there is none; a session it
  returns is in no other opener's hands; and a session in use can always be returned as idle.
\<close>

theorem reused_session_is_exclusive:
  fixes timeout :: nat and c :: any_client
  assumes "(client_step timeout)\<^sup>*\<^sup>* client_new c"
  defines "ids \<equiv> eligible timeout (ac_now c) (is_closed c) (ac_pool c)"
  shows "map_option snd (ap_reuse timeout (ac_now c) (is_closed c) (ac_pool c)) = Some (if ids = [] then None else Some (last ids)) \<and>
    set ids \<inter> set (ac_using c) = {} \<and> distinct (ac_using c) \<and>
    list_all (\<lambda>sid. ap_mark_idle (ac_now c) sid (ac_pool c) \<noteq> None) (ac_using c)"
proof -
  have ok: "client_ok c" using cl.reachable_inv [OF assms(1)] .
  then have p: "idle_pool_ok (ac_pool c)" by (simp add: client_ok_def)
  have "list_all (\<lambda>sid. ap_mark_idle (ac_now c) sid (ac_pool c) \<noteq> None) (ac_using c)"
    using mark_idle_spec [OF p] ok by (fastforce simp: list_all_iff client_ok_def)
  moreover obtain p' where "ap_reuse timeout (ac_now c) (is_closed c) (ac_pool c) = Some (p', if ids = [] then None else Some (last ids))"
    using reuse_spec [OF p] unfolding ids_def by metis
  moreover have "set ids \<subseteq> set (ap_idle (ac_pool c))" by (auto simp: ids_def eligible_def)
  ultimately show ?thesis using ok by (auto simp: client_ok_def)
qed

text \<open>A session that was set up, used and returned.\<close>

definition sample_client :: any_client where
  "sample_client =
     \<lparr>ac_pool = \<lparr>ap_sessions = [(1, \<lparr>sl_idle = Some 5\<rparr>)], ap_idle = [1], ap_sequence = 1, ap_draining = False, ap_dropped = []\<rparr>,
      ac_starting = [], ac_using = [], ac_ended = [], ac_now = 5\<rparr>"

lemma sample_client_reached: "(client_step 60)\<^sup>*\<^sup>* client_new sample_client"
proof -
  define p1 where "p1 = pool_default\<lparr>ap_sequence := 1\<rparr>"
  define c1 where "c1 = client_new\<lparr>ac_pool := p1, ac_starting := [1]\<rparr>"
  define c2 where "c2 = c1\<lparr>ac_pool := ap_publish 1 p1, ac_starting := [], ac_using := [1]\<rparr>"
  define c3 where "c3 = c2\<lparr>ac_now := 5\<rparr>"
  have "client_step 60 client_new c1"
    using cl_allocate [of client_new p1 1 60] by (simp add: c1_def p1_def client_new_def ap_allocate_def pool_default_def)
  moreover have "client_step 60 c1 c2"
    using cl_publish [of 1 c1 60] by (simp add: c2_def c1_def client_new_def)
  moreover have "client_step 60 c2 c3"
    using cl_tick [of 60 c2 5] by (simp add: c3_def c2_def c1_def client_new_def)
  moreover have "client_step 60 c3 sample_client"
    using cl_idle [of 1 c3 "ac_pool sample_client" 60]
    by (simp add: c3_def c2_def c1_def p1_def client_new_def sample_client_def ap_mark_idle_def ap_publish_def pool_default_def)
  ultimately show ?thesis by (meson converse_rtranclp_into_rtranclp rtranclp.rtrancl_refl)
qed

theorem reused_session_is_exclusive_witness:
  "map_option snd (ap_reuse 60 (ac_now sample_client) (is_closed sample_client) (ac_pool sample_client)) = Some (Some 1)"
  using reused_session_is_exclusive [OF sample_client_reached]
  by (simp add: eligible_def sample_client_def slot_live_def is_closed_def)

end
