(* ===== verification/Spec2Isabelle.thy ===== *)
theory Spec2Isabelle
  imports Tcp_Storage Queue_Concurrent Chunk Naive_Padding Hysteria_Udp Fragment_Routes Sniff Udp_Encoder
    Shadowsocks Dns_Cache Anytls_Session Anytls_Uot Anytls_Pool
begin

text \<open>
  A verification library for kotoconn, a proxy that accepts connections (a TUN device, SOCKS5, HTTP and encrypted
  protocols), lets a policy script choose a route for each, and forwards streams and datagrams over a carrier. The
  library models the parts of \<open>crates/\<close> that hold state or parse untrusted input: buffers, channels, wire
  formats, reassembly and session tables. Tasks, sockets and third-party protocol engines surround them.

  \<^bold>\<open>Conventions.\<close> Bytes are 8-bit words, a \<open>usize\<close> is a natural number with the wrap-around or the
  checked operation written out where the source relies on it, instants and durations are nanoseconds. A struct is a
  record whose fields have a prefix of their own, an enum a datatype. A handler takes the state and returns it with
  its result; an error is the left injection of a sum; a poll is \<open>Pending\<close> or \<open>Ready\<close>. A panic, including
  a failing \<open>debug_assert!\<close>, is the value \<open>None\<close>, so that a theorem which gives a result also says
  that there is no panic. Loops are structural or have a measure; the ones that could run forever on an inconsistent
  state are \<open>partial_function (option)\<close>, and the theorems show that they return. No fuel is used. Hash maps
  are association lists (\<open>Hash_Table\<close>), ordered maps are sorted lists (\<open>Ordered_Map\<close>, with the locale
  \<open>btree_map\<close> as its contract). \<open>Prelude\<close> and \<open>Text\<close> hold the shared vocabulary and the functions of the
  standard library; the locale \<open>step_system\<close> gives the invariants of reachable states.

  \<^bold>\<open>Parameters.\<close> Code of other packages is an argument of the definitions, with its documented behaviour as a
  named hypothesis and a concrete instance at which the properties are evaluated: the \<open>SegQueue\<close> of crossbeam
  (\<open>seg_fifo\<close>), the wire accessors and the range tracker of smoltcp (\<open>ip_wire_ok\<close>), the integers of quinn and
  the text of socket addresses (\<open>varint_ok\<close>, \<open>addr_text_ok\<close>), the TLS acceptor and QUIC packet protection of
  rustls, the HTTP parser, the shadowsocks crypto stream, the moka cache, and the frame codec, padding factory and
  engine of the anytls library (\<open>frame_codec\<close>). Random padding and the clock are arguments. The hypotheses say only
  what is documented: \<open>ip_wire_ok\<close> does not say that an IPv4 header length field is at least five, so the theorems
  on \<open>parse\<close> and \<open>decode\<close> state the panic on such a packet (\<open>short_header\<close>) next to what holds otherwise.

  \<^bold>\<open>Byte channels.\<close> \<open>Capacity\<close> models the adaptive allowance of \<open>protocol/src/queue.rs\<close> and \<open>Queue\<close> its
  operations run alone: admission, batched receives, the refresh of the allowance. \<open>Queue_Concurrent\<close> splits the
  same operations into their atomic accesses and lets any number of senders interleave with the receiver: items are
  delivered once and in order, the byte counter never wraps, the end is only reported when everything was
  delivered, and a closed channel keeps neither items nor credit. It also exhibits the run in which
  \<open>try_recv\<close> reports the end too early.

  \<^bold>\<open>Streams.\<close> \<open>Stream_Buffer\<close> is the duplex stream of \<open>protocol/src/stream_buffer.rs\<close>, \<open>Chunk\<close> the relay of
  \<open>chunk.rs\<close>: no byte is lost, repeated or reordered, and each direction counts what it wrote. The locales \<open>byte_pipe\<close>, \<open>chunk_stream\<close> and
  \<open>duplex_relay\<close> are the interfaces between them. \<open>Pool\<close> models the block pool of \<open>pool.rs\<close> and the packet
  arena of \<open>tun/src/storage.rs\<close>.

  \<^bold>\<open>The TUN stack.\<close> \<open>Tcp_Storage\<close> models \<open>tun/src/tcp_storage.rs\<close>: segments stored in any order and with any
  overlap read back as the stream, and acknowledging releases exactly their budget. \<open>Ip_Packet\<close>, \<open>Ip_Limits\<close> and
  \<open>Ip_Decoder\<close> model \<open>packet.rs\<close> and \<open>reassembly.rs\<close>: what is admitted and where its parts lie in the packet, on
  which bytes parsing panics, that the shared budget is exactly what the
  leases hold, that delivered bytes were carried by fragments of their datagram, and that overlaps poison it.
  \<open>Fragment_Routes\<close> models \<open>fragments.rs\<close>, the binding of a datagram to one worker, whose frames are only dropped
  for want of budget. \<open>Udp_Encoder\<close> models
  \<open>udp.rs\<close> and \<open>transmit.rs\<close>; it shows that frames carry the datagram, and that one reserved byte is left as the
  recycled buffer had it.

  \<^bold>\<open>Sniffing.\<close> \<open>Sniff_Tls\<close>, \<open>Quic_Sniff\<close> and \<open>Sniff\<close> model \<open>inbounds/src/sniff\<close>: CRYPTO data is reassembled
  however it is split, and whatever inspection reads is replayed to the route.

  \<^bold>\<open>Protocols.\<close> \<open>Hysteria_Wire\<close>, \<open>Hysteria_Reassembly\<close> and \<open>Hysteria_Udp\<close> model \<open>hysteria2/src/wire.rs\<close> and
  \<open>udp.rs\<close>: requests and fragments round trip, reassembly is bounded and completes, expiry ends and is exact, and
  a reply only leaves through the association that made it. \<open>Anytls_Wire\<close>, \<open>Anytls_Session\<close>, \<open>Anytls_Uot\<close> and
  \<open>Anytls_Pool\<close> model \<open>anytls/src\<close>: padded records decode to the written frames, a session stays within its stream
  and byte limits whatever the peer sends, datagrams round trip, and a pooled session is never shared or stale.
  \<open>Naive_Padding\<close> models \<open>naive/src/padding.rs\<close>, \<open>Shadowsocks\<close> the buffered writer and the salt check of
  \<open>shadowsocks2022/src\<close>, \<open>Dns_Cache\<close> the response cache of \<open>dns/src/cache.rs\<close>, \<open>Target\<close> the targets and
  carrier capabilities of \<open>config\<close> and \<open>protocol/src/lib.rs\<close>.

  \<^bold>\<open>Interleaving.\<close> Only \<open>Queue_Concurrent\<close> works at the level of atomic accesses, with sequentially consistent
  memory. Elsewhere a handler is one step, because the source runs it under a lock or in the single task that owns
  the state; the theories with a step relation then allow every order of handlers. \<open>Anytls_Session\<close> lets any
  stream id be reported as dropped, and \<open>Hysteria_Udp\<close> lets scopes close at any time, so their steps include more
  than the program can do.

  \<^bold>\<open>Not modelled.\<close> The TCP state machine and the interfaces of the TUN stack (\<open>tun/src/tcp.rs\<close>, \<open>worker.rs\<close>,
  \<open>tcp_direct.rs\<close>, \<open>udp_direct.rs\<close>) drive smoltcp, whose state machine decides their behaviour. \<open>offload.rs\<close> and
  \<open>linux.rs\<close> rewrite virtio headers by pointer offsets into the packet, which \<open>parsed\<close> does not carry, and call
  the device. The daemon, the cancellation scopes and the session tasks (\<open>daemon\<close>, \<open>protocol/src/control.rs\<close>,
  \<open>scoped.rs\<close>, \<open>session.rs\<close>, \<open>io.rs\<close>) are wiring of tokio tasks; a closed scope appears in the models as an
  event. \<open>script\<close> and \<open>typescript\<close> bind a JavaScript engine. The connection layers of the protocols and the
  servers and clients of SOCKS5, HTTP and DNS are calls into quinn, h3, rustls, hyper, hickory and fast-socks5.
  \<open>outbounds\<close> issues system calls. \<open>config\<close> has no operations beyond those modelled. The command line, the
  benchmarks and the traffic generator are tools. Of the modelled crates, wakers, logging and memory orderings
  weaker than sequential consistency are left out.
\<close>

end
